(* ===== verification/GoPrelude.thy ===== *)
theory GoPrelude
  imports Main "HOL-Library.AList" "HOL-Library.Word" "HOL-Library.List_Lexorder" "HOL-Library.Char_ord"
begin

text \<open>
  What the components share: Go maps and sets as association lists and lists, 64-bit signed
  arithmetic, decimal numbers, splitting and joining of strings, and reachability of a step
  relation with its invariant rule.

  A Go map is an association list with distinct keys. Its order is the order in which a
  \<^verbatim>\<open>range\<close> loop happens to visit the map, which Go leaves open: theorems quantify over the
  list, so over every order, and the step relations contain a step that permutes the maps.
\<close>

named_theorems gomap_simps
  "lookup, keys and lengths of association lists after an update or a deletion"
named_theorems op_defs
  "the definitions of the operations of a component"

section \<open>Go maps and sets\<close>

type_synonym ('k, 'v) gomap = "('k \<times> 'v) list"

abbreviation mget :: "('k, 'v) gomap \<Rightarrow> 'k \<Rightarrow> 'v option" where
  "mget m k \<equiv> map_of m k"

abbreviation mput :: "'k \<Rightarrow> 'v \<Rightarrow> ('k, 'v) gomap \<Rightarrow> ('k, 'v) gomap" where
  "mput k v m \<equiv> AList.update k v m"

abbreviation mdel :: "'k \<Rightarrow> ('k, 'v) gomap \<Rightarrow> ('k, 'v) gomap" where
  "mdel k m \<equiv> AList.delete k m"

abbreviation mkeys :: "('k, 'v) gomap \<Rightarrow> 'k list" where
  "mkeys m \<equiv> map fst m"

abbreviation wf_map :: "('k, 'v) gomap \<Rightarrow> bool" where
  "wf_map m \<equiv> distinct (mkeys m)"

lemmas [gomap_simps] = update_conv' delete_conv' dom_update

lemma mkeys_mdel [gomap_simps]: "fst ` set (mdel k m) = fst ` set m - {k}"
  by (auto simp: AList.delete_eq)

lemma wf_mput [simp, intro]: "wf_map m \<Longrightarrow> wf_map (mput k v m)"
  by (rule distinct_update)

lemma wf_mdel [simp, intro]: "wf_map m \<Longrightarrow> wf_map (mdel k m)"
  by (rule distinct_delete)

lemma wf_filter [simp, intro]: "wf_map m \<Longrightarrow> wf_map (filter P m)"
  by (rule distinct_map_filter)

lemma length_mput [gomap_simps]:
  "length (mput k v m) = (if k \<in> fst ` set m then length m else Suc (length m))"
  by (induction m) (auto simp: gomap_simps)

lemma length_mdel [gomap_simps]:
  "wf_map m \<Longrightarrow> length (mdel k m) = (if k \<in> fst ` set m then length m - 1 else length m)"
proof (induction m)
  case Nil
  then show ?case by simp
next
  case (Cons p m)
  show ?case
  proof (cases "k \<in> fst ` set m")
    case True
    then have "0 < length m" by (cases m) auto
    with Cons True show ?thesis by (cases p) (auto simp: image_iff)
  next
    case False
    with Cons show ?thesis by (cases p) (auto simp: image_iff)
  qed
qed

lemma mget_None: "mget m k = None \<longleftrightarrow> k \<notin> fst ` set m"
  by (rule map_of_eq_None_iff)

lemma mget_SomeD: "mget m k = Some v \<Longrightarrow> k \<in> fst ` set m"
  by (metis mget_None option.distinct(1))

lemma mget_in: "wf_map m \<Longrightarrow> (k, v) \<in> set m \<longleftrightarrow> mget m k = Some v"
  by (simp add: map_of_eq_Some_iff)

lemma set_mput_D: "p \<in> set (mput k v m) \<Longrightarrow> p = (k, v) \<or> p \<in> set m"
  by (induction m) (auto split: if_splits)

lemma set_mdel_subset: "set (mdel k m) \<subseteq> set m"
  by (auto simp: AList.delete_eq)

lemma mget_perm: "set m = set m' \<Longrightarrow> wf_map m \<Longrightarrow> wf_map m' \<Longrightarrow> mget m k = mget m' k"
  by (metis map_of_inject_set)

text \<open>How many entries satisfy a predicate, and how that count follows the map operations.\<close>

definition mcount :: "('k \<times> 'v \<Rightarrow> bool) \<Rightarrow> ('k, 'v) gomap \<Rightarrow> nat" where
  "mcount P m = length (filter P m)"

lemma mput_fresh: "k \<notin> fst ` set m \<Longrightarrow> mput k v m = m @ [(k, v)]"
  by (induction m) auto

lemma mcount_Nil [simp]: "mcount P [] = 0"
  by (simp add: mcount_def)

lemma mcount_fresh [gomap_simps]:
  "k \<notin> fst ` set m \<Longrightarrow> mcount P (mput k v m) = mcount P m + (if P (k, v) then 1 else 0)"
  by (simp add: mcount_def mput_fresh)

lemma mcount_mput:
  "wf_map m \<Longrightarrow> mget m k = Some v \<Longrightarrow>
   mcount P (mput k v' m) + (if P (k, v) then 1 else 0) = mcount P m + (if P (k, v') then 1 else 0)"
proof (induction m)
  case Nil
  then show ?case by simp
next
  case (Cons p m)
  obtain k1 v1 where p: "p = (k1, v1)" by (cases p)
  show ?case
  proof (cases "k1 = k")
    case True
    with Cons.prems p show ?thesis by (simp add: mcount_def)
  next
    case False
    with Cons p have "mcount P (mput k v' m) + (if P (k, v) then 1 else 0) =
        mcount P m + (if P (k, v') then 1 else 0)" by simp
    with False p show ?thesis by (simp add: mcount_def)
  qed
qed

lemma mcount_mdel:
  "wf_map m \<Longrightarrow> mget m k = Some v \<Longrightarrow> mcount P (mdel k m) + (if P (k, v) then 1 else 0) = mcount P m"
proof (induction m)
  case Nil
  then show ?case by simp
next
  case (Cons p m)
  obtain k1 v1 where p: "p = (k1, v1)" by (cases p)
  show ?case
  proof (cases "k1 = k")
    case True
    with Cons.prems p show ?thesis by (auto simp: mcount_def)
  next
    case False
    with Cons p have "mcount P (mdel k m) + (if P (k, v) then 1 else 0) = mcount P m" by simp
    with False p show ?thesis by (simp add: mcount_def)
  qed
qed

text \<open>A map of maps or of sets: Go reads a missing inner map as an empty one.\<close>

definition mset_of :: "('k, 'e list) gomap \<Rightarrow> 'k \<Rightarrow> 'e list" where
  "mset_of m k = (case mget m k of None \<Rightarrow> [] | Some es \<Rightarrow> es)"

text \<open>\<^verbatim>\<open>delete(m[k], e)\<close> never creates the inner map, an insertion does.\<close>

definition mset_del :: "'k \<Rightarrow> 'e \<Rightarrow> ('k, 'e list) gomap \<Rightarrow> ('k, 'e list) gomap" where
  "mset_del k e m = (case mget m k of None \<Rightarrow> m | Some es \<Rightarrow> mput k (removeAll e es) m)"

definition mset_add :: "'k \<Rightarrow> 'e \<Rightarrow> ('k, 'e list) gomap \<Rightarrow> ('k, 'e list) gomap" where
  "mset_add k e m = mput k (List.insert e (mset_of m k)) m"

lemma mset_of_mput [gomap_simps]:
  "mset_of (mput k es m) k' = (if k' = k then es else mset_of m k')"
  by (simp add: mset_of_def update_conv')

lemma mset_of_mdel [gomap_simps]:
  "mset_of (mdel k m) k' = (if k' = k then [] else mset_of m k')"
  by (simp add: mset_of_def delete_conv')

lemma mset_of_del [gomap_simps]:
  "mset_of (mset_del k e m) k' = (if k' = k then removeAll e (mset_of m k) else mset_of m k')"
  by (auto simp: mset_del_def mset_of_def update_conv' split: option.splits)

lemma mset_of_add [gomap_simps]:
  "mset_of (mset_add k e m) k' = (if k' = k then List.insert e (mset_of m k) else mset_of m k')"
  by (simp add: mset_add_def gomap_simps)

lemma mset_of_Nil [simp]: "mset_of [] k = []"
  by (simp add: mset_of_def)

lemma wf_mset_del [simp, intro]: "wf_map m \<Longrightarrow> wf_map (mset_del k e m)"
  by (auto simp: mset_del_def split: option.splits)

lemma wf_mset_add [simp, intro]: "wf_map m \<Longrightarrow> wf_map (mset_add k e m)"
  by (auto simp: mset_add_def)

lemma keys_mset_del [gomap_simps]: "fst ` set (mset_del k e m) = fst ` set m"
  by (auto simp: mset_del_def gomap_simps split: option.splits dest: mget_SomeD)

lemma keys_mset_add [gomap_simps]: "fst ` set (mset_add k e m) = insert k (fst ` set m)"
  by (auto simp: mset_add_def gomap_simps)

section \<open>Integers\<close>

text \<open>\<^verbatim>\<open>int64\<close>: an \<open>int\<close> whose arithmetic results are brought back into the range by
  \<open>wrap64\<close>. Division truncates towards zero.\<close>

definition max_int64 :: int where
  "max_int64 = 9223372036854775807"

definition wrap64 :: "int \<Rightarrow> int" where
  "wrap64 x = (x + 9223372036854775808) mod 18446744073709551616 - 9223372036854775808"

definition is_int64 :: "int \<Rightarrow> bool" where
  "is_int64 x \<longleftrightarrow> - 9223372036854775808 \<le> x \<and> x \<le> max_int64"

lemma wrap64_id: "is_int64 x \<Longrightarrow> wrap64 x = x"
  by (simp add: is_int64_def wrap64_def max_int64_def)

lemma is_int64_wrap64: "is_int64 (wrap64 x)"
proof -
  have "0 \<le> (x + 9223372036854775808) mod 18446744073709551616"
    and "(x + 9223372036854775808) mod 18446744073709551616 < 18446744073709551616"
    by simp_all
  then show ?thesis by (simp add: is_int64_def wrap64_def max_int64_def)
qed

definition go_quot :: "int \<Rightarrow> int \<Rightarrow> int" where
  "go_quot a b = sgn a * sgn b * (\<bar>a\<bar> div \<bar>b\<bar>)"

definition go_rem :: "int \<Rightarrow> int \<Rightarrow> int" where
  "go_rem a b = sgn a * (\<bar>a\<bar> mod \<bar>b\<bar>)"

lemma go_quot_nonneg: "0 \<le> a \<Longrightarrow> 0 < b \<Longrightarrow> go_quot a b = a div b"
  by (cases "a = 0") (simp_all add: go_quot_def)

lemma go_rem_nonneg: "0 \<le> a \<Longrightarrow> 0 < b \<Longrightarrow> go_rem a b = a mod b"
  by (cases "a = 0") (simp_all add: go_rem_def)

section \<open>Decimal numbers\<close>

text \<open>\<^verbatim>\<open>strconv.FormatInt(i, 10)\<close> and \<^verbatim>\<open>strconv.Atoi\<close>.\<close>

definition digit_char :: "nat \<Rightarrow> char" where
  "digit_char d = char_of (48 + d)"

fun nat_digits :: "nat \<Rightarrow> string" where
  "nat_digits n = (if n < 10 then [digit_char n] else nat_digits (n div 10) @ [digit_char (n mod 10)])"

declare nat_digits.simps [simp del]

definition format_int :: "int \<Rightarrow> string" where
  "format_int i = (if i < 0 then CHR ''-'' # nat_digits (nat (- i)) else nat_digits (nat i))"

definition is_digit :: "char \<Rightarrow> bool" where
  "is_digit c \<longleftrightarrow> 48 \<le> (of_char c :: nat) \<and> (of_char c :: nat) \<le> 57"

definition digits_val :: "string \<Rightarrow> nat" where
  "digits_val s = foldl (\<lambda>a c. 10 * a + (of_char c - 48)) 0 s"

definition atoi :: "string \<Rightarrow> int option" where
  "atoi s =
     (let neg = (s \<noteq> [] \<and> hd s = CHR ''-'');
          ds = (if s \<noteq> [] \<and> (hd s = CHR ''-'' \<or> hd s = CHR ''+'') then tl s else s);
          v = (if neg then - int (digits_val ds) else int (digits_val ds))
      in if ds \<noteq> [] \<and> list_all is_digit ds \<and> is_int64 v then Some v else None)"

lemma of_char_digit: "d < 10 \<Longrightarrow> (of_char (digit_char d) :: nat) = 48 + d"
  by (simp add: digit_char_def of_char_of)

lemma nat_digits_digits: "list_all is_digit (nat_digits n)"
proof (induction n rule: nat_digits.induct)
  case (1 n)
  then show ?case
    by (cases "n < 10") (simp_all add: nat_digits.simps [of n] is_digit_def of_char_digit)
qed

lemma nat_digits_nonempty: "nat_digits n \<noteq> []"
  by (subst nat_digits.simps) simp

lemma digits_val_snoc: "digits_val (s @ [c]) = 10 * digits_val s + (of_char c - 48)"
  by (simp add: digits_val_def)

lemma digits_val_nat_digits: "digits_val (nat_digits n) = n"
proof (induction n rule: nat_digits.induct)
  case (1 n)
  show ?case
  proof (cases "n < 10")
    case True
    then show ?thesis by (simp add: nat_digits.simps [of n] digits_val_def of_char_digit)
  next
    case False
    with 1 show ?thesis by (simp add: nat_digits.simps [of n] digits_val_snoc of_char_digit)
  qed
qed

lemma nat_digits_inj: "nat_digits m = nat_digits n \<Longrightarrow> m = n"
  by (metis digits_val_nat_digits)

lemma digit_not_in:
  "\<not> is_digit c \<Longrightarrow> c \<notin> set (nat_digits n)"
  using nat_digits_digits [of n] by (auto simp: list_all_iff)

lemma minus_not_digit: "\<not> is_digit CHR ''-''" and colon_not_digit: "\<not> is_digit CHR '':''"
  by (simp_all add: is_digit_def)

lemma hd_nat_digits: "hd (nat_digits n) \<noteq> CHR ''-''"
  by (metis digit_not_in hd_in_set minus_not_digit nat_digits_nonempty)

lemma format_int_inj: "format_int i = format_int j \<Longrightarrow> i = j"
proof -
  assume eq: "format_int i = format_int j"
  have sign: "i < 0 \<longleftrightarrow> j < 0"
    using eq hd_nat_digits [of "nat i"] hd_nat_digits [of "nat j"]
    by (cases "i < 0"; cases "j < 0") (auto simp: format_int_def dest: arg_cong [where f = hd])
  show ?thesis
  proof (cases "i < 0")
    case True
    with eq sign have "nat_digits (nat (- i)) = nat_digits (nat (- j))"
      by (simp add: format_int_def)
    then have "nat (- i) = nat (- j)" by (rule nat_digits_inj)
    with True sign show ?thesis by simp
  next
    case False
    with eq sign have "nat_digits (nat i) = nat_digits (nat j)"
      by (simp add: format_int_def)
    then have "nat i = nat j" by (rule nat_digits_inj)
    with False sign show ?thesis by simp
  qed
qed

lemma colon_not_in_format_int: "CHR '':'' \<notin> set (format_int i)"
  using digit_not_in [OF colon_not_digit] by (auto simp: format_int_def)

lemma hd_nat_digits_plus: "hd (nat_digits n) \<noteq> CHR ''+''"
proof -
  have "\<not> is_digit CHR ''+''" by (simp add: is_digit_def)
  then show ?thesis by (metis digit_not_in hd_in_set nat_digits_nonempty)
qed

lemma atoi_format_int: "is_int64 i \<Longrightarrow> atoi (format_int i) = Some i"
  by (cases "i < 0")
    (simp_all add: atoi_def format_int_def nat_digits_nonempty nat_digits_digits
      digits_val_nat_digits hd_nat_digits hd_nat_digits_plus)

section \<open>Splitting and joining\<close>

text \<open>\<^verbatim>\<open>strings.Split\<close> and \<^verbatim>\<open>strings.Join\<close> at one separator character.\<close>

fun split_at :: "char \<Rightarrow> string \<Rightarrow> string list" where
  "split_at c [] = [[]]"
| "split_at c (x # xs) =
     (if x = c then [] # split_at c xs
      else (case split_at c xs of [] \<Rightarrow> [[x]] | p # ps \<Rightarrow> (x # p) # ps))"

fun join_with :: "char \<Rightarrow> string list \<Rightarrow> string" where
  "join_with c [] = []"
| "join_with c [p] = p"
| "join_with c (p # q # ps) = p @ c # join_with c (q # ps)"

lemma split_at_nonempty [simp]: "split_at c s \<noteq> []"
  by (cases s) (auto split: list.splits)

lemma split_at_no_sep: "p \<in> set (split_at c s) \<Longrightarrow> c \<notin> set p"
  by (induction s arbitrary: p) (fastforce split: if_splits list.splits)+

lemma join_with_Cons_char: "join_with c ((x # p) # ps) = x # join_with c (p # ps)"
  by (cases ps) simp_all

lemma join_with_Nil_Cons: "ps \<noteq> [] \<Longrightarrow> join_with c ([] # ps) = c # join_with c ps"
  by (cases ps) simp_all

lemma join_split: "join_with c (split_at c s) = s"
proof (induction s)
  case Nil
  then show ?case by simp
next
  case (Cons x s)
  then show ?case
    by (cases "split_at c s") (auto simp: join_with_Cons_char join_with_Nil_Cons)
qed

lemma split_at_append_sep: "c \<notin> set p \<Longrightarrow> split_at c (p @ c # s) = p # split_at c s"
  by (induction p) auto

lemma split_at_single: "c \<notin> set p \<Longrightarrow> split_at c p = [p]"
  by (induction p) auto

lemma split_join: "ps \<noteq> [] \<Longrightarrow> (\<And>p. p \<in> set ps \<Longrightarrow> c \<notin> set p) \<Longrightarrow> split_at c (join_with c ps) = ps"
  by (induction c ps rule: join_with.induct) (auto simp: split_at_append_sep split_at_single)

section \<open>Reachability\<close>

inductive reachable :: "('s \<Rightarrow> bool) \<Rightarrow> ('s \<Rightarrow> 's \<Rightarrow> bool) \<Rightarrow> 's \<Rightarrow> bool"
  for init and step where
  reach_init: "init s \<Longrightarrow> reachable init step s"
| reach_step: "reachable init step s \<Longrightarrow> step s t \<Longrightarrow> reachable init step t"

text \<open>The contract of an inductive invariant: every component with a step relation provides it,
  and gets that its invariant holds in every reachable state.\<close>

locale invariant_system =
  fixes init :: "'s \<Rightarrow> bool"
    and step :: "'s \<Rightarrow> 's \<Rightarrow> bool"
    and inv :: "'s \<Rightarrow> bool"
  assumes init_inv: "init s \<Longrightarrow> inv s"
    and step_inv: "step s t \<Longrightarrow> inv s \<Longrightarrow> inv t"
begin

lemma reach_inv: "reachable init step s \<Longrightarrow> inv s"
  by (induction rule: reachable.induct) (auto intro: init_inv step_inv)

lemma run_inv: "step\<^sup>*\<^sup>* s t \<Longrightarrow> inv s \<Longrightarrow> inv t"
  by (induction rule: rtranclp_induct) (auto intro: step_inv)

end

end
