(* ===== verification/ConnPool.thy ===== *)
theory ConnPool
  imports GoPrelude
begin

text \<open>
  The connection pool (\<^verbatim>\<open>pkg/conn_pool\<close>). Goroutines inside \<^verbatim>\<open>GetConnContext\<close> are \<open>flights\<close>:
  each is between two critical sections, waiting for a permit, picking an idle connection,
  dialling, or holding a connection it has not registered yet. Every critical section is a
  function on the pool and its sockets; the step relation interleaves them in any order, and
  the invariant of its reachable states gives the bound on the connections of an address.
\<close>

type_synonym conn = nat
type_synonym time = int

text \<open>Nanoseconds; \<^verbatim>\<open>maxIdleTime = time.Minute\<close>.\<close>

definition max_idle_time :: time where
  "max_idle_time = 60 * 10 ^ 9"

record bucket =
  bkIdle :: "(conn \<times> time) list"
  bkPermits :: nat

datatype phase = Waiting | Picking | Dialing | Holding conn

record conn_pool =
  cpBuckets :: "(string, bucket) gomap"
  cpBorrowed :: "(conn, string) gomap"
  cpMax :: nat
  cpClosed :: bool
  cpFlights :: "(nat, string \<times> phase) gomap"
  cpOpen :: "conn list"

definition NewConnPool :: "int \<Rightarrow> conn_pool" where
  "NewConnPool mx =
     (let n = (if mx < 1 then 1 else mx)
      in \<lparr>cpBuckets = [], cpBorrowed = [], cpMax = nat n, cpClosed = False, cpFlights = [], cpOpen = []\<rparr>)"

definition empty_bucket :: bucket where
  "empty_bucket = \<lparr>bkIdle = [], bkPermits = 0\<rparr>"

definition the_bucket :: "conn_pool \<Rightarrow> string \<Rightarrow> bucket" where
  "the_bucket p a = (case mget (cpBuckets p) a of None \<Rightarrow> empty_bucket | Some b \<Rightarrow> b)"

definition set_bucket :: "string \<Rightarrow> bucket \<Rightarrow> conn_pool \<Rightarrow> conn_pool" where
  "set_bucket a b p = p\<lparr>cpBuckets := mput a b (cpBuckets p)\<rparr>"

definition set_flight :: "nat \<Rightarrow> string \<Rightarrow> phase \<Rightarrow> conn_pool \<Rightarrow> conn_pool" where
  "set_flight t a ph p = p\<lparr>cpFlights := mput t (a, ph) (cpFlights p)\<rparr>"

definition end_flight :: "nat \<Rightarrow> conn_pool \<Rightarrow> conn_pool" where
  "end_flight t p = p\<lparr>cpFlights := mdel t (cpFlights p)\<rparr>"

definition close_conn :: "conn \<Rightarrow> conn_pool \<Rightarrow> conn_pool" where
  "close_conn c p = p\<lparr>cpOpen := removeAll c (cpOpen p)\<rparr>"

definition take_permit :: "string \<Rightarrow> conn_pool \<Rightarrow> conn_pool" where
  "take_permit a p =
     set_bucket a ((the_bucket p a)\<lparr>bkPermits := Suc (bkPermits (the_bucket p a))\<rparr>) p"

text \<open>\<^verbatim>\<open><-b.permits\<close>. Receiving from an empty channel would block for ever; that the
  channel is never empty there is a theorem about the reachable states.\<close>

definition drop_permit :: "string \<Rightarrow> conn_pool \<Rightarrow> conn_pool" where
  "drop_permit a p =
     set_bucket a ((the_bucket p a)\<lparr>bkPermits := bkPermits (the_bucket p a) - 1\<rparr>) p"

section \<open>GetConnContext\<close>

text \<open>Its critical sections, in order. The first finds or creates the bucket; a closed pool
  answers \<^verbatim>\<open>net.ErrClosed\<close> (\<open>None\<close>).\<close>

definition get_enter :: "nat \<Rightarrow> string \<Rightarrow> conn_pool \<Rightarrow> conn_pool option" where
  "get_enter t a p =
     (if cpClosed p then None
      else
        (let p1 = (case mget (cpBuckets p) a of
                     None \<Rightarrow> set_bucket a empty_bucket p
                   | Some b \<Rightarrow> p)
         in Some (set_flight t a Waiting p1)))"

text \<open>The \<^verbatim>\<open>select\<close>: sending to the permit channel is ready while it is not full.\<close>

definition get_permit :: "nat \<Rightarrow> string \<Rightarrow> conn_pool \<Rightarrow> conn_pool option" where
  "get_permit t a p =
     (if bkPermits (the_bucket p a) < cpMax p
      then Some (set_flight t a Picking (take_permit a p)) else None)"

text \<open>One turn of the loop over the idle channel: take a fresh connection, close a stale one, or
  go and dial when the channel is empty.\<close>

definition get_pick :: "nat \<Rightarrow> string \<Rightarrow> time \<Rightarrow> conn_pool \<Rightarrow> conn_pool" where
  "get_pick t a now p =
     (case bkIdle (the_bucket p a) of
        [] \<Rightarrow> set_flight t a Dialing p
      | (c, since) # rest \<Rightarrow>
          (let p1 = set_bucket a ((the_bucket p a)\<lparr>bkIdle := rest\<rparr>) p
           in if now - since < max_idle_time then set_flight t a (Holding c) p1
              else close_conn c p1))"

definition dial_ok :: "nat \<Rightarrow> string \<Rightarrow> conn \<Rightarrow> conn_pool \<Rightarrow> conn_pool" where
  "dial_ok t a c p = set_flight t a (Holding c) (p\<lparr>cpOpen := c # cpOpen p\<rparr>)"

definition dial_failed :: "nat \<Rightarrow> string \<Rightarrow> conn_pool \<Rightarrow> conn_pool" where
  "dial_failed t a p = end_flight t (drop_permit a p)"

definition get_finish :: "nat \<Rightarrow> string \<Rightarrow> conn \<Rightarrow> conn_pool \<Rightarrow> conn_pool" where
  "get_finish t a c p =
     (if cpClosed p then end_flight t (drop_permit a (close_conn c p))
      else end_flight t (p\<lparr>cpBorrowed := mput c a (cpBorrowed p)\<rparr>))"

section \<open>Release and Close\<close>

text \<open>\<open>deadline_ok\<close> is whether \<^verbatim>\<open>SetDeadline\<close> succeeds on the returned connection.\<close>

definition release :: "conn \<Rightarrow> bool \<Rightarrow> bool \<Rightarrow> time \<Rightarrow> conn_pool \<Rightarrow> conn_pool" where
  "release c reuse deadline_ok now p =
     (case mget (cpBorrowed p) c of
        None \<Rightarrow> close_conn c p
      | Some a \<Rightarrow>
          (let p1 = drop_permit a (p\<lparr>cpBorrowed := mdel c (cpBorrowed p)\<rparr>)
           in if \<not> reuse \<or> cpClosed p then close_conn c p1
              else if \<not> deadline_ok then close_conn c p1
              else if length (bkIdle (the_bucket p1 a)) < cpMax p
              then set_bucket a ((the_bucket p1 a)\<lparr>bkIdle := bkIdle (the_bucket p1 a) @ [(c, now)]\<rparr>) p1
              else close_conn c p1))"

definition Discard :: "conn \<Rightarrow> conn_pool \<Rightarrow> conn_pool" where
  "Discard c p = release c False True 0 p"

definition PutConn :: "conn \<Rightarrow> bool \<Rightarrow> time \<Rightarrow> conn_pool \<Rightarrow> conn_pool" where
  "PutConn c deadline_ok now p = release c True deadline_ok now p"

definition pool_idle_conns :: "conn_pool \<Rightarrow> conn list" where
  "pool_idle_conns p = concat (map (\<lambda>(a, b). map fst (bkIdle b)) (cpBuckets p))"

definition Close :: "conn_pool \<Rightarrow> conn_pool" where
  "Close p =
     (if cpClosed p then p
      else p\<lparr>cpClosed := True,
             cpOpen := filter (\<lambda>c. c \<notin> set (mkeys (cpBorrowed p)) \<and> c \<notin> set (pool_idle_conns p)) (cpOpen p),
             cpBuckets := map (\<lambda>(a, b). (a, b\<lparr>bkIdle := []\<rparr>)) (cpBuckets p)\<rparr>)"

section \<open>All interleavings\<close>

text \<open>Where a connection is: in an idle channel, with a borrower, or in a flight.\<close>

definition idle_at :: "conn_pool \<Rightarrow> string \<Rightarrow> conn \<Rightarrow> bool" where
  "idle_at p a c \<longleftrightarrow> c \<in> fst ` set (bkIdle (the_bucket p a))"

definition lent :: "conn_pool \<Rightarrow> conn \<Rightarrow> bool" where
  "lent p c \<longleftrightarrow> c \<in> fst ` set (cpBorrowed p)"

definition held :: "conn_pool \<Rightarrow> nat \<Rightarrow> conn \<Rightarrow> bool" where
  "held p t c \<longleftrightarrow>
     (case mget (cpFlights p) t of None \<Rightarrow> False | Some (a, ph) \<Rightarrow> ph = Holding c)"

text \<open>A dialled connection is a new socket: it is nowhere in the pool.\<close>

inductive pool_step :: "conn_pool \<Rightarrow> conn_pool \<Rightarrow> bool" where
  enter: "t \<notin> set (mkeys (cpFlights p)) \<Longrightarrow> get_enter t a p = Some q \<Longrightarrow> pool_step p q"
| permit: "mget (cpFlights p) t = Some (a, Waiting) \<Longrightarrow> get_permit t a p = Some q \<Longrightarrow> pool_step p q"
| give_up: "mget (cpFlights p) t = Some (a, Waiting) \<Longrightarrow> pool_step p (end_flight t p)"
| pick: "mget (cpFlights p) t = Some (a, Picking) \<Longrightarrow> pool_step p (get_pick t a now p)"
| dialled: "mget (cpFlights p) t = Some (a, Dialing) \<Longrightarrow> c \<notin> set (cpOpen p) \<Longrightarrow>
     \<not> lent p c \<Longrightarrow> (\<And>a'. \<not> idle_at p a' c) \<Longrightarrow> (\<And>t'. \<not> held p t' c) \<Longrightarrow>
     pool_step p (dial_ok t a c p)"
| dial_fail: "mget (cpFlights p) t = Some (a, Dialing) \<Longrightarrow> pool_step p (dial_failed t a p)"
| finish: "mget (cpFlights p) t = Some (a, Holding c) \<Longrightarrow> pool_step p (get_finish t a c p)"
| give_back: "mget (cpBorrowed p) c = Some a \<Longrightarrow> pool_step p (release c reuse deadline_ok now p)"
| shut: "pool_step p (Close p)"

definition pool_init :: "conn_pool \<Rightarrow> bool" where
  "pool_init p \<longleftrightarrow> (\<exists>mx. p = NewConnPool mx)"

text \<open>What an address has: borrowed connections, flights that own a permit, and flights that own or
  are about to own a connection.\<close>

definition borrowed_of :: "conn_pool \<Rightarrow> string \<Rightarrow> nat" where
  "borrowed_of p a = mcount (\<lambda>(c, a'). a' = a) (cpBorrowed p)"

definition permitted_of :: "conn_pool \<Rightarrow> string \<Rightarrow> nat" where
  "permitted_of p a = mcount (\<lambda>(t, a', ph). a' = a \<and> ph \<noteq> Waiting) (cpFlights p)"

definition connecting_of :: "conn_pool \<Rightarrow> string \<Rightarrow> nat" where
  "connecting_of p a = mcount (\<lambda>(t, a', ph). a' = a \<and> ph \<noteq> Waiting \<and> ph \<noteq> Picking) (cpFlights p)"

definition idle_of :: "conn_pool \<Rightarrow> string \<Rightarrow> nat" where
  "idle_of p a = length (bkIdle (the_bucket p a))"

definition addr_inv :: "conn_pool \<Rightarrow> string \<Rightarrow> bool" where
  "addr_inv p a \<longleftrightarrow>
     bkPermits (the_bucket p a) = borrowed_of p a + permitted_of p a \<and>
     bkPermits (the_bucket p a) \<le> cpMax p \<and>
     idle_of p a + borrowed_of p a + connecting_of p a \<le> cpMax p \<and>
     (cpClosed p \<longrightarrow> bkIdle (the_bucket p a) = [])"

definition pool_inv :: "conn_pool \<Rightarrow> bool" where
  "pool_inv p \<longleftrightarrow>
     0 < cpMax p \<and> wf_map (cpBuckets p) \<and> wf_map (cpBorrowed p) \<and> wf_map (cpFlights p) \<and>
     (\<forall>a. addr_inv p a)"

section \<open>Preservation\<close>

named_theorems pool_defs

lemmas [pool_defs] = set_bucket_def set_flight_def end_flight_def close_conn_def take_permit_def
  drop_permit_def

lemma the_bucket_set [simp]:
  "the_bucket (set_bucket a b p) x = (if x = a then b else the_bucket p x)"
  by (simp add: the_bucket_def set_bucket_def update_conv')

lemma the_bucket_frame [simp]:
  "the_bucket (p\<lparr>cpFlights := fs\<rparr>) = the_bucket p"
  "the_bucket (p\<lparr>cpBorrowed := bs\<rparr>) = the_bucket p"
  "the_bucket (p\<lparr>cpOpen := os\<rparr>) = the_bucket p"
  "the_bucket (set_flight t a ph p) = the_bucket p"
  "the_bucket (end_flight t p) = the_bucket p"
  "the_bucket (close_conn c p) = the_bucket p"
  by (simp_all add: the_bucket_def fun_eq_iff pool_defs)

lemma bucket_ops [simp]:
  "cpFlights (set_bucket a b p) = cpFlights p" "cpBorrowed (set_bucket a b p) = cpBorrowed p"
  "cpMax (set_bucket a b p) = cpMax p" "cpClosed (set_bucket a b p) = cpClosed p"
  "cpBuckets (set_bucket a b p) = mput a b (cpBuckets p)" "cpOpen (set_bucket a b p) = cpOpen p"
  by (simp_all add: set_bucket_def)

lemma flight_ops [simp]:
  "cpFlights (set_flight t a ph p) = mput t (a, ph) (cpFlights p)"
  "cpFlights (end_flight t p) = mdel t (cpFlights p)"
  "cpBorrowed (set_flight t a ph p) = cpBorrowed p" "cpBorrowed (end_flight t p) = cpBorrowed p"
  "cpMax (set_flight t a ph p) = cpMax p" "cpMax (end_flight t p) = cpMax p"
  "cpClosed (set_flight t a ph p) = cpClosed p" "cpClosed (end_flight t p) = cpClosed p"
  "cpBuckets (set_flight t a ph p) = cpBuckets p" "cpBuckets (end_flight t p) = cpBuckets p"
  by (simp_all add: set_flight_def end_flight_def)

lemma close_conn_ops [simp]:
  "cpFlights (close_conn c p) = cpFlights p" "cpBorrowed (close_conn c p) = cpBorrowed p"
  "cpMax (close_conn c p) = cpMax p" "cpClosed (close_conn c p) = cpClosed p"
  "cpBuckets (close_conn c p) = cpBuckets p"
  by (simp_all add: close_conn_def)

lemma count_frames [simp]:
  "borrowed_of (set_bucket a b p) = borrowed_of p"
  "permitted_of (set_bucket a b p) = permitted_of p"
  "connecting_of (set_bucket a b p) = connecting_of p"
  "borrowed_of (set_flight t a ph p) = borrowed_of p" "borrowed_of (end_flight t p) = borrowed_of p"
  "borrowed_of (close_conn c p) = borrowed_of p"
  "permitted_of (close_conn c p) = permitted_of p"
  "connecting_of (close_conn c p) = connecting_of p"
  "permitted_of (p\<lparr>cpBorrowed := bs\<rparr>) = permitted_of p"
  "connecting_of (p\<lparr>cpBorrowed := bs\<rparr>) = connecting_of p"
  "borrowed_of (p\<lparr>cpOpen := os\<rparr>) = borrowed_of p"
  "permitted_of (p\<lparr>cpOpen := os\<rparr>) = permitted_of p"
  "connecting_of (p\<lparr>cpOpen := os\<rparr>) = connecting_of p"
  by (simp_all add: borrowed_of_def permitted_of_def connecting_of_def fun_eq_iff pool_defs)

lemma idle_frames [simp]:
  "idle_of (set_bucket a b p) x = (if x = a then length (bkIdle b) else idle_of p x)"
  "idle_of (set_flight t a ph p) = idle_of p" "idle_of (end_flight t p) = idle_of p"
  "idle_of (close_conn c p) = idle_of p" "idle_of (p\<lparr>cpBorrowed := bs\<rparr>) = idle_of p"
  "idle_of (p\<lparr>cpOpen := os\<rparr>) = idle_of p"
  by (simp_all add: idle_of_def fun_eq_iff)

lemma drop_permit_frames [simp]:
  "cpFlights (drop_permit a p) = cpFlights p" "cpBorrowed (drop_permit a p) = cpBorrowed p"
  "cpMax (drop_permit a p) = cpMax p" "cpClosed (drop_permit a p) = cpClosed p"
  "borrowed_of (drop_permit a p) = borrowed_of p" "permitted_of (drop_permit a p) = permitted_of p"
  "connecting_of (drop_permit a p) = connecting_of p" "idle_of (drop_permit a p) = idle_of p"
  "bkIdle (the_bucket (drop_permit a p) x) = bkIdle (the_bucket p x)"
  "bkPermits (the_bucket (drop_permit a p) x) =
     (if x = a then bkPermits (the_bucket p a) - 1 else bkPermits (the_bucket p x))"
  "wf_map (cpBuckets p) \<Longrightarrow> wf_map (cpBuckets (drop_permit a p))"
  by (auto simp: drop_permit_def fun_eq_iff idle_of_def)

text \<open>How the counts change when a flight moves from one phase to another, starts or ends, and when
  a connection is borrowed or returned.\<close>

lemma flight_start:
  assumes "t \<notin> fst ` set (cpFlights p)"
  shows "permitted_of (set_flight t a Waiting p) = permitted_of p"
    and "connecting_of (set_flight t a Waiting p) = connecting_of p"
  using assms by (simp_all add: fun_eq_iff permitted_of_def connecting_of_def mcount_fresh)

lemma flight_move:
  assumes "wf_map (cpFlights p)" and "mget (cpFlights p) t = Some (a, ph)"
  shows "permitted_of (set_flight t a ph' p) x + (if x = a \<and> ph \<noteq> Waiting then 1 else 0) =
      permitted_of p x + (if x = a \<and> ph' \<noteq> Waiting then 1 else 0)"
    and "connecting_of (set_flight t a ph' p) x + (if x = a \<and> ph \<noteq> Waiting \<and> ph \<noteq> Picking then 1 else 0) =
      connecting_of p x + (if x = a \<and> ph' \<noteq> Waiting \<and> ph' \<noteq> Picking then 1 else 0)"
  using mcount_mput [OF assms, of "\<lambda>(t, a', ph). a' = x \<and> ph \<noteq> Waiting" "(a, ph')"]
    mcount_mput [OF assms, of "\<lambda>(t, a', ph). a' = x \<and> ph \<noteq> Waiting \<and> ph \<noteq> Picking" "(a, ph')"]
  by (auto simp: permitted_of_def connecting_of_def split: if_splits)

lemma flight_end:
  assumes "wf_map (cpFlights p)" and "mget (cpFlights p) t = Some (a, ph)"
  shows "permitted_of (end_flight t p) x + (if x = a \<and> ph \<noteq> Waiting then 1 else 0) = permitted_of p x"
    and "connecting_of (end_flight t p) x + (if x = a \<and> ph \<noteq> Waiting \<and> ph \<noteq> Picking then 1 else 0) =
      connecting_of p x"
  using mcount_mdel [OF assms, of "\<lambda>(t, a', ph). a' = x \<and> ph \<noteq> Waiting"]
    mcount_mdel [OF assms, of "\<lambda>(t, a', ph). a' = x \<and> ph \<noteq> Waiting \<and> ph \<noteq> Picking"]
  by (auto simp: permitted_of_def connecting_of_def split: if_splits)

lemma borrow_start:
  assumes "c \<notin> fst ` set (cpBorrowed p)"
  shows "borrowed_of (p\<lparr>cpBorrowed := mput c a (cpBorrowed p)\<rparr>) x = borrowed_of p x + (if x = a then 1 else 0)"
  using assms by (auto simp: borrowed_of_def mcount_fresh)

lemma borrow_end:
  assumes "wf_map (cpBorrowed p)" and "mget (cpBorrowed p) c = Some a"
  shows "borrowed_of (p\<lparr>cpBorrowed := mdel c (cpBorrowed p)\<rparr>) x + (if x = a then 1 else 0) = borrowed_of p x"
  using mcount_mdel [OF assms, of "\<lambda>(c, a'). a' = x"]
  by (auto simp: borrowed_of_def split: if_splits)

lemma pool_invD:
  "pool_inv p \<Longrightarrow> addr_inv p a" "pool_inv p \<Longrightarrow> wf_map (cpFlights p)"
  "pool_inv p \<Longrightarrow> wf_map (cpBorrowed p)" "pool_inv p \<Longrightarrow> wf_map (cpBuckets p)"
  "pool_inv p \<Longrightarrow> 0 < cpMax p"
  by (simp_all add: pool_inv_def)

lemma mcount_mono: "(\<And>x. P x \<Longrightarrow> Q x) \<Longrightarrow> mcount P m \<le> mcount Q m"
  by (induction m) (auto simp: mcount_def intro: le_SucI)

lemma connecting_permitted: "connecting_of p a \<le> permitted_of p a"
  unfolding connecting_of_def permitted_of_def by (rule mcount_mono) auto

lemma inv_enter:
  assumes "pool_inv p" and "t \<notin> set (mkeys (cpFlights p))" and "get_enter t a p = Some q"
  shows "pool_inv q"
proof -
  have none: "mget (cpBuckets p) a = None \<Longrightarrow> the_bucket p a = empty_bucket"
    by (simp add: the_bucket_def)
  have fresh: "t \<notin> fst ` set (cpFlights p)" using assms(2) by simp
  have "addr_inv q x" for x
    using assms(3) pool_invD(1) [OF assms(1), of x] none fresh
    by (auto simp: get_enter_def addr_inv_def flight_start idle_of_def empty_bucket_def
        split: if_splits option.splits)
  with assms show ?thesis
    by (auto simp: pool_inv_def get_enter_def split: if_splits option.splits)
qed

lemma inv_permit:
  assumes "pool_inv p" and fl: "mget (cpFlights p) t = Some (a, Waiting)"
    and "get_permit t a p = Some q"
  shows "pool_inv q"
proof -
  have q: "q = set_flight t a Picking (take_permit a p)" and lim: "bkPermits (the_bucket p a) < cpMax p"
    using assms(3) by (auto simp: get_permit_def split: if_splits)
  have wf: "wf_map (cpFlights (take_permit a p))" and fl': "mget (cpFlights (take_permit a p)) t = Some (a, Waiting)"
    using pool_invD(2) [OF assms(1)] fl by (simp_all add: take_permit_def)
  have "addr_inv q x" for x
    using pool_invD(1) [OF assms(1), of x] lim flight_move [OF wf fl', of Picking x]
    by (auto simp: q addr_inv_def take_permit_def idle_of_def split: if_splits)
  with assms(1) show ?thesis by (auto simp: q pool_inv_def take_permit_def)
qed

lemma inv_give_up:
  assumes "pool_inv p" and fl: "mget (cpFlights p) t = Some (a, Waiting)"
  shows "pool_inv (end_flight t p)"
proof -
  have "addr_inv (end_flight t p) x" for x
    using pool_invD(1) [OF assms(1), of x] flight_end [OF pool_invD(2) [OF assms(1)] fl, of x]
    by (auto simp: addr_inv_def)
  with assms(1) show ?thesis by (auto simp: pool_inv_def)
qed

lemma inv_pick:
  assumes "pool_inv p" and fl: "mget (cpFlights p) t = Some (a, Picking)"
  shows "pool_inv (get_pick t a now p)"
proof (cases "bkIdle (the_bucket p a)")
  case Nil
  have "addr_inv (set_flight t a Dialing p) x" for x
    using pool_invD(1) [OF assms(1), of x] flight_move [OF pool_invD(2) [OF assms(1)] fl, of Dialing x] Nil
      flight_end [OF pool_invD(2) [OF assms(1)] fl, of x] connecting_permitted [of "end_flight t p" x]
    by (auto simp: addr_inv_def idle_of_def split: if_splits)
  with assms(1) Nil show ?thesis by (auto simp: pool_inv_def get_pick_def)
next
  case (Cons ci rest)
  obtain c since where ci: "ci = (c, since)" by (cases ci)
  let ?p1 = "set_bucket a ((the_bucket p a)\<lparr>bkIdle := rest\<rparr>) p"
  have wf: "wf_map (cpFlights ?p1)" and fl': "mget (cpFlights ?p1) t = Some (a, Picking)"
    using pool_invD(2) [OF assms(1)] fl by simp_all
  have "addr_inv (get_pick t a now p) x" for x
    using pool_invD(1) [OF assms(1), of x] flight_move [OF wf fl', of "Holding c" x] Cons
    by (auto simp: addr_inv_def get_pick_def ci idle_of_def Let_def split: if_splits)
  with assms(1) Cons show ?thesis
    by (auto simp: pool_inv_def get_pick_def ci Let_def)
qed

lemma inv_dialled:
  assumes "pool_inv p" and fl: "mget (cpFlights p) t = Some (a, Dialing)"
  shows "pool_inv (dial_ok t a c p)"
proof -
  have wf: "wf_map (cpFlights (p\<lparr>cpOpen := c # cpOpen p\<rparr>))"
    and fl': "mget (cpFlights (p\<lparr>cpOpen := c # cpOpen p\<rparr>)) t = Some (a, Dialing)"
    using pool_invD(2) [OF assms(1)] fl by simp_all
  have "addr_inv (dial_ok t a c p) x" for x
    using pool_invD(1) [OF assms(1), of x] flight_move [OF wf fl', of "Holding c" x]
    by (auto simp: addr_inv_def dial_ok_def split: if_splits)
  with assms(1) show ?thesis by (auto simp: pool_inv_def dial_ok_def)
qed

text \<open>Ending a flight that owns a permit gives the permit back.\<close>

lemma inv_end_permit:
  assumes "pool_inv p" and fl: "mget (cpFlights p) t = Some (a, ph)" and "ph \<noteq> Waiting"
  shows "pool_inv (end_flight t (drop_permit a p))"
proof -
  have wf: "wf_map (cpFlights (drop_permit a p))" and fl': "mget (cpFlights (drop_permit a p)) t = Some (a, ph)"
    using pool_invD(2) [OF assms(1)] fl by simp_all
  have "addr_inv (end_flight t (drop_permit a p)) x" for x
    using pool_invD(1) [OF assms(1), of x] flight_end [OF wf fl', of x] \<open>ph \<noteq> Waiting\<close>
    by (auto simp: addr_inv_def split: if_splits)
  with assms(1) show ?thesis by (auto simp: pool_inv_def)
qed

lemma inv_close_conn: "pool_inv p \<Longrightarrow> pool_inv (close_conn c p)"
proof -
  have "addr_inv (close_conn c p) = addr_inv p" by (simp add: fun_eq_iff addr_inv_def)
  then show "pool_inv p \<Longrightarrow> pool_inv (close_conn c p)" by (simp add: pool_inv_def)
qed

lemma inv_finish:
  assumes "pool_inv p" and fl: "mget (cpFlights p) t = Some (a, Holding c)"
    and "c \<notin> fst ` set (cpBorrowed p)"
  shows "pool_inv (get_finish t a c p)"
proof (cases "cpClosed p")
  case True
  have "pool_inv (close_conn c p)" using assms(1) by (rule inv_close_conn)
  moreover have "mget (cpFlights (close_conn c p)) t = Some (a, Holding c)" using fl by simp
  ultimately show ?thesis using True by (simp add: get_finish_def inv_end_permit)
next
  case False
  let ?p1 = "p\<lparr>cpBorrowed := mput c a (cpBorrowed p)\<rparr>"
  have wf: "wf_map (cpFlights ?p1)" and fl': "mget (cpFlights ?p1) t = Some (a, Holding c)"
    using pool_invD(2) [OF assms(1)] fl by simp_all
  have "addr_inv (end_flight t ?p1) x" for x
    using pool_invD(1) [OF assms(1), of x] flight_end [OF wf fl', of x]
      borrow_start [OF assms(3), of a x]
    by (auto simp: addr_inv_def split: if_splits)
  with assms(1) False show ?thesis by (auto simp: pool_inv_def get_finish_def)
qed

text \<open>A returned connection frees its permit, and the idle channel has room for it.\<close>

lemma inv_give_back:
  assumes "pool_inv p" and b: "mget (cpBorrowed p) c = Some a"
  shows "pool_inv (release c reuse deadline_ok now p)"
    and "0 < bkPermits (the_bucket p a)"
    and "idle_of p a < cpMax p"
proof -
  let ?p1 = "drop_permit a (p\<lparr>cpBorrowed := mdel c (cpBorrowed p)\<rparr>)"
  note cnt = borrow_end [OF pool_invD(3) [OF assms(1)] b]
  have a: "addr_inv p a" using assms(1) by (rule pool_invD(1))
  show "0 < bkPermits (the_bucket p a)" "idle_of p a < cpMax p"
    using a cnt [of a] by (auto simp: addr_inv_def)
  have inv: "addr_inv ?p1 x" for x
    using pool_invD(1) [OF assms(1), of x] cnt [of x] by (auto simp: addr_inv_def split: if_splits)
  with assms(1) have inv1: "pool_inv ?p1" by (auto simp: pool_inv_def)
  have "addr_inv (set_bucket a ((the_bucket ?p1 a)\<lparr>bkIdle := bkIdle (the_bucket ?p1 a) @ [(c, now)]\<rparr>) ?p1) x"
    if "\<not> cpClosed p" for x
    using pool_invD(1) [OF assms(1), of x] cnt [of x] that
    by (auto simp: addr_inv_def idle_of_def split: if_splits)
  with inv1 show "pool_inv (release c reuse deadline_ok now p)"
    using b by (auto simp: release_def Let_def inv_close_conn) (auto simp: pool_inv_def)
qed

lemma the_bucket_Close:
  "the_bucket (Close p) a =
     (if cpClosed p then the_bucket p a else (the_bucket p a)\<lparr>bkIdle := []\<rparr>)"
proof -
  have "map_of (map (\<lambda>(a, b). (a, b\<lparr>bkIdle := []\<rparr>)) m) a = map_option (\<lambda>b. b\<lparr>bkIdle := []\<rparr>) (map_of m a)"
    for m :: "(string, bucket) gomap"
    by (induction m) auto
  then show ?thesis
    by (simp add: the_bucket_def Close_def empty_bucket_def split: option.splits)
qed

lemma inv_shut: "pool_inv p \<Longrightarrow> pool_inv (Close p)"
proof -
  assume inv: "pool_inv p"
  have keys: "map fst (cpBuckets (Close p)) = map fst (cpBuckets p)"
    by (auto simp: Close_def)
  have frames: "borrowed_of (Close p) = borrowed_of p" "permitted_of (Close p) = permitted_of p"
    "connecting_of (Close p) = connecting_of p" "cpMax (Close p) = cpMax p"
    "cpFlights (Close p) = cpFlights p" "cpBorrowed (Close p) = cpBorrowed p"
    by (simp_all add: Close_def borrowed_of_def permitted_of_def connecting_of_def fun_eq_iff)
  have "addr_inv (Close p) x" for x
    using pool_invD(1) [OF inv, of x]
    by (auto simp: addr_inv_def the_bucket_Close frames idle_of_def)
  moreover have "wf_map (cpBuckets (Close p))"
    using inv unfolding keys by (simp add: pool_inv_def)
  ultimately show ?thesis using inv by (simp add: pool_inv_def frames)
qed

section \<open>No connection is shared and none leaks\<close>

text \<open>Over the three relations that say where a connection is: in the idle channel of an address
  (\<open>I\<close>), with a borrower (\<open>L\<close>), in a flight (\<open>H\<close>).\<close>

definition apart :: "('a \<Rightarrow> 'c \<Rightarrow> bool) \<Rightarrow> ('c \<Rightarrow> bool) \<Rightarrow> ('t \<Rightarrow> 'c \<Rightarrow> bool) \<Rightarrow> bool" where
  "apart I L H \<longleftrightarrow>
     (\<forall>a a' c. I a c \<and> I a' c \<longrightarrow> a = a') \<and>
     (\<forall>a c. I a c \<longrightarrow> \<not> L c \<and> (\<forall>t. \<not> H t c)) \<and>
     (\<forall>t c. H t c \<longrightarrow> \<not> L c) \<and>
     (\<forall>t t' c. H t c \<and> H t' c \<longrightarrow> t = t')"

definition covered :: "'c set \<Rightarrow> ('a \<Rightarrow> 'c \<Rightarrow> bool) \<Rightarrow> ('c \<Rightarrow> bool) \<Rightarrow> ('t \<Rightarrow> 'c \<Rightarrow> bool) \<Rightarrow> bool" where
  "covered S I L H \<longleftrightarrow> (\<forall>c \<in> S. (\<exists>a. I a c) \<or> L c \<or> (\<exists>t. H t c))"

lemma apart_mono:
  "apart I L H \<Longrightarrow> (\<And>a c. I' a c \<Longrightarrow> I a c) \<Longrightarrow> (\<And>c. L' c \<Longrightarrow> L c) \<Longrightarrow> (\<And>t c. H' t c \<Longrightarrow> H t c) \<Longrightarrow>
   apart I' L' H'"
  unfolding apart_def by metis

lemma apart_hold:
  "apart I L H \<Longrightarrow> (\<And>a. \<not> I a c) \<Longrightarrow> \<not> L c \<Longrightarrow> (\<And>u. u \<noteq> t \<Longrightarrow> \<not> H u c) \<Longrightarrow>
   apart I L (\<lambda>u y. if u = t then y = c else H u y)"
  unfolding apart_def by (intro conjI; simp; metis)

lemma apart_lend:
  "apart I L H \<Longrightarrow> (\<And>a. \<not> I a c) \<Longrightarrow> (\<And>u. \<not> H u c) \<Longrightarrow> apart I (\<lambda>y. y = c \<or> L y) H"
  unfolding apart_def by metis

lemma apartI:
  assumes "\<And>a a' c. I a c \<Longrightarrow> I a' c \<Longrightarrow> a = a'" "\<And>a c. I a c \<Longrightarrow> \<not> L c" "\<And>a c t. I a c \<Longrightarrow> \<not> H t c"
    "\<And>t c. H t c \<Longrightarrow> \<not> L c" "\<And>t t' c. H t c \<Longrightarrow> H t' c \<Longrightarrow> t = t'"
  shows "apart I L H"
  using assms unfolding apart_def by blast

lemma apartD:
  assumes "apart I L H"
  shows "I a c \<Longrightarrow> I a' c \<Longrightarrow> a = a'" "I a c \<Longrightarrow> \<not> L c" "I a c \<Longrightarrow> \<not> H t c"
    "H t c \<Longrightarrow> \<not> L c" "H t c \<Longrightarrow> H t' c \<Longrightarrow> t = t'"
  using assms unfolding apart_def by blast+

lemma apart_idle:
  assumes ap: "apart I L H" and new: "\<And>x. \<not> I x c" "\<not> L c" "\<And>u. \<not> H u c"
  shows "apart (\<lambda>x y. I x y \<or> x = a \<and> y = c) L H"
proof (rule apartI)
  fix x x' y assume "I x y \<or> x = a \<and> y = c" "I x' y \<or> x' = a \<and> y = c"
  then show "x = x'" using new(1) apartD(1) [OF ap] by metis
next
  fix x y assume "I x y \<or> x = a \<and> y = c"
  then show "\<not> L y" using new(2) apartD(2) [OF ap, of x y] by blast
next
  fix x y t assume "I x y \<or> x = a \<and> y = c"
  then show "\<not> H t y" using new(3) [of t] apartD(3) [OF ap, of x y t] by blast
next
  fix t y assume "H t y"
  then show "\<not> L y" by (rule apartD(4) [OF ap])
next
  fix t t' y assume "H t y" "H t' y"
  then show "t = t'" by (rule apartD(5) [OF ap])
qed

lemma covered_taken:
  assumes "covered S I L H" and none: "\<And>y. \<not> H t y"
  shows "covered S (\<lambda>x y. I x y \<and> y \<noteq> c) L (\<lambda>u y. (u = t \<longrightarrow> c = y) \<and> (u \<noteq> t \<longrightarrow> H u y))"
  unfolding covered_def
proof
  fix y assume "y \<in> S"
  then consider x where "I x y" | "L y" | u where "H u y"
    using assms(1) unfolding covered_def by blast
  then show "(\<exists>x. I x y \<and> y \<noteq> c) \<or> L y \<or> (\<exists>u. (u = t \<longrightarrow> c = y) \<and> (u \<noteq> t \<longrightarrow> H u y))"
    using none by cases (metis | blast)+
qed

lemma covered_stale:
  "covered S I L H \<Longrightarrow> covered (S - {c}) (\<lambda>x y. I x y \<and> y \<noteq> c) L H"
  unfolding covered_def by (auto; (drule (1) bspec; blast))

lemma covered_unheld:
  assumes cov: "covered S I L H" and t: "\<And>y. H t y \<longleftrightarrow> c = y"
  shows "covered (S - {c}) I L (\<lambda>u y. u \<noteq> t \<and> H u y)"
  unfolding covered_def
proof
  fix y assume y: "y \<in> S - {c}"
  then consider x where "I x y" | "L y" | u where "H u y"
    using cov unfolding covered_def by blast
  then show "(\<exists>x. I x y) \<or> L y \<or> (\<exists>u. u \<noteq> t \<and> H u y)"
  proof cases
    case (3 u)
    then have "u \<noteq> t" using y t [of y] by auto
    with 3 show ?thesis by blast
  qed blast+
qed

lemma covered_unlent:
  "covered S I L H \<Longrightarrow> covered (S - {c}) I (\<lambda>y. y \<noteq> c \<and> L y) H"
  unfolding covered_def by blast

definition idle_ok :: "conn_pool \<Rightarrow> bool" where
  "idle_ok p \<longleftrightarrow> (\<forall>a. distinct (map fst (bkIdle (the_bucket p a))))"

definition exclusive :: "conn_pool \<Rightarrow> bool" where
  "exclusive p \<longleftrightarrow> idle_ok p \<and> apart (idle_at p) (lent p) (held p)"

definition no_leak :: "conn_pool \<Rightarrow> bool" where
  "no_leak p \<longleftrightarrow>
     covered (set (cpOpen p)) (idle_at p) (lent p) (held p) \<and>
     (cpClosed p \<longrightarrow> (\<forall>c \<in> set (cpOpen p). \<not> lent p c))"

definition conn_inv :: "conn_pool \<Rightarrow> bool" where
  "conn_inv p \<longleftrightarrow> pool_inv p \<and> exclusive p \<and> no_leak p"

lemma idle_at_frames [simp]:
  "idle_at (set_flight t a ph p) = idle_at p" "idle_at (end_flight t p) = idle_at p"
  "idle_at (close_conn c p) = idle_at p" "idle_at (p\<lparr>cpBorrowed := bs\<rparr>) = idle_at p"
  "idle_at (p\<lparr>cpOpen := os\<rparr>) = idle_at p" "idle_at (drop_permit a p) = idle_at p"
  "idle_at (take_permit a p) = idle_at p"
  "idle_at (set_bucket a b p) = (\<lambda>x c. if x = a then c \<in> fst ` set (bkIdle b) else idle_at p x c)"
  by (auto simp: idle_at_def fun_eq_iff take_permit_def)

lemma idle_ok_frames [simp]:
  "idle_ok (set_flight t a ph p) = idle_ok p" "idle_ok (end_flight t p) = idle_ok p"
  "idle_ok (close_conn c p) = idle_ok p" "idle_ok (p\<lparr>cpBorrowed := bs\<rparr>) = idle_ok p"
  "idle_ok (p\<lparr>cpOpen := os\<rparr>) = idle_ok p" "idle_ok (drop_permit a p) = idle_ok p"
  "idle_ok (take_permit a p) = idle_ok p"
  by (auto simp: idle_ok_def take_permit_def)

lemma idle_ok_set_bucket:
  "idle_ok p \<Longrightarrow> distinct (map fst (bkIdle b)) \<Longrightarrow> idle_ok (set_bucket a b p)"
  by (simp add: idle_ok_def)

lemma lent_frames [simp]:
  "lent (set_flight t a ph p) = lent p" "lent (end_flight t p) = lent p"
  "lent (close_conn c p) = lent p" "lent (p\<lparr>cpOpen := os\<rparr>) = lent p"
  "lent (drop_permit a p) = lent p" "lent (take_permit a p) = lent p"
  "lent (set_bucket a b p) = lent p"
  "lent (p\<lparr>cpBorrowed := mput c a (cpBorrowed p)\<rparr>) = (\<lambda>x. x = c \<or> lent p x)"
  "lent (p\<lparr>cpBorrowed := mdel c (cpBorrowed p)\<rparr>) = (\<lambda>x. x \<noteq> c \<and> lent p x)"
  by (auto simp: lent_def fun_eq_iff gomap_simps take_permit_def)

lemma held_frames [simp]:
  "held (close_conn c p) = held p" "held (p\<lparr>cpBorrowed := bs\<rparr>) = held p"
  "held (p\<lparr>cpOpen := os\<rparr>) = held p" "held (drop_permit a p) = held p"
  "held (take_permit a p) = held p" "held (set_bucket a b p) = held p"
  "held (set_flight t a ph p) = (\<lambda>u c. if u = t then ph = Holding c else held p u c)"
  "held (end_flight t p) = (\<lambda>u c. u \<noteq> t \<and> held p u c)"
  by (auto simp: held_def fun_eq_iff gomap_simps take_permit_def split: option.splits)

lemma open_frames [simp]:
  "cpOpen (set_flight t a ph p) = cpOpen p" "cpOpen (end_flight t p) = cpOpen p"
  "cpOpen (drop_permit a p) = cpOpen p" "cpOpen (take_permit a p) = cpOpen p"
  "cpClosed (take_permit a p) = cpClosed p" "cpOpen (close_conn c p) = removeAll c (cpOpen p)"
  by (simp_all add: pool_defs)

lemma held_phase:
  "mget (cpFlights p) t = Some (a, ph) \<Longrightarrow> held p t c = (ph = Holding c)"
  by (simp add: held_def)

text \<open>Two pools that agree on where the connections are agree on both properties.\<close>

lemma conn_props_cong:
  assumes "idle_at q = idle_at p" "lent q = lent p" "held q = held p" "idle_ok q = idle_ok p"
    "set (cpOpen q) = set (cpOpen p)" "cpClosed q = cpClosed p"
  shows "exclusive q = exclusive p" "no_leak q = no_leak p"
  using assms by (simp_all add: exclusive_def no_leak_def)

text \<open>A flight without a connection moves to another phase without one, starts, or ends.\<close>

lemma flight_without_conn:
  assumes "\<And>c. \<not> held p t c" and "\<And>c. ph \<noteq> Holding c"
  shows "exclusive (set_flight t a ph p) = exclusive p" "no_leak (set_flight t a ph p) = no_leak p"
    and "exclusive (end_flight t p) = exclusive p" "no_leak (end_flight t p) = no_leak p"
proof -
  have "held (set_flight t a ph p) = held p" "held (end_flight t p) = held p"
    using assms by (auto simp: fun_eq_iff)
  then show "exclusive (set_flight t a ph p) = exclusive p" "no_leak (set_flight t a ph p) = no_leak p"
    "exclusive (end_flight t p) = exclusive p" "no_leak (end_flight t p) = no_leak p"
    by (simp_all add: exclusive_def no_leak_def)
qed

lemma excl_enter:
  assumes "exclusive p" and "no_leak p" and fresh: "t \<notin> set (mkeys (cpFlights p))"
    and "get_enter t a p = Some q"
  shows "exclusive q \<and> no_leak q"
proof -
  let ?p1 = "case mget (cpBuckets p) a of None \<Rightarrow> set_bucket a empty_bucket p | Some b \<Rightarrow> p"
  have b: "the_bucket ?p1 = the_bucket p"
    by (auto simp: fun_eq_iff the_bucket_def gomap_simps set_bucket_def update_conv'
        split: option.splits)
  have f: "held ?p1 = held p" "lent ?p1 = lent p" "cpOpen ?p1 = cpOpen p" "cpClosed ?p1 = cpClosed p"
    by (simp_all split: option.splits)
  have i: "idle_at ?p1 = idle_at p" "idle_ok ?p1 = idle_ok p"
    using b by (simp_all add: idle_at_def idle_ok_def fun_eq_iff)
  have "exclusive ?p1 = exclusive p" "no_leak ?p1 = no_leak p"
    using conn_props_cong [of ?p1 p] f i by simp_all
  moreover have "\<not> held ?p1 t c" for c
    unfolding f using fresh by (auto simp: held_def mget_None split: option.splits dest: mget_SomeD)
  moreover have "q = set_flight t a Waiting ?p1"
    using assms(4) by (simp add: get_enter_def Let_def split: if_splits)
  ultimately show ?thesis using assms(1,2) flight_without_conn(1,2) [of ?p1 t Waiting a] by simp
qed

lemma excl_permit:
  assumes "exclusive p" and "no_leak p" and fl: "mget (cpFlights p) t = Some (a, Waiting)"
    and "get_permit t a p = Some q"
  shows "exclusive q \<and> no_leak q"
proof -
  have "exclusive (take_permit a p) = exclusive p" "no_leak (take_permit a p) = no_leak p"
    using conn_props_cong [of "take_permit a p" p] by simp_all
  moreover have "\<not> held (take_permit a p) t c" for c using fl by (simp add: held_phase)
  moreover have "q = set_flight t a Picking (take_permit a p)"
    using assms(4) by (auto simp: get_permit_def split: if_splits)
  ultimately show ?thesis
    using assms(1,2) flight_without_conn(1,2) [of "take_permit a p" t Picking a] by simp
qed


lemma excl_pick:
  assumes ex: "exclusive p" and nl: "no_leak p" and fl: "mget (cpFlights p) t = Some (a, Picking)"
  shows "exclusive (get_pick t a now p) \<and> no_leak (get_pick t a now p)"
proof (cases "bkIdle (the_bucket p a)")
  case Nil
  then show ?thesis
    using ex nl held_phase [OF fl] flight_without_conn(1,2) [of p t Dialing a]
    by (simp add: get_pick_def)
next
  case (Cons ci rest)
  obtain c since where ci: "ci = (c, since)" by (cases ci)
  let ?p1 = "set_bucket a ((the_bucket p a)\<lparr>bkIdle := rest\<rparr>) p"
  have ap: "apart (idle_at p) (lent p) (held p)" and iok: "idle_ok p"
    using ex by (simp_all add: exclusive_def)
  have c: "idle_at p a c" using Cons ci by (simp add: idle_at_def)
  have d: "c \<notin> fst ` set rest \<and> distinct (map fst rest)"
    using iok [unfolded idle_ok_def, THEN spec, of a] Cons ci by simp
  have a_only: "idle_at p x c \<Longrightarrow> x = a" for x
    using ap c unfolding apart_def by blast
  have at: "idle_at ?p1 = (\<lambda>x y. idle_at p x y \<and> y \<noteq> c)"
    using d a_only by (auto simp: fun_eq_iff idle_at_def Cons ci)
  have free: "\<not> lent p c" "\<And>u. \<not> held p u c" using ap c unfolding apart_def by blast+
  have ap1: "apart (idle_at ?p1) (lent ?p1) (held ?p1)"
    by (rule apart_mono [OF ap]) (simp_all add: at del: idle_at_frames(8))
  have ok1: "idle_ok ?p1" using iok d by (intro idle_ok_set_bucket) simp_all
  show ?thesis
  proof (cases "now - since < max_idle_time")
    case True
    have "apart (idle_at ?p1) (lent ?p1) (\<lambda>u y. if u = t then y = c else held ?p1 u y)"
      using ap1 by (rule apart_hold) (simp_all add: at free del: idle_at_frames(8))
    moreover have "held (set_flight t a (Holding c) ?p1) = (\<lambda>u y. if u = t then y = c else held ?p1 u y)"
      by (auto simp: fun_eq_iff)
    ultimately have "exclusive (set_flight t a (Holding c) ?p1)"
      using ok1 by (simp only: exclusive_def idle_at_frames(1) lent_frames(1) idle_ok_frames simp_thms)
    moreover have "no_leak (set_flight t a (Holding c) ?p1)"
      using nl held_phase [OF fl] unfolding no_leak_def
      by (simp add: at covered_taken del: idle_at_frames(8))
    ultimately show ?thesis using True Cons ci by (simp add: get_pick_def)
  next
    case False
    have "exclusive (close_conn c ?p1)"
      using ap1 ok1 by (simp only: exclusive_def idle_at_frames(3) lent_frames(3) held_frames(1) idle_ok_frames simp_thms)
    moreover have "no_leak (close_conn c ?p1)"
      using nl unfolding no_leak_def by (simp add: at covered_stale del: idle_at_frames(8))
    ultimately show ?thesis using False Cons ci by (simp add: get_pick_def)
  qed
qed

lemma excl_dialled:
  assumes ex: "exclusive p" and nl: "no_leak p" and fl: "mget (cpFlights p) t = Some (a, Dialing)"
    and new: "\<not> lent p c" "\<And>a'. \<not> idle_at p a' c" "\<And>t'. \<not> held p t' c"
  shows "exclusive (dial_ok t a c p) \<and> no_leak (dial_ok t a c p)"
proof
  have "apart (idle_at p) (lent p) (\<lambda>u y. if u = t then y = c else held p u y)"
    using ex new unfolding exclusive_def by (intro apart_hold) simp_all
  moreover have h: "held (dial_ok t a c p) = (\<lambda>u y. if u = t then y = c else held p u y)"
    by (auto simp: dial_ok_def fun_eq_iff)
  ultimately show "exclusive (dial_ok t a c p)"
    using ex unfolding exclusive_def h by (simp add: dial_ok_def)
  show "no_leak (dial_ok t a c p)"
    using nl new held_phase [OF fl] unfolding no_leak_def covered_def h
    by (simp add: dial_ok_def) metis
qed

lemma excl_end:
  "exclusive p \<Longrightarrow> exclusive (end_flight t p)"
  by (auto simp: exclusive_def elim: apart_mono)

lemma excl_finish:
  assumes ex: "exclusive p" and nl: "no_leak p" and fl: "mget (cpFlights p) t = Some (a, Holding c)"
  shows "exclusive (get_finish t a c p) \<and> no_leak (get_finish t a c p)"
proof (cases "cpClosed p")
  case True
  let ?q = "end_flight t (drop_permit a (close_conn c p))"
  have "exclusive (drop_permit a (close_conn c p))" using ex by (simp add: exclusive_def)
  then have "exclusive ?q" by (rule excl_end)
  moreover have "no_leak ?q"
    using nl held_phase [OF fl] unfolding no_leak_def by (simp add: covered_unheld)
  ultimately show ?thesis using True by (simp add: get_finish_def)
next
  case False
  let ?p1 = "end_flight t p"
  let ?q = "end_flight t (p\<lparr>cpBorrowed := mput c a (cpBorrowed p)\<rparr>)"
  have ap: "apart (idle_at p) (lent p) (held p)" using ex by (simp add: exclusive_def)
  have c: "held p t c" using held_phase [OF fl] by simp
  have free: "\<And>x. \<not> idle_at p x c" "\<And>u. held p u c \<Longrightarrow> u = t"
    using ap c unfolding apart_def by blast+
  have "apart (idle_at ?p1) (lent ?p1) (held ?p1)" using excl_end [OF ex] by (simp add: exclusive_def)
  then have "apart (idle_at ?p1) (\<lambda>y. y = c \<or> lent ?p1 y) (held ?p1)"
    by (rule apart_lend) (use free in auto)
  then have "exclusive ?q" using ex by (simp add: exclusive_def)
  moreover have "no_leak ?q"
    using nl held_phase [OF fl] False unfolding no_leak_def covered_def by simp metis
  ultimately show ?thesis using False by (simp add: get_finish_def)
qed


lemma excl_give_back:
  assumes ex: "exclusive p" and nl: "no_leak p" and b: "mget (cpBorrowed p) c = Some a"
  shows "exclusive (release c reuse ok now p) \<and> no_leak (release c reuse ok now p)"
proof -
  let ?p1 = "drop_permit a (p\<lparr>cpBorrowed := mdel c (cpBorrowed p)\<rparr>)"
  let ?b = "(the_bucket ?p1 a)\<lparr>bkIdle := bkIdle (the_bucket ?p1 a) @ [(c, now)]\<rparr>"
  have lent: "lent p c" using b by (force simp: lent_def dest: mget_SomeD)
  have ap: "apart (idle_at p) (lent p) (held p)" and iok: "idle_ok p"
    using ex by (simp_all add: exclusive_def)
  have free: "\<And>x. \<not> idle_at p x c" "\<And>u. \<not> held p u c"
    using ap lent unfolding apart_def by blast+
  have ap1: "apart (idle_at ?p1) (lent ?p1) (held ?p1)"
    by (rule apart_mono [OF ap]) simp_all
  then have "exclusive (close_conn c ?p1)" using iok by (simp add: exclusive_def)
  moreover have "no_leak (close_conn c ?p1)"
    using nl unfolding no_leak_def by (simp add: covered_unlent)
  moreover have "exclusive (set_bucket a ?b ?p1) \<and> no_leak (set_bucket a ?b ?p1)" if "\<not> cpClosed p"
  proof -
    have at: "idle_at (set_bucket a ?b ?p1) = (\<lambda>x y. idle_at ?p1 x y \<or> x = a \<and> y = c)"
      by (auto simp: fun_eq_iff idle_at_def)
    have "apart (\<lambda>x y. idle_at ?p1 x y \<or> x = a \<and> y = c) (lent ?p1) (held ?p1)"
      using ap1 by (rule apart_idle) (use free in simp_all)
    moreover have "idle_ok (set_bucket a ?b ?p1)"
      using iok free(1) [of a] by (intro idle_ok_set_bucket) (auto simp: idle_ok_def idle_at_def)
    ultimately have "exclusive (set_bucket a ?b ?p1)"
      unfolding exclusive_def at by simp
    moreover have "no_leak (set_bucket a ?b ?p1)"
      using nl that unfolding no_leak_def covered_def at by simp blast
    ultimately show ?thesis by simp
  qed
  ultimately show ?thesis using b by (auto simp: release_def Let_def)
qed

lemma idle_in_bucket:
  assumes "idle_at p a c"
  shows "\<exists>b. (a, b) \<in> set (cpBuckets p) \<and> c \<in> fst ` set (bkIdle b)"
proof (cases "mget (cpBuckets p) a")
  case None
  with assms show ?thesis by (simp add: idle_at_def the_bucket_def empty_bucket_def)
next
  case (Some b)
  with assms have "c \<in> fst ` set (bkIdle b)" by (simp add: idle_at_def the_bucket_def)
  with Some show ?thesis by (blast dest: map_of_SomeD)
qed

lemma excl_shut:
  assumes ex: "exclusive p" and nl: "no_leak p"
  shows "exclusive (Close p) \<and> no_leak (Close p)"
proof (cases "cpClosed p")
  case True
  with assms show ?thesis by (simp add: Close_def)
next
  case False
  have at: "idle_at (Close p) = (\<lambda>a c. False)" and ok: "idle_ok (Close p)"
    using False by (simp_all add: idle_at_def idle_ok_def the_bucket_Close fun_eq_iff)
  have f: "lent (Close p) = lent p" "held (Close p) = held p"
    by (simp_all add: lent_def held_def Close_def fun_eq_iff)
  have idle: "c \<in> set (pool_idle_conns p)" if "idle_at p a c" for a c
  proof -
    obtain b where b: "(a, b) \<in> set (cpBuckets p)" "c \<in> fst ` set (bkIdle b)"
      using idle_in_bucket [OF \<open>idle_at p a c\<close>] by blast
    then have "c \<in> set ((\<lambda>(a, b). map fst (bkIdle b)) (a, b))" by simp
    with b(1) show ?thesis unfolding pool_idle_conns_def set_concat set_map by blast
  qed
  have "apart (idle_at (Close p)) (lent (Close p)) (held (Close p))"
    using ex unfolding exclusive_def f at by (auto elim: apart_mono)
  then have "exclusive (Close p)" using ok by (simp add: exclusive_def)
  moreover have "set (cpOpen (Close p)) \<subseteq> {c \<in> set (cpOpen p). \<not> lent p c \<and> (\<forall>a. \<not> idle_at p a c)}"
    using False idle by (auto simp: Close_def lent_def)
  then have "no_leak (Close p)"
    using nl unfolding no_leak_def covered_def f at by blast
  ultimately show ?thesis by simp
qed

lemma conn_inv_step: "pool_step p q \<Longrightarrow> conn_inv p \<Longrightarrow> conn_inv q"
proof (induction rule: pool_step.induct)
  case (finish p t a c)
  have "held p t c" using held_phase [OF finish.hyps] by simp
  with finish have "\<not> lent p c" by (auto simp: conn_inv_def exclusive_def dest: apartD(4))
  then have "c \<notin> fst ` set (cpBorrowed p)" by (simp only: lent_def not_False_eq_True)
  with finish show ?case by (simp add: conn_inv_def inv_finish excl_finish)
next
  case (enter t p a q)
  then show ?case using excl_enter [of p t a q] inv_enter [of p t a q] by (simp add: conn_inv_def)
next
  case (permit p t a q)
  then show ?case using excl_permit [of p t a q] inv_permit [of p t a q] by (simp add: conn_inv_def)
next
  case (give_up p t a)
  then show ?case
    using inv_give_up [of p t a] flight_without_conn(3,4) [of p t Waiting] held_phase [OF give_up.hyps]
    by (simp add: conn_inv_def)
next
  case (dial_fail p t a)
  have "exclusive (drop_permit a p) = exclusive p" "no_leak (drop_permit a p) = no_leak p"
    using conn_props_cong [of "drop_permit a p" p] by simp_all
  moreover have "\<not> held (drop_permit a p) t c" for c using held_phase [OF dial_fail.hyps] by simp
  ultimately show ?case
    using inv_end_permit [of p t a Dialing] flight_without_conn(3,4) [of "drop_permit a p" t Dialing] dial_fail
    by (simp add: conn_inv_def dial_failed_def)
qed (simp_all add: conn_inv_def inv_pick excl_pick inv_dialled excl_dialled inv_give_back excl_give_back
      inv_shut excl_shut)

section \<open>Properties\<close>

lemma conn_inv_init: "pool_init p \<Longrightarrow> conn_inv p"
  by (auto simp: pool_init_def NewConnPool_def conn_inv_def pool_inv_def addr_inv_def exclusive_def
      idle_ok_def apart_def no_leak_def covered_def idle_at_def lent_def held_def the_bucket_def
      empty_bucket_def borrowed_of_def permitted_of_def connecting_of_def idle_of_def mcount_def Let_def)

interpretation pool: invariant_system pool_init pool_step conn_inv
  by unfold_locales (auto intro: conn_inv_init conn_inv_step)

text \<open>A run for the witnesses: one address, a first connection dialled and borrowed.\<close>

definition sample_borrowed :: conn_pool where
  "sample_borrowed =
     get_finish 0 ''a'' 7 (dial_ok 0 ''a'' 7 (get_pick 0 ''a'' 5
       (the (get_permit 0 ''a'' (the (get_enter 0 ''a'' (NewConnPool 1)))))))"

lemmas sample_eval = NewConnPool_def get_enter_def get_permit_def get_pick_def dial_ok_def
  get_finish_def pool_defs the_bucket_def empty_bucket_def Let_def

lemma sample_reachable: "reachable pool_init pool_step sample_borrowed"
proof -
  let ?p0 = "NewConnPool 1"
  let ?p1 = "the (get_enter 0 ''a'' ?p0)"
  let ?p2 = "the (get_permit 0 ''a'' ?p1)"
  let ?p3 = "get_pick 0 ''a'' 5 ?p2"
  let ?p4 = "dial_ok 0 ''a'' 7 ?p3"
  have 0: "reachable pool_init pool_step ?p0" by (rule reach_init) (auto simp: pool_init_def)
  have 1: "reachable pool_init pool_step ?p1"
    using 0 by (rule reach_step) (rule pool_step.enter [of 0 _ "''a''"]; simp add: sample_eval)
  have 2: "reachable pool_init pool_step ?p2"
    using 1 by (rule reach_step) (rule pool_step.permit [of _ 0 "''a''"]; simp add: sample_eval)
  have 3: "reachable pool_init pool_step ?p3"
    using 2 by (rule reach_step) (rule pool_step.pick; simp add: sample_eval)
  have 4: "reachable pool_init pool_step ?p4"
    using 3 by (rule reach_step)
      (rule pool_step.dialled; simp add: sample_eval lent_def idle_at_def held_def)
  show ?thesis unfolding sample_borrowed_def
    using 4 by (rule reach_step) (rule pool_step.finish; simp add: sample_eval)
qed

text \<open>In every reachable state of the connection pool, for every address, the idle
  connections, the borrowed ones and the flights that dial or hold one are together at most the
  pool's maximum, and the permits taken are exactly the borrowed connections and the flights that
  passed the permit channel.\<close>

theorem pool_bounded:
  assumes "reachable pool_init pool_step p"
  shows "idle_of p a + borrowed_of p a + connecting_of p a \<le> cpMax p \<and>
    bkPermits (the_bucket p a) = borrowed_of p a + permitted_of p a \<and>
    bkPermits (the_bucket p a) \<le> cpMax p"
  using pool.reach_inv [OF assms] pool_invD(1) [of p a] by (simp_all add: conn_inv_def addr_inv_def)

theorem pool_bounded_witness:
  "idle_of sample_borrowed ''a'' + borrowed_of sample_borrowed ''a'' +
     connecting_of sample_borrowed ''a'' \<le> cpMax sample_borrowed \<and>
   borrowed_of sample_borrowed ''a'' = 1"
  using pool_bounded [OF sample_reachable, of "''a''"]
  by (simp add: sample_borrowed_def sample_eval borrowed_of_def mcount_def)

text \<open>Releasing a borrowed connection never blocks: its address has a permit to give back, the
  idle channel has room, and a connection that may be reused is parked at the end of it.\<close>

theorem release_never_blocks:
  assumes "reachable pool_init pool_step p" and "mget (cpBorrowed p) c = Some a"
  shows "0 < bkPermits (the_bucket p a) \<and>
    bkIdle (the_bucket (PutConn c ok now p) a) =
      (if ok \<and> \<not> cpClosed p then bkIdle (the_bucket p a) @ [(c, now)] else bkIdle (the_bucket p a))"
  using pool.reach_inv [OF assms(1)] inv_give_back(2,3) [OF _ assms(2)] assms(2)
  by (simp add: conn_inv_def PutConn_def release_def Let_def idle_of_def)

theorem release_never_blocks_witness:
  "bkIdle (the_bucket (PutConn 7 True 9 sample_borrowed) ''a'') = [(7, 9)]"
  using release_never_blocks [OF sample_reachable, of 7 "''a''" True 9]
  by (simp add: sample_borrowed_def sample_eval)

text \<open>C33: in every reachable state no connection is shared: it is in at most one idle channel and
  there once, or with one borrower, or in one flight, and never in two of these places.\<close>

theorem connections_exclusive:
  assumes "reachable pool_init pool_step p"
  shows "exclusive p"
  using pool.reach_inv [OF assms] by (simp add: conn_inv_def)

theorem connections_exclusive_witness: "exclusive sample_borrowed \<and> lent sample_borrowed 7"
  using connections_exclusive [OF sample_reachable]
  by (simp add: sample_borrowed_def sample_eval lent_def)

text \<open>C34: no connection leaks: once the pool is closed and every pending \<^verbatim>\<open>GetConn\<close> has ended, no
  socket the pool ever dialled is open.\<close>

theorem closed_pool_drains:
  assumes "reachable pool_init pool_step p" and "cpClosed p" and "cpFlights p = []"
  shows "cpOpen p = []"
proof -
  have inv: "conn_inv p" using assms(1) by (rule pool.reach_inv)
  have "addr_inv p a" for a using inv pool_invD(1) by (simp add: conn_inv_def)
  then have "\<not> idle_at p a c" for a c using assms(2) by (simp add: addr_inv_def idle_at_def)
  moreover have "\<not> held p t c" for t c using assms(3) by (simp add: held_def)
  ultimately have "c \<notin> set (cpOpen p)" for c
    using inv assms(2) by (auto simp: conn_inv_def no_leak_def covered_def)
  then show ?thesis by (cases "cpOpen p") auto
qed

theorem closed_pool_drains_witness:
  "cpOpen sample_borrowed = [7] \<and> cpOpen (Close sample_borrowed) = []"
proof
  show "cpOpen sample_borrowed = [7]" by (simp add: sample_borrowed_def sample_eval)
  have "reachable pool_init pool_step (Close sample_borrowed)"
    using sample_reachable by (rule reach_step) (rule pool_step.shut)
  then show "cpOpen (Close sample_borrowed) = []"
    by (rule closed_pool_drains) (simp_all add: sample_borrowed_def sample_eval Close_def)
qed

end
