(* ===== verification/MemPool.thy ===== *)
theory MemPool
  imports GoPrelude
begin

text \<open>
  The lazy buffer cache (\<^verbatim>\<open>pkg/mempool\<close>). A buffer is a pointer to a byte slice: its identity,
  its length and its capacity. \<open>Get\<close> hands out a cached buffer of the pool's own size or
  allocates one, \<open>Put\<close> keeps at most \<open>16\<close> buffers and drops the rest, and neither blocks.
\<close>

record buffer =
  bufId :: nat
  bufLen :: nat
  bufCap :: nat

record mem_pool =
  mpSize :: int
  mpCh :: "buffer list"

definition cache_limit :: nat where
  "cache_limit = 16"

definition NewMemPool :: "int \<Rightarrow> mem_pool" where
  "NewMemPool sz = \<lparr>mpSize = sz, mpCh = []\<rparr>"

text \<open>\<open>fresh\<close> is the identity the allocator gives to a new slice.\<close>

definition Get :: "nat \<Rightarrow> mem_pool \<Rightarrow> int \<Rightarrow> buffer \<times> mem_pool" where
  "Get fresh m sz0 =
     (let sz = (if sz0 < 0 then 0 else sz0);
          new = \<lparr>bufId = fresh, bufLen = nat sz, bufCap = nat sz\<rparr>
      in if sz = mpSize m
         then (case mpCh m of
                 [] \<Rightarrow> (new, m)
               | p # ps \<Rightarrow> (p\<lparr>bufLen := nat sz\<rparr>, m\<lparr>mpCh := ps\<rparr>))
         else (new, m))"

definition Put :: "mem_pool \<Rightarrow> buffer option \<Rightarrow> mem_pool" where
  "Put m p =
     (case p of
        None \<Rightarrow> m
      | Some b \<Rightarrow>
          if int (bufCap b) \<noteq> mpSize m then m
          else if length (mpCh m) < cache_limit
          then m\<lparr>mpCh := mpCh m @ [b\<lparr>bufLen := nat (mpSize m)\<rparr>]\<rparr>
          else m)"

section \<open>The pool's invariant\<close>

definition pool_ok :: "mem_pool \<Rightarrow> bool" where
  "pool_ok m \<longleftrightarrow>
     length (mpCh m) \<le> cache_limit \<and> distinct (map bufId (mpCh m)) \<and>
     (\<forall>b \<in> set (mpCh m). int (bufCap b) = mpSize m \<and> int (bufLen b) = mpSize m)"

lemma pool_ok_new: "pool_ok (NewMemPool sz)"
  by (simp add: pool_ok_def NewMemPool_def)

lemma pool_ok_get: "pool_ok m \<Longrightarrow> pool_ok (snd (Get fresh m sz))"
  by (auto simp: pool_ok_def Get_def Let_def split: list.splits)

lemma pool_ok_put:
  "pool_ok m \<Longrightarrow> (\<And>b. p = Some b \<Longrightarrow> bufId b \<notin> bufId ` set (mpCh m)) \<Longrightarrow> pool_ok (Put m p)"
  by (auto simp: pool_ok_def Put_def split: option.splits)

lemma get_length: "pool_ok m \<Longrightarrow> int (bufLen (fst (Get fresh m sz))) = max 0 sz"
  by (auto simp: Get_def Let_def split: list.splits)

lemma get_capacity:
  "pool_ok m \<Longrightarrow> bufLen (fst (Get fresh m sz)) \<le> bufCap (fst (Get fresh m sz))"
  by (auto simp: Get_def Let_def pool_ok_def split: list.splits)

lemma put_get_reuses:
  assumes "mpCh m = []" and "int (bufCap b) = mpSize m"
  shows "fst (Get fresh (Put m (Some b)) (mpSize m)) = b\<lparr>bufLen := nat (mpSize m)\<rparr>"
  using assms by (simp add: Put_def Get_def cache_limit_def)

section \<open>Borrowers\<close>

text \<open>The pool with its borrowers: \<open>lent\<close> are the buffers handed out and not yet put back. Every
  borrower puts back what it borrowed, once.\<close>

record mem_sys =
  msPool :: mem_pool
  msLent :: "buffer list"
  msNext :: nat

inductive mem_step :: "mem_sys \<Rightarrow> mem_sys \<Rightarrow> bool" where
  borrow: "Get (msNext s) (msPool s) sz = (b, m) \<Longrightarrow>
     mem_step s (s\<lparr>msPool := m, msLent := b # msLent s, msNext := Suc (msNext s)\<rparr>)"
| give_back: "b \<in> set (msLent s) \<Longrightarrow>
     mem_step s (s\<lparr>msPool := Put (msPool s) (Some b), msLent := remove1 b (msLent s)\<rparr>)"

definition mem_init :: "mem_sys \<Rightarrow> bool" where
  "mem_init s \<longleftrightarrow> (\<exists>sz. msPool s = NewMemPool sz) \<and> msLent s = []"

definition mem_inv :: "mem_sys \<Rightarrow> bool" where
  "mem_inv s \<longleftrightarrow>
     pool_ok (msPool s) \<and>
     distinct (map bufId (msLent s) @ map bufId (mpCh (msPool s))) \<and>
     (\<forall>b \<in> set (msLent s) \<union> set (mpCh (msPool s)). bufId b < msNext s)"

lemma get_source:
  assumes "Get fresh m sz = (b, m')"
  shows "(mpCh m' = mpCh m \<and> bufId b = fresh) \<or> (\<exists>p. mpCh m = p # mpCh m' \<and> bufId b = bufId p)"
  using assms by (auto simp: Get_def Let_def split: if_splits list.splits)

lemma put_cache: "mpCh (Put m (Some b)) = mpCh m \<or> (\<exists>l. mpCh (Put m (Some b)) = mpCh m @ [b\<lparr>bufLen := l\<rparr>])"
  by (auto simp: Put_def)

lemma mem_init_inv: "mem_init s \<Longrightarrow> mem_inv s"
  by (auto simp: mem_init_def mem_inv_def pool_ok_new) (simp_all add: NewMemPool_def)

lemma disjoint_move:
  "x \<notin> A' \<Longrightarrow> A' \<subseteq> A \<Longrightarrow> C' \<subseteq> insert x C \<Longrightarrow> A \<inter> C = {} \<Longrightarrow> A' \<inter> C' = {}"
  by blast

lemma bound_move:
  "x \<in> A \<Longrightarrow> A' \<subseteq> A \<Longrightarrow> C' \<subseteq> insert x C \<Longrightarrow> \<forall>i \<in> A \<union> C. i < (n::nat) \<Longrightarrow> \<forall>i \<in> A' \<union> C'. i < n"
  by blast

lemma mem_step_inv: "mem_step s t \<Longrightarrow> mem_inv s \<Longrightarrow> mem_inv t"
proof (induction rule: mem_step.induct)
  case (borrow s sz b m)
  have "pool_ok m" using borrow pool_ok_get [of "msPool s" "msNext s" sz] by (simp add: mem_inv_def)
  with get_source [OF borrow(1)] borrow(2) show ?case
    by (fastforce simp: mem_inv_def less_Suc_eq image_iff disjoint_iff)
next
  case (give_back b s)
  then have id: "bufId b \<notin> bufId ` set (mpCh (msPool s))" and dist: "distinct (map bufId (msLent s))"
    by (auto simp: mem_inv_def)
  then have pool: "pool_ok (Put (msPool s) (Some b))"
    using give_back by (intro pool_ok_put) (auto simp: mem_inv_def)
  have rest: "set (remove1 b (msLent s)) = set (msLent s) - {b}"
    and d: "distinct (map bufId (remove1 b (msLent s)))"
    using dist by (auto simp: distinct_map set_remove1_eq distinct_remove1 inj_on_diff)
  have lent: "bufId b \<notin> bufId ` set (remove1 b (msLent s))"
    using dist give_back(1) rest by (auto simp: distinct_map dest: inj_onD)
  have sub: "bufId ` set (remove1 b (msLent s)) \<subseteq> bufId ` set (msLent s)"
    using rest by auto
  have cache: "bufId ` set (mpCh (Put (msPool s) (Some b))) \<subseteq> insert (bufId b) (bufId ` set (mpCh (msPool s)))"
    using put_cache [of "msPool s" b] by auto
  have "bufId ` set (msLent s) \<inter> bufId ` set (mpCh (msPool s)) = {}"
    using give_back(2) by (simp add: mem_inv_def)
  with lent sub cache
  have "bufId ` set (remove1 b (msLent s)) \<inter> bufId ` set (mpCh (Put (msPool s) (Some b))) = {}"
    by (rule disjoint_move)
  moreover have "distinct (map bufId (mpCh (Put (msPool s) (Some b))))"
    using pool by (simp add: pool_ok_def)
  moreover have "\<forall>i \<in> bufId ` set (remove1 b (msLent s)) \<union> bufId ` set (mpCh (Put (msPool s) (Some b))).
      i < msNext s"
  proof -
    have old: "\<forall>i \<in> bufId ` set (msLent s) \<union> bufId ` set (mpCh (msPool s)). i < msNext s"
      using give_back(2) by (simp add: mem_inv_def ball_Un)
    have b: "bufId b \<in> bufId ` set (msLent s)" using give_back(1) by (rule imageI)
    show ?thesis by (rule bound_move [OF b sub cache old])
  qed
  ultimately show ?case
    using pool d by (simp add: mem_inv_def ball_Un)
qed

interpretation mem: invariant_system mem_init mem_step mem_inv
  by unfold_locales (auto intro: mem_init_inv mem_step_inv)

section \<open>Properties\<close>

text \<open>Whatever the order of borrowing and returning, no two lent buffers are the same and no
  lent buffer is still in the cache; the cache holds at most \<open>16\<close> buffers, all of the pool's
  size, so a buffer handed out is never written by two owners.\<close>

theorem buffers_not_shared:
  assumes "reachable mem_init mem_step s"
  shows "distinct (map bufId (msLent s) @ map bufId (mpCh (msPool s))) \<and> pool_ok (msPool s)"
  using mem.reach_inv [OF assms] by (auto simp: mem_inv_def pool_ok_def)

theorem buffers_not_shared_witness:
  "let s = \<lparr>msPool = NewMemPool 8, msLent = [\<lparr>bufId = 0, bufLen = 8, bufCap = 8\<rparr>], msNext = 1\<rparr>
   in distinct (map bufId (msLent s) @ map bufId (mpCh (msPool s)))"
proof -
  let ?s0 = "\<lparr>msPool = NewMemPool 8, msLent = [], msNext = 0\<rparr>"
  let ?s1 = "\<lparr>msPool = NewMemPool 8, msLent = [\<lparr>bufId = 0, bufLen = 8, bufCap = 8\<rparr>], msNext = 1\<rparr>"
  have "reachable mem_init mem_step ?s0" by (rule reach_init) (auto simp: mem_init_def)
  moreover have "mem_step ?s0 ?s1"
    using mem_step.borrow [of ?s0 8] by (simp add: Get_def NewMemPool_def)
  ultimately have "reachable mem_init mem_step ?s1" by (rule reach_step)
  from buffers_not_shared [OF this] show ?thesis by simp
qed

text \<open>The buffer \<^verbatim>\<open>Get\<close> returns has the requested length (nothing for a negative request)
  within its capacity, is a cached buffer only when the request is for the pool's own size, and
  a buffer that was just returned to an empty cache is the next one handed out.\<close>

theorem get_fits:
  assumes "pool_ok m"
  shows "int (bufLen (fst (Get fresh m sz))) = max 0 sz \<and>
    bufLen (fst (Get fresh m sz)) \<le> bufCap (fst (Get fresh m sz)) \<and>
    (max 0 sz \<noteq> mpSize m \<longrightarrow> bufId (fst (Get fresh m sz)) = fresh \<and> snd (Get fresh m sz) = m)"
  using get_length [OF assms] get_capacity [OF assms]
  by (auto simp: Get_def Let_def split: list.splits)

theorem get_fits_witness:
  "int (bufLen (fst (Get 5 (NewMemPool 8) 3))) = 3 \<and> snd (Get 5 (NewMemPool 8) 3) = NewMemPool 8"
  using get_fits [OF pool_ok_new, of 5 8 3] by (simp add: NewMemPool_def)

end
