(* ===== verification/Wire.thy ===== *)
theory Wire
  imports GoPrelude
begin

text \<open>
  The GSP frame codec (\<^verbatim>\<open>internal/gsp\<close>): one type byte, a little-endian 32-bit length and the
  payload. A connection's incoming side is the list of bytes that will arrive before it ends;
  a reader returns its result with the bytes it has not consumed. \<open>decode\<close> is \<^verbatim>\<open>Decode\<close> into
  a buffer of a given capacity, \<open>decode_bounded\<close> is \<^verbatim>\<open>DecodeBounded\<close>, \<open>frame\<close> the bytes
  \<^verbatim>\<open>EncodeTo\<close> writes. The locale \<open>framing\<close> is what the clients of a codec rely on; both
  decoders provide it.
\<close>

unbundle bit_operations_syntax

section \<open>Packets and the byte order\<close>

type_synonym byte = "8 word"
type_synonym reader = "byte list"

definition TypeJSON :: byte where
  "TypeJSON = 0x01"

definition TypeFileChunk :: byte where
  "TypeFileChunk = 0x02"

record packet =
  pkType :: byte
  pkLength :: "32 word"
  pkPayload :: "byte list"

datatype codec_error =
    EOF
  | UnexpectedEOF
  | ErrInvalidType
  | ExceedsBuffer "32 word" nat
  | FrameExceeds "32 word"

text \<open>\<^verbatim>\<open>binary.LittleEndian.PutUint32\<close> and \<^verbatim>\<open>Uint32\<close>.\<close>

definition put_uint32 :: "32 word \<Rightarrow> byte list" where
  "put_uint32 w = [ucast w, ucast (drop_bit 8 w), ucast (drop_bit 16 w), ucast (drop_bit 24 w)]"

fun get_uint32 :: "byte list \<Rightarrow> 32 word" where
  "get_uint32 (a # b # c # d # _) =
     ucast a OR push_bit 8 (ucast b) OR push_bit 16 (ucast c) OR push_bit 24 (ucast d)"
| "get_uint32 _ = 0"

lemma get_put_uint32: "get_uint32 (put_uint32 w) = w"
proof (rule bit_word_eqI)
  fix n
  assume "n < LENGTH(32)"
  then consider "n < 8" | "8 \<le> n \<and> n < 16" | "16 \<le> n \<and> n < 24" | "24 \<le> n \<and> n < 32"
    by fastforce
  then show "bit (get_uint32 (put_uint32 w)) n = bit w n"
    by cases (auto simp: put_uint32_def bit_simps)
qed

lemma byte_bit_bound: "8 \<le> n \<Longrightarrow> \<not> bit (a :: byte) n"
  by (auto dest: bit_imp_le_length)

lemma put_get_uint32: "length bs = 4 \<Longrightarrow> put_uint32 (get_uint32 bs) = bs"
proof -
  assume "length bs = 4"
  then obtain a b c d where bs: "bs = [a, b, c, d]"
    by (auto simp: eval_nat_numeral length_Suc_conv)
  show ?thesis
    unfolding bs put_uint32_def
    by (auto intro!: bit_word_eqI simp: bit_simps byte_bit_bound)
qed

lemma length_put_uint32 [simp]: "length (put_uint32 w) = 4"
  by (simp add: put_uint32_def)

section \<open>Encoding\<close>

definition frame_header :: "byte \<Rightarrow> byte list \<Rightarrow> byte list" where
  "frame_header typ payload = typ # put_uint32 (word_of_nat (length payload))"

definition frame :: "byte \<Rightarrow> byte list \<Rightarrow> byte list" where
  "frame typ payload = frame_header typ payload @ payload"

text \<open>\<^verbatim>\<open>EncodeTo\<close> on a connection that takes everything (\<open>None\<close>) or breaks after \<open>k\<close> more
  bytes (\<open>Some k\<close>): the new contents of the wire, and whether the write succeeded.\<close>

definition encode_to :: "nat option \<Rightarrow> byte list \<Rightarrow> byte \<Rightarrow> byte list \<Rightarrow> byte list \<times> bool" where
  "encode_to broken wire typ payload =
     (let buf = frame typ payload
      in case broken of
           None \<Rightarrow> (wire @ buf, True)
         | Some k \<Rightarrow> if length buf \<le> k then (wire @ buf, True) else (wire @ take k buf, False))"

section \<open>Decoding\<close>

text \<open>\<^verbatim>\<open>io.ReadFull\<close>: exactly \<open>n\<close> bytes, or \<open>EOF\<close> when nothing was left and
  \<open>UnexpectedEOF\<close> when too little was.\<close>

definition read_full :: "nat \<Rightarrow> reader \<Rightarrow> (codec_error + byte list) \<times> reader" where
  "read_full n r =
     (if n \<le> length r then (Inr (take n r), drop n r)
      else if r = [] then (Inl EOF, [])
      else (Inl UnexpectedEOF, []))"

definition decode :: "nat \<Rightarrow> reader \<Rightarrow> (codec_error + packet) \<times> reader" where
  "decode bufcap r =
     (case read_full 5 r of
        (Inl e, r1) \<Rightarrow> (Inl e, r1)
      | (Inr header, r1) \<Rightarrow>
          if header ! 0 \<noteq> TypeJSON \<and> header ! 0 \<noteq> TypeFileChunk then (Inl ErrInvalidType, r1)
          else
            (let dataLen = get_uint32 (drop 1 header)
             in if (word_of_nat bufcap :: 32 word) < dataLen
                then (Inl (ExceedsBuffer dataLen bufcap), r1)
                else
                  (case read_full (unat dataLen) r1 of
                     (Inl e, r2) \<Rightarrow> (Inl e, r2)
                   | (Inr payload, r2) \<Rightarrow>
                       (Inr \<lparr>pkType = header ! 0, pkLength = dataLen, pkPayload = payload\<rparr>, r2))))"

text \<open>\<^verbatim>\<open>DecodeBounded\<close> grows its buffer to the frame, so only the limit can refuse one.\<close>

definition decode_bounded :: "32 word \<Rightarrow> reader \<Rightarrow> (codec_error + packet) \<times> reader" where
  "decode_bounded limit r =
     (case read_full 5 r of
        (Inl e, r1) \<Rightarrow> (Inl e, r1)
      | (Inr header, r1) \<Rightarrow>
          if header ! 0 \<noteq> TypeJSON \<and> header ! 0 \<noteq> TypeFileChunk then (Inl ErrInvalidType, r1)
          else
            (let n = get_uint32 (drop 1 header)
             in if limit < n then (Inl (FrameExceeds limit), r1)
                else
                  (case read_full (unat n) r1 of
                     (Inl e, r2) \<Rightarrow> (Inl e, r2)
                   | (Inr payload, r2) \<Rightarrow>
                       (Inr \<lparr>pkType = header ! 0, pkLength = n, pkPayload = payload\<rparr>, r2))))"

section \<open>Frames and packets correspond\<close>

definition packet_of :: "byte \<times> byte list \<Rightarrow> packet" where
  "packet_of p = \<lparr>pkType = fst p, pkLength = word_of_nat (length (snd p)), pkPayload = snd p\<rparr>"

definition frame_of :: "packet \<Rightarrow> byte list" where
  "frame_of p = frame (pkType p) (pkPayload p)"

text \<open>A packet that a sender can have framed: a known type and a length field that counts the
  payload, which is shorter than \<open>2 ^ 32\<close> bytes.\<close>

definition valid_packet :: "packet \<Rightarrow> bool" where
  "valid_packet p \<longleftrightarrow>
     (pkType p = TypeJSON \<or> pkType p = TypeFileChunk) \<and>
     length (pkPayload p) < 2 ^ 32 \<and> pkLength p = word_of_nat (length (pkPayload p))"

definition fits_buffer :: "nat \<Rightarrow> packet \<Rightarrow> bool" where
  "fits_buffer bufcap p \<longleftrightarrow> valid_packet p \<and> pkLength p \<le> word_of_nat bufcap"

definition within_limit :: "32 word \<Rightarrow> packet \<Rightarrow> bool" where
  "within_limit limit p \<longleftrightarrow> valid_packet p \<and> pkLength p \<le> limit"

lemma length_frame_header [simp]: "length (frame_header t p) = 5"
  by (simp add: frame_header_def)

lemma length_frame: "length (frame t p) = 5 + length p"
  by (simp add: frame_def)

lemma read_full_append: "length h = n \<Longrightarrow> read_full n (h @ r) = (Inr h, r)"
  by (simp add: read_full_def)

lemma read_full_Nil [simp]: "0 < n \<Longrightarrow> read_full n [] = (Inl EOF, [])"
  by (simp add: read_full_def)

lemma read_full_Inr: "read_full n r = (Inr b, r') \<Longrightarrow> r = b @ r' \<and> length b = n"
  by (auto simp: read_full_def split: if_splits)

lemma read_full_suffix: "read_full n r = (x, r') \<Longrightarrow> \<exists>h. r = h @ r'"
  by (auto simp: read_full_def split: if_splits intro: exI [of _ "take n r"])

lemma unat_length_payload:
  "n < 2 ^ 32 \<Longrightarrow> unat (word_of_nat n :: 32 word) = n"
  by (simp add: unat_of_nat take_bit_eq_mod)

lemma header_fields:
  "frame_header t p ! 0 = t"
  "get_uint32 (drop (Suc 0) (frame_header t p)) = word_of_nat (length p)"
  by (simp_all add: frame_header_def get_put_uint32)

lemma frame_of_append:
  "frame_of p @ r = frame_header (pkType p) (pkPayload p) @ (pkPayload p @ r)"
  by (simp add: frame_of_def frame_def)

lemma decode_frame: "fits_buffer bufcap p \<Longrightarrow> decode bufcap (frame_of p @ r) = (Inr p, r)"
  by (cases p)
    (auto simp: decode_def frame_of_append read_full_append header_fields fits_buffer_def
      valid_packet_def unat_length_payload Let_def not_less)

lemma decode_bounded_frame:
  "within_limit limit p \<Longrightarrow> decode_bounded limit (frame_of p @ r) = (Inr p, r)"
  by (cases p)
    (auto simp: decode_bounded_def frame_of_append read_full_append header_fields within_limit_def
      valid_packet_def unat_length_payload Let_def not_less)

lemma header_bytes:
  "length h = 5 \<Longrightarrow> h = h ! 0 # put_uint32 (get_uint32 (drop (Suc 0) h))"
  by (cases h) (auto simp: put_get_uint32)

lemma payload_length_bound: "length b = unat (w :: 32 word) \<Longrightarrow> length b < 2 ^ 32"
proof -
  assume len: "length b = unat w"
  have "unat w < 2 ^ LENGTH(32)" by (rule unsigned_less)
  with len show ?thesis by simp
qed

lemma frame_of_read:
  assumes "length h = 5" and "t = h ! 0" and "length b = unat (get_uint32 (drop (Suc 0) h))"
  shows "frame_of \<lparr>pkType = t, pkLength = get_uint32 (drop (Suc 0) h), pkPayload = b\<rparr> = h @ b"
  using assms header_bytes [of h] by (simp add: frame_of_def frame_def frame_header_def)

lemma decode_Inr:
  assumes "decode bufcap r = (Inr p, r')"
  shows "r = frame_of p @ r' \<and> fits_buffer bufcap p"
  using assms
  by (auto simp: decode_def Let_def fits_buffer_def valid_packet_def not_less frame_of_read
      dest!: read_full_Inr dest: payload_length_bound split: prod.splits sum.splits if_splits)

lemma decode_bounded_Inr:
  assumes "decode_bounded limit r = (Inr p, r')"
  shows "r = frame_of p @ r' \<and> within_limit limit p"
  using assms
  by (auto simp: decode_bounded_def Let_def within_limit_def valid_packet_def not_less frame_of_read
      dest!: read_full_Inr dest: payload_length_bound split: prod.splits sum.splits if_splits)

section \<open>The codec interface\<close>

text \<open>The reading loop of a connection handler: packets until the first error.\<close>

fun read_packets ::
  "nat \<Rightarrow> (reader \<Rightarrow> (codec_error + packet) \<times> reader) \<Rightarrow> reader \<Rightarrow> packet list \<times> codec_error option"
where
  "read_packets 0 dec r = ([], None)"
| "read_packets (Suc fuel) dec r =
     (case dec r of
        (Inl e, r') \<Rightarrow> ([], Some e)
      | (Inr p, r') \<Rightarrow> (case read_packets fuel dec r' of (ps, e) \<Rightarrow> (p # ps, e)))"

locale framing =
  fixes enc :: "packet \<Rightarrow> byte list"
    and dec :: "reader \<Rightarrow> (codec_error + packet) \<times> reader"
    and ok :: "packet \<Rightarrow> bool"
  assumes dec_enc: "ok p \<Longrightarrow> dec (enc p @ r) = (Inr p, r)"
    and dec_sound: "dec r = (Inr p, r') \<Longrightarrow> r = enc p @ r' \<and> ok p"
    and dec_end: "dec [] = (Inl EOF, [])"
begin

lemma dec_determines: "ok p \<Longrightarrow> dec (enc p @ r) = (Inr q, r') \<Longrightarrow> q = p \<and> r' = r"
  by (simp add: dec_enc)

text \<open>Frames are self-delimiting: two streams of acceptable packets with the same bytes carry
  the same packets.\<close>

lemma stream_roundtrip:
  "list_all ok ps \<Longrightarrow>
   read_packets (Suc (length ps)) dec (concat (map enc ps)) = (ps, Some EOF)"
proof (induction ps)
  case Nil
  then show ?case by (simp add: dec_end)
next
  case (Cons p ps)
  then show ?case by (simp add: dec_enc)
qed

lemma stream_injective:
  assumes "list_all ok ps" and "list_all ok qs"
    and eq: "concat (map enc ps) = concat (map enc qs)" and "length ps = length qs"
  shows "ps = qs"
  using stream_roundtrip [OF assms(1)] stream_roundtrip [OF assms(2)] eq \<open>length ps = length qs\<close>
  by simp

lemma stream_sound:
  "read_packets fuel dec r = (ps, e) \<Longrightarrow> list_all ok ps \<and> (\<exists>rest. r = concat (map enc ps) @ rest)"
proof (induction fuel arbitrary: r ps e)
  case 0
  then show ?case by simp
next
  case (Suc fuel)
  then show ?case
    by (fastforce split: prod.splits sum.splits dest: dec_sound)
qed

end

interpretation plain: framing frame_of "decode bufcap" "fits_buffer bufcap" for bufcap
  by unfold_locales (auto simp: decode_frame dest: decode_Inr, simp add: decode_def)

interpretation bounded: framing frame_of "decode_bounded limit" "within_limit limit" for limit
  by unfold_locales (auto simp: decode_bounded_frame dest: decode_bounded_Inr, simp add: decode_bounded_def)

lemma read_full_short:
  "length r < n \<Longrightarrow> read_full n r = (Inl (if r = [] then EOF else UnexpectedEOF), [])"
  by (simp add: read_full_def)

lemma decode_cut:
  assumes lim: "within_limit limit p" and k: "k < length (frame_of p)"
  shows "decode_bounded limit (take k (frame_of p)) =
    (Inl (if k = 0 \<or> k = 5 then EOF else UnexpectedEOF), [])"
proof (cases "k < 5")
  case True
  then have "length (take k (frame_of p)) = k" using k by simp
  then show ?thesis
    using True read_full_short [of "take k (frame_of p)" 5]
    by (auto simp: decode_bounded_def simp flip: length_0_conv)
next
  case False
  then obtain j where kj: "k = 5 + j" by (metis le_add_diff_inverse not_less)
  have j: "j < length (pkPayload p)" using k kj by (simp add: frame_of_def length_frame)
  have t: "take k (frame_of p) = frame_header (pkType p) (pkPayload p) @ take j (pkPayload p)"
    using kj by (simp add: frame_of_def frame_def)
  have len: "get_uint32 (drop (Suc 0) (frame_header (pkType p) (pkPayload p))) = pkLength p"
    and n: "unat (pkLength p) = length (pkPayload p)"
    and ok: "pkType p = TypeJSON \<or> pkType p = TypeFileChunk" "\<not> limit < pkLength p"
    using lim by (auto simp: within_limit_def valid_packet_def unat_length_payload header_fields)
  have rd: "read_full (length (pkPayload p)) (take j (pkPayload p)) =
      (Inl (if j = 0 then EOF else UnexpectedEOF), [])"
    using j read_full_short [of "take j (pkPayload p)" "length (pkPayload p)"]
    by (auto simp flip: length_0_conv)
  show ?thesis
    unfolding t using ok kj
    by (auto simp: decode_bounded_def read_full_append header_fields(1) len n rd Let_def)
qed

section \<open>Properties\<close>

text \<open>C35: the bounded decoder accepts exactly the frames of the packets within its limit: it
  returns a packet if and only if the bytes start with that packet's frame, and it leaves exactly
  the bytes after it.\<close>

theorem decode_bounded_iff:
  "decode_bounded limit r = (Inr p, r') \<longleftrightarrow> r = frame_of p @ r' \<and> within_limit limit p"
  using decode_bounded_frame decode_bounded_Inr by blast

text \<open>A stream of frames is read back packet by packet, in order and without leftovers, and the
  reader then sees the clean end of the connection; the decoder with a fixed buffer does the same
  for packets that fit.\<close>

theorem frames_roundtrip:
  assumes "list_all (within_limit limit) ps" and "list_all (fits_buffer bufcap) qs"
  shows "read_packets (Suc (length ps)) (decode_bounded limit) (concat (map frame_of ps)) = (ps, Some EOF) \<and>
    read_packets (Suc (length qs)) (decode bufcap) (concat (map frame_of qs)) = (qs, Some EOF)"
  using bounded.stream_roundtrip [OF assms(1)] plain.stream_roundtrip [OF assms(2)] by auto

theorem frames_roundtrip_witness:
  "let p = \<lparr>pkType = TypeJSON, pkLength = 2, pkPayload = [7, 9]\<rparr>
   in read_packets 3 (decode_bounded 8) (frame_of p @ frame_of p) = ([p, p], Some EOF)"
proof -
  let ?p = "\<lparr>pkType = TypeJSON, pkLength = 2, pkPayload = [7, 9]\<rparr>"
  have ok: "list_all (within_limit 8) [?p, ?p]" "list_all (fits_buffer 4) [?p]"
    by (simp_all add: within_limit_def fits_buffer_def valid_packet_def word_le_nat_alt)
  have three: "(3::nat) = Suc (length [?p, ?p])" by simp
  show ?thesis using frames_roundtrip [OF ok] unfolding three Let_def by (simp del: length_Cons)
qed

text \<open>A frame cut off at any point is refused and everything that arrived is consumed. The error
  is \<open>UnexpectedEOF\<close>, except right after the header of a frame with a payload, where it is the
  same \<open>EOF\<close> as at the end of a clean stream.\<close>

theorem cut_frame_refused:
  assumes "within_limit limit p" and "k < length (frame_of p)"
  shows "decode_bounded limit (take k (frame_of p)) =
    (Inl (if k = 0 \<or> k = 5 then EOF else UnexpectedEOF), [])"
  using assms by (rule decode_cut)

theorem cut_frame_refused_witness:
  "decode_bounded 8 (take 6 (frame TypeJSON [7, 9])) = (Inl UnexpectedEOF, [])"
  using cut_frame_refused [of 8 "packet_of (TypeJSON, [7, 9])" 6]
  by (simp add: frame_of_def packet_of_def within_limit_def valid_packet_def length_frame
      word_le_nat_alt)

text \<open>What \<^verbatim>\<open>EncodeTo\<close> puts on a connection is what the peer decodes: a successful write of a
  message within the limit arrives as that message, and a write the connection broke never
  arrives as any message.\<close>

theorem encode_decode:
  assumes "within_limit limit (packet_of (t, payload))"
    and "encode_to broken [] t payload = (wire, ok)"
  shows "decode_bounded limit wire =
    (if ok then Inr (packet_of (t, payload))
     else Inl (if length wire = 0 \<or> length wire = 5 then EOF else UnexpectedEOF), [])"
proof -
  let ?p = "packet_of (t, payload)"
  have f: "frame t payload = frame_of ?p" by (simp add: frame_of_def packet_of_def)
  have full: "decode_bounded limit (frame_of ?p) = (Inr ?p, [])"
    using decode_bounded_frame [OF assms(1), of "[]"] by simp
  have cut: "decode_bounded limit (take k (frame_of ?p)) =
      (Inl (if k = 0 \<or> k = 5 then EOF else UnexpectedEOF), [])" if "\<not> length (frame_of ?p) \<le> k" for k
    using decode_cut [OF assms(1), of k] that by simp
  show ?thesis
  proof (cases broken)
    case (Some k)
    then show ?thesis
      using assms(2) full cut [of k]
      by (cases "length (frame_of ?p) \<le> k") (auto simp: encode_to_def f Let_def min_def simp del: take_0)
  qed (use assms(2) full in \<open>simp add: encode_to_def f Let_def\<close>)
qed

theorem encode_decode_witness:
  "decode_bounded 8 (fst (encode_to (Some 3) [] TypeJSON [7, 9])) = (Inl UnexpectedEOF, [])"
proof -
  have "within_limit 8 (packet_of (TypeJSON, [7, 9]))"
    by (simp add: packet_of_def within_limit_def valid_packet_def word_le_nat_alt)
  moreover have "length (frame TypeJSON [7, 9]) = 7" by (simp add: length_frame)
  moreover from this have "encode_to (Some 3) [] TypeJSON [7, 9] = (take 3 (frame TypeJSON [7, 9]), False)"
    by (simp add: encode_to_def Let_def)
  moreover have "frame TypeJSON [7, 9] \<noteq> []" by (simp add: frame_def frame_header_def)
  ultimately show ?thesis using encode_decode [of 8 TypeJSON "[7, 9]" "Some 3"] by simp
qed

end
