(* ===== verification/FileChunks.thy ===== *)
theory FileChunks
  imports Wire
begin

text \<open>
  Logical chunks of a file (\<^verbatim>\<open>internal/chunk\<close>, constant from \<^verbatim>\<open>internal/const\<close>) and the CRC-32
  checksum (\<^verbatim>\<open>hash/crc32\<close>, IEEE). An open file is the list of its bytes; \<^verbatim>\<open>f.Stat()\<close> is a
  \<open>file_stat\<close>. The locale \<open>block_store\<close> is the contract the download engine relies on: a
  block written is the block read back, and writing one block leaves the others alone.
\<close>

section \<open>The chunk geometry\<close>

definition ChunkSize :: int where
  "ChunkSize = 4 * 2 ^ 20"

record file_stat =
  fsName :: string
  fsSize :: int
  fsModTime :: int
  fsIdent :: nat
  fsRegular :: bool

text \<open>\<^verbatim>\<open>chunk.FileChunk\<close>: \<open>None\<close> for a nil \<^verbatim>\<open>FileStat\<close>; the descriptor is a number.\<close>

record file_chunk =
  fcFile :: nat
  fcStat :: "file_stat option"
  fcChunkSize :: int

definition empty_chunk :: file_chunk where
  "empty_chunk = \<lparr>fcFile = 0, fcStat = None, fcChunkSize = 0\<rparr>"

datatype chunk_error =
    BadIndex int
  | ShortBuffer
  | ReadEOF
  | WrongLength int nat

definition NewFileChunk :: "nat \<Rightarrow> file_stat option \<Rightarrow> file_chunk" where
  "NewFileChunk f st = \<lparr>fcFile = f, fcStat = st, fcChunkSize = ChunkSize\<rparr>"

definition GetChunkNum :: "file_chunk \<Rightarrow> int" where
  "GetChunkNum f =
     (case fcStat f of
        None \<Rightarrow> 0
      | Some st \<Rightarrow>
          if fsSize st = 0 then 0
          else go_quot (wrap64 (wrap64 (fsSize st + fcChunkSize f) - 1)) (fcChunkSize f))"

definition GetChunkSize :: "file_chunk \<Rightarrow> int" where
  "GetChunkSize f = fcChunkSize f"

text \<open>\<^verbatim>\<open>Unchanged\<close>: \<open>now\<close> is what \<^verbatim>\<open>Stat\<close> answers now, \<open>None\<close> for its error.\<close>

definition Unchanged :: "file_chunk \<Rightarrow> file_stat option \<Rightarrow> bool" where
  "Unchanged f now =
     (case fcStat f of
        None \<Rightarrow> False
      | Some st \<Rightarrow>
          (case now of
             None \<Rightarrow> False
           | Some st' \<Rightarrow> fsSize st' = fsSize st \<and> fsModTime st' = fsModTime st \<and> fsIdent st' = fsIdent st))"

section \<open>Reading and saving\<close>

text \<open>\<^verbatim>\<open>ReadAt\<close> fills the buffer or fails with \<^verbatim>\<open>io.EOF\<close>; \<^verbatim>\<open>WriteAt\<close> extends the file with
  zero bytes when it starts past its end.\<close>

definition read_at :: "byte list \<Rightarrow> int \<Rightarrow> int \<Rightarrow> chunk_error + byte list" where
  "read_at data off n =
     (if 0 \<le> off \<and> off + n \<le> int (length data) then Inr (take (nat n) (drop (nat off) data))
      else Inl ReadEOF)"

definition write_at :: "byte list \<Rightarrow> int \<Rightarrow> byte list \<Rightarrow> byte list" where
  "write_at data off bs =
     take (nat off) data @ replicate (nat off - length data) 0 @ bs @ drop (nat off + length bs) data"

text \<open>\<^verbatim>\<open>Truncate\<close>.\<close>

definition truncate_to :: "nat \<Rightarrow> byte list \<Rightarrow> byte list" where
  "truncate_to n data = take n data @ replicate (n - length data) 0"

definition chunk_read_size :: "file_chunk \<Rightarrow> int \<Rightarrow> int" where
  "chunk_read_size f index =
     (case fcStat f of
        None \<Rightarrow> 0
      | Some st \<Rightarrow>
          if ChunkSize * index + ChunkSize > fsSize st then fsSize st - ChunkSize * index else ChunkSize)"

definition ReadChunk :: "file_chunk \<Rightarrow> byte list \<Rightarrow> int \<Rightarrow> nat \<Rightarrow> chunk_error + byte list" where
  "ReadChunk f data index buflen =
     (if index \<ge> GetChunkNum f \<or> index < 0 then Inl (BadIndex index)
      else if int buflen < chunk_read_size f index then Inl ShortBuffer
      else read_at data (ChunkSize * index) (chunk_read_size f index))"

definition Save :: "file_chunk \<Rightarrow> byte list \<Rightarrow> int \<Rightarrow> byte list \<Rightarrow> chunk_error + byte list" where
  "Save f data index bs =
     (if index < 0 \<or> index \<ge> GetChunkNum f then Inl (BadIndex index)
      else
        (let size = (case fcStat f of None \<Rightarrow> 0 | Some st \<Rightarrow> fsSize st);
             want = min (fcChunkSize f) (size - index * fcChunkSize f)
         in if int (length bs) \<noteq> want then Inl (WrongLength want (length bs))
            else Inr (write_at data (index * fcChunkSize f) bs)))"

section \<open>CRC-32\<close>

definition crc_step :: "32 word \<Rightarrow> 32 word" where
  "crc_step c = (if bit c 0 then drop_bit 1 c XOR 0xEDB88320 else drop_bit 1 c)"

definition crc_byte :: "32 word \<Rightarrow> byte \<Rightarrow> 32 word" where
  "crc_byte c b = (crc_step ^^ 8) (c XOR ucast b)"

definition ChecksumIEEE :: "byte list \<Rightarrow> 32 word" where
  "ChecksumIEEE bs = NOT (foldl crc_byte (NOT 0) bs)"

definition CheckSum :: "file_chunk \<Rightarrow> byte list \<Rightarrow> int \<Rightarrow> chunk_error + 32 word" where
  "CheckSum f data i =
     (case ReadChunk f data i (nat (fcChunkSize f)) of
        Inl e \<Rightarrow> Inl e
      | Inr bs \<Rightarrow> Inr (ChecksumIEEE bs))"

text \<open>One step loses nothing: its feedback polynomial has the top bit set, which records the bit
  that is shifted out.\<close>

lemma bit_poly_top: "bit (0xEDB88320 :: 32 word) 31"
  by simp

lemma xor_cancel: "(x :: 'a::len word) XOR a = y XOR a \<Longrightarrow> x = y"
  by (metis xor.assoc xor.right_neutral xor_self_eq)

lemma crc_step_inj: "crc_step c = crc_step d \<Longrightarrow> c = d"
proof (rule bit_word_eqI)
  fix n
  assume eq: "crc_step c = crc_step d" and n: "n < LENGTH(32)"
  have top: "bit (crc_step w) 31 = bit w 0" for w
    by (auto simp: crc_step_def bit_simps dest: bit_imp_le_length)
  have low: "bit c 0 = bit d 0"
    using eq top [of c] top [of d] by simp
  show "bit c n = bit d n"
  proof (cases n)
    case 0
    with low show ?thesis by simp
  next
    case (Suc m)
    have "bit (drop_bit 1 c) m = bit (drop_bit 1 d) m"
      using eq low by (auto simp: crc_step_def split: if_splits dest: xor_cancel)
    with Suc show ?thesis by (simp add: bit_simps)
  qed
qed

lemma crc_steps_inj: "(crc_step ^^ k) c = (crc_step ^^ k) d \<Longrightarrow> c = d"
  by (induction k) (auto dest: crc_step_inj)

lemma crc_byte_inj_state: "crc_byte c b = crc_byte d b \<Longrightarrow> c = d"
  unfolding crc_byte_def by (drule crc_steps_inj) (rule xor_cancel)

lemma crc_byte_inj_byte: "crc_byte c a = crc_byte c b \<Longrightarrow> a = b"
proof -
  assume "crc_byte c a = crc_byte c b"
  then have "c XOR ucast a = c XOR ucast b" unfolding crc_byte_def by (rule crc_steps_inj)
  then have eq: "bit (c XOR ucast a) n = bit (c XOR ucast b) n" for n by simp
  show ?thesis
  proof (rule bit_word_eqI)
    fix n
    assume "n < LENGTH(8)"
    then show "bit a n = bit b n" using eq [of n] by (auto simp: bit_simps)
  qed
qed

lemma crc_fold_inj: "foldl crc_byte c bs = foldl crc_byte d bs \<Longrightarrow> c = d"
  by (induction bs arbitrary: c d) (auto dest: crc_byte_inj_state)

lemma checksum_one_byte:
  assumes "a \<noteq> b"
  shows "ChecksumIEEE (xs @ a # ys) \<noteq> ChecksumIEEE (xs @ b # ys)"
proof
  assume "ChecksumIEEE (xs @ a # ys) = ChecksumIEEE (xs @ b # ys)"
  then have "foldl crc_byte (crc_byte (foldl crc_byte (NOT 0) xs) a) ys =
      foldl crc_byte (crc_byte (foldl crc_byte (NOT 0) xs) b) ys"
    by (simp add: ChecksumIEEE_def)
  then have "crc_byte (foldl crc_byte (NOT 0) xs) a = crc_byte (foldl crc_byte (NOT 0) xs) b"
    by (rule crc_fold_inj)
  with assms show False by (blast dest: crc_byte_inj_byte)
qed

lemma crc_byte_steps:
  "crc_byte c b =
     crc_step (crc_step (crc_step (crc_step (crc_step (crc_step (crc_step (crc_step (c XOR ucast b))))))))"
  by (simp add: crc_byte_def eval_nat_numeral)

text \<open>The check value of the CRC catalogues: the checksum of the digits 1 to 9.\<close>

lemma checksum_check_value:
  "ChecksumIEEE [0x31, 0x32, 0x33, 0x34, 0x35, 0x36, 0x37, 0x38, 0x39] = 0xCBF43926"
  by (simp add: ChecksumIEEE_def crc_byte_steps crc_step_def)

section \<open>Geometry of a well-sized chunked file\<close>

text \<open>The file was stat'ed at the size it has, and its size is small enough for the 64-bit
  rounding in \<open>GetChunkNum\<close>.\<close>

definition well_sized :: "file_chunk \<Rightarrow> nat \<Rightarrow> bool" where
  "well_sized f n \<longleftrightarrow>
     fcChunkSize f = ChunkSize \<and> int n \<le> 2 ^ 62 \<and>
     (case fcStat f of None \<Rightarrow> False | Some st \<Rightarrow> fsSize st = int n)"

lemma well_sized_stat:
  "well_sized f n \<Longrightarrow> \<exists>st. fcStat f = Some st \<and> fsSize st = int n"
  by (auto simp: well_sized_def split: option.splits)

lemma ChunkSize_pos [simp]: "0 < ChunkSize"
  by (simp add: ChunkSize_def)

lemma ChunkSize_nonneg [simp]: "0 \<le> ChunkSize"
  by (simp add: ChunkSize_def)

lemma ChunkSize_num: "ChunkSize = 4194304"
  by (simp add: ChunkSize_def)

lemma chunk_num_eq: "well_sized f n \<Longrightarrow> GetChunkNum f = (int n + ChunkSize - 1) div ChunkSize"
proof -
  assume ws: "well_sized f n"
  then obtain st where st: "fcStat f = Some st" "fsSize st = int n" and n: "int n \<le> 2 ^ 62"
    and cs: "fcChunkSize f = ChunkSize"
    using well_sized_stat by (auto simp: well_sized_def)
  have "wrap64 (wrap64 (int n + ChunkSize) - 1) = int n + ChunkSize - 1"
    using n by (simp add: wrap64_id is_int64_def max_int64_def ChunkSize_def)
  with st cs show ?thesis
    by (auto simp: GetChunkNum_def go_quot_nonneg ChunkSize_def)
qed

lemma chunk_index_valid:
  assumes "well_sized f n"
  shows "i < GetChunkNum f \<longleftrightarrow> ChunkSize * i < int n"
proof -
  have "i < (int n + ChunkSize - 1) div ChunkSize \<longleftrightarrow> ChunkSize * i < int n"
    unfolding ChunkSize_num by linarith
  with chunk_num_eq [OF assms] show ?thesis by simp
qed

lemma chunk_num_nonneg: "well_sized f n \<Longrightarrow> 0 \<le> GetChunkNum f"
  by (simp add: chunk_num_eq ChunkSize_def)

text \<open>Block \<open>i\<close> of a byte list: what a chunk holds.\<close>

definition block :: "byte list \<Rightarrow> nat \<Rightarrow> byte list" where
  "block data i = take (nat ChunkSize) (drop (nat ChunkSize * i) data)"

lemma length_block: "length (block data i) = min (nat ChunkSize) (length data - nat ChunkSize * i)"
  by (simp add: block_def)

lemma concat_blocks: "concat (map (block data) [0..<k]) = take (nat ChunkSize * k) data"
proof (induction k)
  case 0
  then show ?case by simp
next
  case (Suc k)
  have "nat ChunkSize * Suc k = nat ChunkSize * k + nat ChunkSize" by simp
  then have "take (nat ChunkSize * Suc k) data = take (nat ChunkSize * k) data @ block data k"
    by (simp only: take_add block_def)
  with Suc show ?case by simp
qed

lemma nat_offset: "0 \<le> i \<Longrightarrow> nat (ChunkSize * i) = nat ChunkSize * nat i"
  by (simp add: nat_mult_distrib)

lemma read_chunk_block:
  assumes ws: "well_sized f (length data)" and i: "0 \<le> i" "i < GetChunkNum f"
    and buf: "nat ChunkSize \<le> buflen"
  shows "ReadChunk f data i buflen = Inr (block data (nat i))"
proof -
  from ws obtain st where st: "fcStat f = Some st" "fsSize st = int (length data)"
    using well_sized_stat by blast
  have off: "ChunkSize * i < int (length data)" using ws i chunk_index_valid by blast
  have size: "chunk_read_size f i = min ChunkSize (int (length data) - ChunkSize * i)"
    using st by (simp add: chunk_read_size_def min_def)
  have "block data (nat i) = take (nat (chunk_read_size f i)) (drop (nat (ChunkSize * i)) data)"
  proof (cases "ChunkSize \<le> int (length data) - ChunkSize * i")
    case True
    then show ?thesis by (simp add: block_def size nat_offset i)
  next
    case False
    then have "length (drop (nat (ChunkSize * i)) data) \<le> nat (chunk_read_size f i)"
      and "length (drop (nat (ChunkSize * i)) data) \<le> nat ChunkSize"
      using off by (simp_all add: size)
    then show ?thesis by (simp add: block_def nat_offset i)
  qed
  moreover have "ChunkSize \<le> int buflen" using buf by (simp add: nat_le_iff)
  then have "\<not> int buflen < chunk_read_size f i" using size by (simp add: min_def)
  moreover have "0 \<le> ChunkSize * i" using i by simp
  moreover have "ChunkSize * i + chunk_read_size f i \<le> int (length data)" using size by simp
  ultimately show ?thesis
    using i by (simp add: ReadChunk_def read_at_def)
qed

lemma read_chunk_bad_index:
  "i < 0 \<or> GetChunkNum f \<le> i \<Longrightarrow> ReadChunk f data i buflen = Inl (BadIndex i)"
  by (auto simp: ReadChunk_def)

section \<open>Saving a block\<close>

definition put_block :: "byte list \<Rightarrow> nat \<Rightarrow> byte list \<Rightarrow> byte list" where
  "put_block data k bs =
     take (nat ChunkSize * k) data @ bs @ drop (nat ChunkSize * k + length bs) data"

lemma take_drop_before:
  "i + c \<le> m \<Longrightarrow> take c (drop i (take m xs @ ys)) = take c (drop i (take m xs)) \<or> length xs < i + c"
  by (auto simp: min_def)

lemma length_put_block:
  "nat ChunkSize * k + length bs \<le> length data \<Longrightarrow> length (put_block data k bs) = length data"
  by (simp add: put_block_def)

lemma block_put_same:
  assumes "length bs = length (block data k)" and "nat ChunkSize * k < length data"
  shows "block (put_block data k bs) k = bs"
proof -
  let ?o = "nat ChunkSize * k"
  have len: "length bs = min (nat ChunkSize) (length data - ?o)"
    using assms(1) by (simp add: length_block)
  have "drop ?o (put_block data k bs) = bs @ drop (?o + length bs) data"
    using assms(2) by (simp add: put_block_def)
  moreover have "length bs < nat ChunkSize \<Longrightarrow> drop (?o + length bs) data = []"
    using len by (auto simp: min_def split: if_splits)
  moreover have "length bs \<le> nat ChunkSize" using len by simp
  ultimately show ?thesis
    by (cases "length bs < nat ChunkSize") (simp_all add: block_def)
qed

lemma block_put_other:
  assumes len: "length bs = length (block data k)" and k: "nat ChunkSize * k < length data"
    and "j \<noteq> k"
  shows "block (put_block data k bs) j = block data j"
proof (cases "j < k")
  case True
  then have "nat ChunkSize * Suc j \<le> nat ChunkSize * k" by (intro mult_le_mono) simp_all
  then have le: "nat ChunkSize * j + nat ChunkSize \<le> nat ChunkSize * k" by simp
  then have "drop (nat ChunkSize * j) (put_block data k bs) =
      take (nat ChunkSize * k - nat ChunkSize * j) (drop (nat ChunkSize * j) data) @
      (bs @ drop (nat ChunkSize * k + length bs) data)"
    using k le_trans [OF le_add1 le] by (simp add: put_block_def drop_take)
  with le k show ?thesis
    by (simp add: block_def min_def)
next
  case False
  with \<open>j \<noteq> k\<close> have "nat ChunkSize * Suc k \<le> nat ChunkSize * j" by (intro mult_le_mono) simp_all
  then have le: "nat ChunkSize * k + nat ChunkSize \<le> nat ChunkSize * j" by simp
  have blen: "length bs = min (nat ChunkSize) (length data - nat ChunkSize * k)"
    using len by (simp add: length_block)
  then have "nat ChunkSize * k + length bs \<le> length data"
    using k blen by linarith
  then have tot: "length (put_block data k bs) = length data" by (rule length_put_block)
  show ?thesis
  proof (cases "length bs = nat ChunkSize")
    case True
    with le_trans [OF le_add1 le] le k show ?thesis by (simp add: block_def put_block_def)
  next
    case False
    with blen le have "length data \<le> nat ChunkSize * j" by (auto simp: min_def split: if_splits)
    with tot show ?thesis by (simp add: block_def)
  qed
qed

lemma save_block:
  assumes ws: "well_sized f (length data)"
  shows "Save f data i bs = Inr data' \<longleftrightarrow>
    0 \<le> i \<and> i < GetChunkNum f \<and> length bs = length (block data (nat i)) \<and>
    data' = put_block data (nat i) bs"
proof (cases "0 \<le> i \<and> i < GetChunkNum f")
  case False
  then show ?thesis by (auto simp: Save_def)
next
  case True
  from ws obtain st where st: "fcStat f = Some st" "fsSize st = int (length data)"
    using well_sized_stat by blast
  have cs: "fcChunkSize f = ChunkSize" using ws by (simp add: well_sized_def)
  have off: "ChunkSize * i < int (length data)" using True ws chunk_index_valid by blast
  have no: "nat (i * ChunkSize) = nat ChunkSize * nat i"
    using True by (simp add: nat_offset mult.commute [of i])
  then have noff: "nat ChunkSize * nat i < length data"
    using off True by (simp add: nat_less_iff mult.commute [of i] flip: nat_offset)
  have want: "min ChunkSize (int (length data) - i * ChunkSize) = int (length (block data (nat i)))"
  proof -
    have "int (nat ChunkSize * nat i) = i * ChunkSize" using True by (simp add: mult.commute)
    then have "int (length data - nat ChunkSize * nat i) = int (length data) - i * ChunkSize"
      using noff by (simp only: of_nat_diff less_imp_le)
    then show ?thesis by (simp only: length_block of_nat_min) simp
  qed
  have wr: "write_at data (i * ChunkSize) bs = put_block data (nat i) bs"
    using noff by (simp add: write_at_def put_block_def no)
  show ?thesis
    using True by (auto simp: Save_def st cs want wr Let_def)
qed

lemma save_error_unchanged:
  assumes "well_sized f (length data)"
  shows "(\<exists>e. Save f data i bs = Inl e) \<longleftrightarrow>
    \<not> (0 \<le> i \<and> i < GetChunkNum f \<and> length bs = length (block data (nat i)))"
  using save_block [OF assms, of i bs] by (cases "Save f data i bs") (fastforce, auto)

section \<open>The block store interface\<close>

type_synonym chunked = "file_chunk \<times> byte list"

definition rd_block :: "chunked \<Rightarrow> int \<Rightarrow> chunk_error + byte list" where
  "rd_block c i = ReadChunk (fst c) (snd c) i (nat ChunkSize)"

definition wr_block :: "chunked \<Rightarrow> int \<Rightarrow> byte list \<Rightarrow> chunk_error + chunked" where
  "wr_block c i bs =
     (case Save (fst c) (snd c) i bs of Inl e \<Rightarrow> Inl e | Inr data \<Rightarrow> Inr (fst c, data))"

definition chunked_ok :: "chunked \<Rightarrow> bool" where
  "chunked_ok c \<longleftrightarrow> well_sized (fst c) (length (snd c))"

text \<open>What a series of successful fetches does to the file: each writes one block.\<close>

fun save_blocks ::
  "('f \<Rightarrow> int \<Rightarrow> 'b \<Rightarrow> 'e + 'f) \<Rightarrow> 'f \<Rightarrow> (int \<times> 'b) list \<Rightarrow> 'e + 'f" where
  "save_blocks wr f [] = Inr f"
| "save_blocks wr f ((i, b) # ws) =
     (case wr f i b of Inl e \<Rightarrow> Inl e | Inr f' \<Rightarrow> save_blocks wr f' ws)"

locale block_store =
  fixes rd :: "'f \<Rightarrow> int \<Rightarrow> 'e + 'b"
    and wr :: "'f \<Rightarrow> int \<Rightarrow> 'b \<Rightarrow> 'e + 'f"
    and num :: "'f \<Rightarrow> int"
    and shape :: "'f \<Rightarrow> 's"
    and ok :: "'f \<Rightarrow> bool"
  assumes wr_ok: "ok f \<Longrightarrow> wr f i b = Inr f' \<Longrightarrow> ok f' \<and> shape f' = shape f"
    and rd_wr: "ok f \<Longrightarrow> wr f i b = Inr f' \<Longrightarrow> rd f' i = Inr b"
    and rd_other: "ok f \<Longrightarrow> wr f i b = Inr f' \<Longrightarrow> j \<noteq> i \<Longrightarrow> rd f' j = rd f j"
    and wr_total: "ok f \<Longrightarrow> ok g \<Longrightarrow> shape f = shape g \<Longrightarrow> rd g i = Inr b \<Longrightarrow> \<exists>f'. wr f i b = Inr f'"
    and ext: "ok f \<Longrightarrow> ok g \<Longrightarrow> shape f = shape g \<Longrightarrow>
      (\<And>i. 0 \<le> i \<Longrightarrow> i < num g \<Longrightarrow> rd f i = rd g i) \<Longrightarrow> f = g"
begin

lemma save_blocks_reads:
  assumes "ok f" and "ok g" and "shape f = shape g"
    and "\<forall>(i, b) \<in> set ws. rd g i = Inr b"
  shows "\<exists>f'. save_blocks wr f ws = Inr f' \<and> ok f' \<and> shape f' = shape f \<and>
    (\<forall>j. rd f' j = (if j \<in> fst ` set ws then rd g j else rd f j))"
  using assms
proof (induction ws arbitrary: f)
  case Nil
  then show ?case by simp
next
  case (Cons w ws)
  obtain i b where w: "w = (i, b)" by (cases w)
  with Cons.prems have b: "rd g i = Inr b" by simp
  with Cons.prems obtain f1 where f1: "wr f i b = Inr f1" using wr_total by blast
  with Cons.prems have ok1: "ok f1" "shape f1 = shape g" using wr_ok by auto
  with Cons.IH [of f1] Cons.prems obtain f' where f': "save_blocks wr f1 ws = Inr f'" "ok f'"
      "shape f' = shape f1"
      "\<forall>j. rd f' j = (if j \<in> fst ` set ws then rd g j else rd f1 j)"
    by auto
  have "rd f1 j = (if j = i then rd g i else rd f j)" for j
    using Cons.prems(1) f1 b rd_wr rd_other by auto
  with f' f1 w ok1 Cons.prems(3) show ?case by auto
qed

text \<open>Writing every block of another file, in any order and with repetitions, copies it.\<close>

lemma save_blocks_copy:
  assumes "ok f" and "ok g" and "shape f = shape g"
    and "\<forall>(i, b) \<in> set ws. rd g i = Inr b" and "\<forall>i. 0 \<le> i \<and> i < num g \<longrightarrow> i \<in> fst ` set ws"
  shows "save_blocks wr f ws = Inr g"
proof -
  from save_blocks_reads [OF assms(1-4)] obtain f' where f': "save_blocks wr f ws = Inr f'" "ok f'"
      "shape f' = shape f" "\<forall>j. rd f' j = (if j \<in> fst ` set ws then rd g j else rd f j)"
    by blast
  have "f' = g"
    using f' assms by (intro ext) auto
  with f'(1) show ?thesis by simp
qed

end

lemma chunked_okD: "chunked_ok (f, data) \<Longrightarrow> well_sized f (length data)"
  by (simp add: chunked_ok_def)

lemma rd_block_eq:
  "chunked_ok c \<Longrightarrow>
   rd_block c i = (if 0 \<le> i \<and> i < GetChunkNum (fst c) then Inr (block (snd c) (nat i)) else Inl (BadIndex i))"
  by (auto simp: rd_block_def chunked_ok_def read_chunk_block read_chunk_bad_index not_le not_less)

lemma wr_block_Inr:
  assumes "chunked_ok c"
  shows "wr_block c i bs = Inr c' \<longleftrightarrow>
    0 \<le> i \<and> i < GetChunkNum (fst c) \<and> length bs = length (block (snd c) (nat i)) \<and>
    c' = (fst c, put_block (snd c) (nat i) bs)"
proof -
  have ws: "well_sized (fst c) (length (snd c))" using assms by (simp add: chunked_ok_def)
  show ?thesis
  proof (cases "Save (fst c) (snd c) i bs")
    case (Inl e)
    then show ?thesis using save_error_unchanged [OF ws, of i bs] by (auto simp: wr_block_def)
  next
    case (Inr d)
    then show ?thesis using save_block [OF ws, of i bs d] by (auto simp: wr_block_def)
  qed
qed

lemma chunk_offset_nat:
  "well_sized f n \<Longrightarrow> 0 \<le> i \<Longrightarrow> i < GetChunkNum f \<Longrightarrow> nat ChunkSize * nat i < n"
proof -
  assume ws: "well_sized f n" and i: "0 \<le> i" "i < GetChunkNum f"
  then have "ChunkSize * i < int n" using chunk_index_valid by blast
  then have "nat (ChunkSize * i) < n" using i by (simp add: nat_less_iff)
  with i show ?thesis by (simp add: nat_offset)
qed

lemma put_block_ok:
  assumes "chunked_ok c" and "0 \<le> i" "i < GetChunkNum (fst c)"
    and "length bs = length (block (snd c) (nat i))"
  shows "length (put_block (snd c) (nat i) bs) = length (snd c)"
    and "block (put_block (snd c) (nat i) bs) (nat i) = bs"
    and "0 \<le> j \<Longrightarrow> j \<noteq> i \<Longrightarrow> block (put_block (snd c) (nat i) bs) (nat j) = block (snd c) (nat j)"
proof -
  have off: "nat ChunkSize * nat i < length (snd c)"
    using assms(1-3) chunk_offset_nat by (auto simp: chunked_ok_def)
  have "length bs \<le> length (snd c) - nat ChunkSize * nat i"
    using assms(4) by (simp add: length_block)
  with off show "length (put_block (snd c) (nat i) bs) = length (snd c)"
    by (intro length_put_block) linarith
  show "block (put_block (snd c) (nat i) bs) (nat i) = bs"
    using assms(4) off by (rule block_put_same)
  show "0 \<le> j \<Longrightarrow> j \<noteq> i \<Longrightarrow> block (put_block (snd c) (nat i) bs) (nat j) = block (snd c) (nat j)"
    using assms off by (intro block_put_other) auto
qed

lemma blocks_determine:
  assumes "well_sized f n" and "length xs = n" and "length ys = n"
    and eq: "\<And>i. 0 \<le> i \<Longrightarrow> i < GetChunkNum f \<Longrightarrow> block xs (nat i) = block ys (nat i)"
  shows "xs = ys"
proof -
  let ?k = "nat (GetChunkNum f)"
  have "int n \<le> ChunkSize * GetChunkNum f"
    using chunk_index_valid [OF assms(1), of "GetChunkNum f"] by simp
  then have "nat (int n) \<le> nat (ChunkSize * GetChunkNum f)" by (rule nat_mono)
  then have all: "n \<le> nat ChunkSize * ?k"
    using chunk_num_nonneg [OF assms(1)] by (simp add: nat_offset)
  have "map (block xs) [0..<?k] = map (block ys) [0..<?k]"
  proof (rule map_cong [OF refl])
    fix k
    assume "k \<in> set [0..<?k]"
    then show "block xs k = block ys k" using eq [of "int k"] by simp
  qed
  then have "take (nat ChunkSize * ?k) xs = take (nat ChunkSize * ?k) ys"
    unfolding concat_blocks [symmetric] by (rule arg_cong)
  with all assms(2,3) show ?thesis by simp
qed

lemma wr_block_props:
  assumes "chunked_ok c" and "wr_block c i bs = Inr c'"
  shows "chunked_ok c'" and "fst c' = fst c" and "length (snd c') = length (snd c)"
    and "rd_block c' i = Inr bs" and "j \<noteq> i \<Longrightarrow> rd_block c' j = rd_block c j"
proof -
  from assms have i: "0 \<le> i" "i < GetChunkNum (fst c)"
    and len: "length bs = length (block (snd c) (nat i))"
    and c': "c' = (fst c, put_block (snd c) (nat i) bs)"
    by (simp_all add: wr_block_Inr)
  note put = put_block_ok [OF assms(1) i len]
  show fst: "fst c' = fst c" and snd: "length (snd c') = length (snd c)"
    using c' put(1) by simp_all
  with assms(1) show ok: "chunked_ok c'" by (simp add: chunked_ok_def)
  show "rd_block c' i = Inr bs" using ok i put(2) c' by (simp add: rd_block_eq)
  show "j \<noteq> i \<Longrightarrow> rd_block c' j = rd_block c j"
    using ok assms(1) put(3) c' by (simp add: rd_block_eq)
qed

interpretation chunks: block_store rd_block wr_block
  "\<lambda>c. GetChunkNum (fst c)" "\<lambda>c. (fst c, length (snd c))" chunked_ok
proof (unfold_locales, goal_cases)
  case (1 f i b f')
  then show ?case using wr_block_props(1-3) by simp
next
  case (2 f i b f')
  then show ?case by (rule wr_block_props(4))
next
  case (3 f i b f' j)
  then show ?case by (intro wr_block_props(5))
next
  case (4 f g i b)
  have i: "0 \<le> i \<and> i < GetChunkNum (fst g)" and b: "b = block (snd g) (nat i)"
    using 4(4) unfolding rd_block_eq [OF 4(2)] by (simp_all split: if_splits)
  have shape: "fst f = fst g" "length (snd f) = length (snd g)" using 4(3) by simp_all
  then have len: "length b = length (block (snd f) (nat i))"
    using b by (simp add: length_block)
  have "wr_block f i b = Inr (fst f, put_block (snd f) (nat i) b)"
    unfolding wr_block_Inr [OF 4(1)] using i shape(1) len by (intro conjI) simp_all
  then show ?case by blast
next
  case (5 f g)
  have shape: "fst f = fst g" "length (snd f) = length (snd g)" using 5(3) by simp_all
  have blocks: "block (snd f) (nat i) = block (snd g) (nat i)"
    if i: "0 \<le> i" "i < GetChunkNum (fst g)" for i
    using 5(4) [OF i] i unfolding rd_block_eq [OF 5(1)] rd_block_eq [OF 5(2)] shape(1) by simp
  have ws: "well_sized (fst g) (length (snd g))" using 5(2) by (simp only: chunked_ok_def)
  have "snd f = snd g"
    using ws shape(2) refl blocks by (rule blocks_determine)
  with shape(1) show ?case by (rule prod_eqI)
qed

section \<open>Properties\<close>

text \<open>For a file of the size that was stat'ed, reading chunk \<open>i\<close> gives block \<open>i\<close> of its bytes and
  every other index is refused; the chunks in order are the file.\<close>

theorem chunks_partition:
  assumes "well_sized f (length data)" and "nat ChunkSize \<le> buflen"
  shows "ReadChunk f data i buflen =
      (if 0 \<le> i \<and> i < GetChunkNum f then Inr (block data (nat i)) else Inl (BadIndex i)) \<and>
    concat (map (block data) [0..<nat (GetChunkNum f)]) = data"
proof
  show "ReadChunk f data i buflen =
      (if 0 \<le> i \<and> i < GetChunkNum f then Inr (block data (nat i)) else Inl (BadIndex i))"
    using assms read_chunk_block read_chunk_bad_index by auto
  have n: "0 \<le> GetChunkNum f" using assms(1) by (rule chunk_num_nonneg)
  have "int (length data) \<le> ChunkSize * GetChunkNum f"
    using chunk_index_valid [OF assms(1), of "GetChunkNum f"] by simp
  then have "length data \<le> nat (ChunkSize * GetChunkNum f)" using n by simp
  then have "length data \<le> nat ChunkSize * nat (GetChunkNum f)" using nat_offset [OF n] by simp
  then show "concat (map (block data) [0..<nat (GetChunkNum f)]) = data"
    by (simp add: concat_blocks)
qed

definition sample_chunk :: file_chunk where
  "sample_chunk =
     NewFileChunk 3 (Some \<lparr>fsName = ''f'', fsSize = 2, fsModTime = 0, fsIdent = 1, fsRegular = True\<rparr>)"

lemma sample_sized: "well_sized sample_chunk (length [b1, b2 :: byte])"
  by (simp add: sample_chunk_def well_sized_def NewFileChunk_def)

theorem chunks_partition_witness:
  "ReadChunk sample_chunk [7, 9] 1 (nat ChunkSize) = Inl (BadIndex 1) \<and>
   concat (map (block [7, 9]) [0..<nat (GetChunkNum sample_chunk)]) = [7, 9]"
  using chunks_partition [OF sample_sized [of 7 9] order_refl, of 1]
    chunk_num_eq [OF sample_sized [of 7 9]]
  by (simp add: ChunkSize_num)

text \<open>\<^verbatim>\<open>Save\<close> accepts a block exactly when the index is one of the file's chunks and the data has
  the length of that chunk; it then changes that chunk only, and every refusal leaves the file as
  it was.\<close>

theorem save_exact:
  assumes "well_sized f (length data)"
  shows "Save f data i bs = Inr data' \<longleftrightarrow>
    0 \<le> i \<and> i < GetChunkNum f \<and> length bs = length (block data (nat i)) \<and>
    data' = put_block data (nat i) bs"
  using assms by (rule save_block)

theorem save_exact_witness: "Save sample_chunk [7, 9] 0 [1, 2] = Inr [1, 2]"
proof -
  have "0 < GetChunkNum sample_chunk"
    using chunk_num_eq [OF sample_sized [of 7 9]] by (simp add: ChunkSize_num)
  then show ?thesis
    using save_exact [OF sample_sized, of 7 9 0 "[1, 2]" "[1, 2]"]
    by (simp add: put_block_def length_block ChunkSize_num)
qed

text \<open>A file of the same geometry into which every chunk of a source file was saved is the
  source file, in whatever order the chunks arrived and however often one arrived again.\<close>

theorem download_copies_source:
  assumes "chunked_ok (f, new)" and "chunked_ok (f, src)" and "length new = length src"
    and "\<forall>(i, b) \<in> set ws. rd_block (f, src) i = Inr b"
    and "\<forall>i. 0 \<le> i \<and> i < GetChunkNum f \<longrightarrow> i \<in> fst ` set ws"
  shows "save_blocks wr_block (f, new) ws = Inr (f, src)"
  by (rule chunks.save_blocks_copy) (use assms in simp_all)

theorem download_copies_source_witness:
  "save_blocks wr_block (sample_chunk, [0, 0]) [(0, [7, 9]), (0, [7, 9])] = Inr (sample_chunk, [7, 9])"
proof (rule download_copies_source)
  have one: "GetChunkNum sample_chunk = 1"
    using chunk_num_eq [OF sample_sized [of 7 9]] by (simp add: ChunkSize_num)
  show "\<forall>(i, b) \<in> set [(0, [7, 9]), (0, [7, 9])]. rd_block (sample_chunk, [7, 9]) i = Inr b"
    using read_chunk_block [OF sample_sized, of 0 "nat ChunkSize" 7 9] one
    by (simp add: rd_block_def block_def ChunkSize_num)
  show "\<forall>i. 0 \<le> i \<and> i < GetChunkNum sample_chunk \<longrightarrow> i \<in> fst ` set [(0, [7, 9]), (0, [7, 9 :: byte])]"
    using one by auto
qed (use sample_sized in \<open>simp_all add: chunked_ok_def\<close>)

text \<open>The checksum that guards a chunk detects every corruption of a single byte.\<close>

theorem checksum_detects_byte:
  assumes "a \<noteq> b"
  shows "ChecksumIEEE (xs @ a # ys) \<noteq> ChecksumIEEE (xs @ b # ys)"
  using assms by (rule checksum_one_byte)

theorem checksum_detects_byte_witness: "ChecksumIEEE [7, 1, 9] \<noteq> ChecksumIEEE [7, 2, 9]"
  using checksum_detects_byte [of 1 2 "[7]" "[9]"] by simp

end
