(* ===== verification/Zone.thy ===== *)
theory Zone
  imports GoPrelude
begin

text \<open>
  Zones (\<^verbatim>\<open>zoneOf\<close> in \<^verbatim>\<open>internal/gsp_sdk/server/control.go\<close>): the label a peer is grouped
  under, its explicit one or the prefix of its address. The standard library functions it uses,
  \<^verbatim>\<open>net.SplitHostPort\<close>, \<^verbatim>\<open>net.ParseIP\<close> and \<^verbatim>\<open>net.JoinHostPort\<close>, are modelled on strings.
\<close>

section \<open>SplitHostPort and JoinHostPort\<close>

fun first_index :: "char \<Rightarrow> string \<Rightarrow> nat option" where
  "first_index c [] = None"
| "first_index c (x # xs) = (if x = c then Some 0 else map_option Suc (first_index c xs))"

fun last_index :: "char \<Rightarrow> string \<Rightarrow> nat option" where
  "last_index c [] = None"
| "last_index c (x # xs) =
     (case last_index c xs of Some i \<Rightarrow> Some (Suc i) | None \<Rightarrow> if x = c then Some 0 else None)"

text \<open>\<^verbatim>\<open>net.SplitHostPort\<close>; \<open>None\<close> for each of its errors (missing port, missing or unexpected
  bracket, too many colons).\<close>

definition SplitHostPort :: "string \<Rightarrow> (string \<times> string) option" where
  "SplitHostPort s =
     (case last_index (CHR '':'') s of
        None \<Rightarrow> None
      | Some i \<Rightarrow>
          if hd s = CHR ''[''
          then (case first_index (CHR '']'') s of
                  None \<Rightarrow> None
                | Some e \<Rightarrow>
                    if Suc e \<noteq> i then None
                    else if CHR ''['' \<in> set (drop 1 s) \<or> CHR '']'' \<in> set (drop (Suc e) s) then None
                    else Some (take (e - 1) (drop 1 s), drop (Suc i) s))
          else if CHR '':'' \<in> set (take i s) then None
          else if CHR ''['' \<in> set s \<or> CHR '']'' \<in> set s then None
          else Some (take i s, drop (Suc i) s))"

definition JoinHostPort :: "string \<Rightarrow> string \<Rightarrow> string" where
  "JoinHostPort host port =
     (if CHR '':'' \<in> set host then CHR ''['' # host @ '']:'' @ port else host @ CHR '':'' # port)"

section \<open>ParseIP\<close>

text \<open>An octet of a dotted address: digits, no leading zero, at most 255.\<close>

definition parse_octet :: "string \<Rightarrow> nat option" where
  "parse_octet p =
     (if p \<noteq> [] \<and> list_all is_digit p \<and> (length p = 1 \<or> hd p \<noteq> CHR ''0'') \<and> digits_val p \<le> 255
      then Some (digits_val p) else None)"

definition parse_v4 :: "string \<Rightarrow> (nat \<times> nat \<times> nat \<times> nat) option" where
  "parse_v4 s =
     (case map parse_octet (split_at (CHR ''.'') s) of
        [Some a, Some b, Some c, Some d] \<Rightarrow> Some (a, b, c, d)
      | _ \<Rightarrow> None)"

definition hex_val :: "char \<Rightarrow> nat option" where
  "hex_val c =
     (let n = (of_char c :: nat)
      in if 48 \<le> n \<and> n \<le> 57 then Some (n - 48)
         else if 97 \<le> n \<and> n \<le> 102 then Some (n - 87)
         else if 65 \<le> n \<and> n \<le> 70 then Some (n - 55)
         else None)"

definition hex_digits :: "string \<Rightarrow> string" where
  "hex_digits s = takeWhile (\<lambda>c. hex_val c \<noteq> None) s"

definition hex_group :: "string \<Rightarrow> nat" where
  "hex_group h = foldl (\<lambda>a c. 16 * a + (case hex_val c of None \<Rightarrow> 0 | Some v \<Rightarrow> v)) 0 h"

text \<open>The groups of an IPv6 address, 16 bits each, with the position of \<open>::\<close>. At most \<open>k\<close>
  more groups fit; the last two may be written as a dotted address.\<close>

fun parse_groups :: "nat \<Rightarrow> string \<Rightarrow> nat list \<Rightarrow> nat option \<Rightarrow> (nat list \<times> nat option) option" where
  "parse_groups 0 s gs e = (if s = [] then Some (gs, e) else None)"
| "parse_groups (Suc k) s gs e =
     (let h = hex_digits s; rest = drop (length h) s
      in if h = [] \<or> 4 < length h then None
         else if rest \<noteq> [] \<and> hd rest = CHR ''.''
         then (if (e = None \<and> length gs \<noteq> 6) \<or> 6 < length gs then None
               else (case parse_v4 s of
                       None \<Rightarrow> None
                     | Some (a, b, c, d) \<Rightarrow> Some (gs @ [256 * a + b, 256 * c + d], e)))
         else
           (let gs' = gs @ [hex_group h]
            in case rest of
                 [] \<Rightarrow> Some (gs', e)
               | x # r \<Rightarrow>
                   if x \<noteq> CHR '':'' \<or> r = [] then None
                   else if hd r = CHR '':''
                   then (if e \<noteq> None then None
                         else if tl r = [] then Some (gs', Some (length gs'))
                         else parse_groups k (tl r) gs' (Some (length gs')))
                   else parse_groups k r gs' e))"

definition expand_groups :: "nat list \<times> nat option \<Rightarrow> nat list option" where
  "expand_groups ge =
     (case ge of (gs, e) \<Rightarrow>
        if length gs < 8
        then (case e of None \<Rightarrow> None | Some p \<Rightarrow> Some (take p gs @ replicate (8 - length gs) 0 @ drop p gs))
        else if e \<noteq> None then None else Some gs)"

definition parse_v6 :: "string \<Rightarrow> nat list option" where
  "parse_v6 s =
     (if take 2 s = ''::''
      then (if drop 2 s = [] then Some (replicate 8 0)
            else Option.bind (parse_groups 8 (drop 2 s) [] (Some 0)) expand_groups)
      else Option.bind (parse_groups 8 s [] None) expand_groups)"

text \<open>\<^verbatim>\<open>net.ParseIP\<close> as the eight groups of \<^verbatim>\<open>To16\<close>. An address with a zone after \<open>%\<close> is
  refused, since no digit is a percent sign.\<close>

definition ParseIP :: "string \<Rightarrow> nat list option" where
  "ParseIP s =
     (case filter (\<lambda>c. c = CHR ''.'' \<or> c = CHR '':'') s of
        [] \<Rightarrow> None
      | x # _ \<Rightarrow>
          if x = CHR ''.''
          then map_option (\<lambda>(a, b, c, d). [0, 0, 0, 0, 0, 65535, 256 * a + b, 256 * c + d]) (parse_v4 s)
          else parse_v6 s)"

text \<open>\<^verbatim>\<open>To4\<close>: the octets of an address in the range \<open>::ffff:0:0/96\<close>.\<close>

definition To4 :: "nat list \<Rightarrow> (nat \<times> nat \<times> nat \<times> nat) option" where
  "To4 g =
     (if take 6 g = [0, 0, 0, 0, 0, 65535]
      then Some (g ! 6 div 256, g ! 6 mod 256, g ! 7 div 256, g ! 7 mod 256) else None)"

section \<open>zoneOf\<close>

definition SchedDefaultZonePrefixBits :: int where
  "SchedDefaultZonePrefixBits = 24"

definition hex_digit :: "nat \<Rightarrow> char" where
  "hex_digit d = (if d < 10 then char_of (48 + d) else char_of (87 + d))"

text \<open>\<^verbatim>\<open>%x\<close> of a two-byte slice: four hexadecimal digits.\<close>

definition format_group :: "nat \<Rightarrow> string" where
  "format_group g =
     [hex_digit (g div 4096 mod 16), hex_digit (g div 256 mod 16), hex_digit (g div 16 mod 16), hex_digit (g mod 16)]"

definition zoneOf :: "string \<Rightarrow> string \<Rightarrow> string" where
  "zoneOf ipPort explicit =
     (if explicit \<noteq> [] then explicit
      else
        (let host = (case SplitHostPort ipPort of Some (h, _) \<Rightarrow> h | None \<Rightarrow> ipPort)
         in case ParseIP host of
              None \<Rightarrow> []
            | Some ip \<Rightarrow>
                (case To4 ip of
                   Some (a, b, c, d) \<Rightarrow>
                     format_int (int a) @ ''.'' @ format_int (int b) @ ''.'' @ format_int (int c) @ ''.0/'' @
                     format_int SchedDefaultZonePrefixBits
                 | None \<Rightarrow>
                     format_group (ip ! 0) @ '':'' @ format_group (ip ! 1) @ '':'' @ format_group (ip ! 2) @ ''::/48'')))"

section \<open>Lemmas\<close>

lemma last_index_None: "last_index c s = None \<longleftrightarrow> c \<notin> set s"
  by (induction s) (auto split: option.splits)

lemma last_index_append: "c \<notin> set q \<Longrightarrow> last_index c (p @ c # q) = Some (length p)"
proof -
  assume "c \<notin> set q"
  then have "last_index c q = None" by (simp add: last_index_None)
  then show ?thesis by (induction p) auto
qed

lemma first_index_append: "c \<notin> set p \<Longrightarrow> first_index c (p @ c # q) = Some (length p)"
  by (induction p) auto

text \<open>A host without brackets and a port without colons or brackets are split again after joining.\<close>

definition plain_part :: "string \<Rightarrow> bool" where
  "plain_part s \<longleftrightarrow> CHR ''['' \<notin> set s \<and> CHR '']'' \<notin> set s"

lemma split_join_host_port:
  assumes host: "plain_part host" and port: "plain_part port" "CHR '':'' \<notin> set port"
  shows "SplitHostPort (JoinHostPort host port) = Some (host, port)"
proof (cases "CHR '':'' \<in> set host")
  case True
  let ?s = "CHR ''['' # host @ '']:'' @ port"
  have "?s = (CHR ''['' # host @ '']'') @ CHR '':'' # port" by simp
  then have "last_index (CHR '':'') ?s = Some (length (CHR ''['' # host @ '']''))"
    using last_index_append [OF port(2)] by metis
  moreover have "first_index (CHR '']'') ?s = Some (Suc (length host))"
    using host first_index_append [of "CHR '']''" host "CHR '':'' # port"] by (simp add: plain_part_def)
  ultimately show ?thesis
    using True host port by (simp add: JoinHostPort_def SplitHostPort_def plain_part_def)
next
  case False
  have "last_index (CHR '':'') (host @ CHR '':'' # port) = Some (length host)"
    using port(2) by (rule last_index_append)
  moreover have "hd (host @ CHR '':'' # port) \<noteq> CHR ''[''"
    using host by (cases host) (auto simp: plain_part_def)
  ultimately show ?thesis
    using False host port by (simp add: JoinHostPort_def SplitHostPort_def plain_part_def)
qed

text \<open>A dotted address parses to its octets.\<close>

definition dotted :: "nat \<Rightarrow> nat \<Rightarrow> nat \<Rightarrow> nat \<Rightarrow> string" where
  "dotted a b c d = join_with (CHR ''.'') (map (\<lambda>x. format_int (int x)) [a, b, c, d])"

lemma hd_nat_digits_zero: "0 < n \<Longrightarrow> hd (nat_digits n) \<noteq> CHR ''0''"
proof (induction n rule: nat_digits.induct)
  case (1 n)
  have "digit_char k \<noteq> CHR ''0''" if "0 < k" "k < 10" for k
  proof
    assume "digit_char k = CHR ''0''"
    then have "(of_char (digit_char k) :: nat) = 48" by simp
    with that show False by (simp add: of_char_digit)
  qed
  with 1 show ?case
    by (subst nat_digits.simps) (auto simp: nat_digits_nonempty)
qed

lemma parse_octet_format: "x < 256 \<Longrightarrow> parse_octet (format_int (int x)) = Some x"
proof -
  assume x: "x < 256"
  have "length (nat_digits x) = 1 \<or> hd (nat_digits x) \<noteq> CHR ''0''"
    using hd_nat_digits_zero [of x] by (cases "x = 0") (simp_all add: nat_digits.simps [of 0])
  with x show ?thesis
    by (simp add: parse_octet_def format_int_def nat_digits_nonempty nat_digits_digits digits_val_nat_digits)
qed

lemma digits_only: "c \<in> set (format_int (int x)) \<Longrightarrow> is_digit c"
  using nat_digits_digits [of x] by (auto simp: format_int_def list_all_iff)

lemma no_sep_in_octet: "\<not> is_digit c \<Longrightarrow> c \<notin> set (format_int (int x))"
  using digits_only by blast

lemma separators_not_digits [simp]:
  "\<not> is_digit (CHR ''.'')" "\<not> is_digit (CHR '':'')" "\<not> is_digit (CHR ''['')" "\<not> is_digit (CHR '']'')"
  "\<not> is_digit (CHR ''/'')"
  by (simp_all add: is_digit_def)

lemma split_dotted: "split_at (CHR ''.'') (dotted a b c d) = map (\<lambda>x. format_int (int x)) [a, b, c, d]"
  unfolding dotted_def by (rule split_join) (auto simp: no_sep_in_octet)

lemma parse_dotted:
  "a < 256 \<Longrightarrow> b < 256 \<Longrightarrow> c < 256 \<Longrightarrow> d < 256 \<Longrightarrow> parse_v4 (dotted a b c d) = Some (a, b, c, d)"
  by (simp add: parse_v4_def split_dotted parse_octet_format)

lemma dotted_chars: "x \<in> set (dotted a b c d) \<Longrightarrow> x = CHR ''.'' \<or> is_digit x"
  by (auto simp: dotted_def dest: digits_only)

lemma ParseIP_dotted:
  assumes "a < 256" "b < 256" "c < 256" "d < 256"
  shows "ParseIP (dotted a b c d) = Some [0, 0, 0, 0, 0, 65535, 256 * a + b, 256 * c + d]"
proof -
  let ?f = "filter (\<lambda>c. c = CHR ''.'' \<or> c = CHR '':'') (dotted a b c d)"
  have "CHR ''.'' \<in> set ?f" by (simp add: dotted_def)
  then obtain x xs where f: "?f = x # xs" by (cases ?f) auto
  then have "x \<in> set ?f" by simp
  then have "x = CHR ''.''" using dotted_chars [of x a b c d] by auto
  with f show ?thesis using assms by (simp add: ParseIP_def parse_dotted)
qed

lemma zoneOf_dotted:
  assumes "a < 256" "b < 256" "c < 256" "d < 256" and port: "plain_part port" "CHR '':'' \<notin> set port"
  shows "zoneOf (JoinHostPort (dotted a b c d) port) [] =
    join_with (CHR ''.'') [format_int (int a), format_int (int b), format_int (int c), ''0/24'']"
proof -
  have "plain_part (dotted a b c d)"
    unfolding plain_part_def using dotted_chars [of _ a b c d] by fastforce
  then have "SplitHostPort (JoinHostPort (dotted a b c d) port) = Some (dotted a b c d, port)"
    using port by (rule split_join_host_port)
  moreover have "format_int SchedDefaultZonePrefixBits = ''24''"
    by (simp add: format_int_def SchedDefaultZonePrefixBits_def nat_digits.simps digit_char_def char_of_def
        bit_iff_odd)
  ultimately show ?thesis
    using assms(1-4) by (simp add: zoneOf_def ParseIP_dotted To4_def)
qed

section \<open>Properties\<close>

text \<open>Peers without a label are grouped by their network: two IPv4 addresses, whatever their
  ports, are in the same zone exactly when their first three octets agree.\<close>

theorem zone_is_network:
  assumes "a < 256" "b < 256" "c < 256" "d < 256" "a' < 256" "b' < 256" "c' < 256" "d' < 256"
    and "plain_part p" "CHR '':'' \<notin> set p" "plain_part p'" "CHR '':'' \<notin> set p'"
  shows "zoneOf (JoinHostPort (dotted a b c d) p) [] = zoneOf (JoinHostPort (dotted a' b' c' d') p') [] \<longleftrightarrow>
    a = a' \<and> b = b' \<and> c = c'"
proof -
  let ?z = "\<lambda>a b c. [format_int (int a), format_int (int b), format_int (int c), ''0/24'']"
  have split: "split_at (CHR ''.'') (join_with (CHR ''.'') (?z a b c)) = ?z a b c" for a b c
    by (rule split_join) (auto simp: no_sep_in_octet)
  have "join_with (CHR ''.'') (?z a b c) = join_with (CHR ''.'') (?z a' b' c') \<longleftrightarrow> ?z a b c = ?z a' b' c'"
    using split by metis
  then show ?thesis using assms by (auto simp: zoneOf_dotted dest!: format_int_inj)
qed

theorem zone_is_network_witness:
  "zoneOf (JoinHostPort (dotted 10 0 3 7) ''80'') [] = zoneOf (JoinHostPort (dotted 10 0 3 9) ''99'') [] \<and>
   zoneOf (JoinHostPort (dotted 10 0 3 7) ''80'') [] \<noteq> zoneOf (JoinHostPort (dotted 10 0 4 7) ''80'') []"
  using zone_is_network [of 10 0 3 7 10 0 3 9 "''80''" "''99''"]
    zone_is_network [of 10 0 3 7 10 0 4 7 "''80''" "''80''"]
  by (simp add: plain_part_def)

end
