(* ===== verification/Registry.thy ===== *)
theory Registry
  imports Complex_Main FileChunks Zone
begin

text \<open>
  The session's registry (\<^verbatim>\<open>peer.go\<close>, \<^verbatim>\<open>tool.go\<close>, \<^verbatim>\<open>session.go\<close> and \<^verbatim>\<open>SetPeerZone\<close> in
  \<^verbatim>\<open>internal/gsp_sdk/server\<close>): who the peers are, which chunks they own, the content the node
  serves, its upload slots, its accepted connections and the files it keeps open. Each method
  body between \<^verbatim>\<open>Lock\<close> and \<^verbatim>\<open>Unlock\<close> is one function on the record. Times are nanoseconds since
  Go's zero time, so \<open>0\<close> is \<^verbatim>\<open>time.Time{}\<close>; the clock is an argument. \<^verbatim>\<open>float64\<close> speeds are reals.
  A nil lease map and an empty one are the same here: every write in the code is guarded.
\<close>

type_synonym time = int
type_synonym conn = nat
type_synonym fd = nat

definition second :: time where
  "second = 10 ^ 9"

record peer =
  peConnAddr :: string
  peConn :: "conn option"
  peConnNum :: int
  peSpeedEwma :: real
  peZone :: string
  peLastFailure :: time
  peFailStreak :: int
  peCooldownTil :: time
  peLeases :: "(string, time) gomap"

record session =
  seUUID :: string
  seAddr :: string
  sePeers :: "(string, peer) gomap"
  seChunkOwners :: "(int, string list) gomap"
  sePeerOwners :: "(string, int list) gomap"
  seChunkHash :: "(int, 32 word) gomap"
  seChunkProvider :: file_chunk
  seIsMain :: bool
  seDone :: bool
  seUploads :: nat
  seUploadLimit :: int
  seBackoffUntil :: time
  seCoordinating :: bool
  sePrefetch :: bool
  seConnections :: "conn list"
  seSockets :: "conn list"
  seFiles :: "fd list"
  seOpenFiles :: "fd list"

text \<open>\<open>seUploads\<close> is the fill of the channel \<^verbatim>\<open>uploadSem\<close>, \<open>seSockets\<close> are the accepted sockets
  not closed yet and \<open>seOpenFiles\<close> the descriptors not closed yet.\<close>

definition new_peer :: "string \<Rightarrow> conn option \<Rightarrow> peer" where
  "new_peer addr conn =
     \<lparr>peConnAddr = addr, peConn = conn, peConnNum = 0, peSpeedEwma = 0, peZone = [],
      peLastFailure = 0, peFailStreak = 0, peCooldownTil = 0, peLeases = []\<rparr>"

definition NewGspSession :: "string \<Rightarrow> string \<Rightarrow> session" where
  "NewGspSession addr uuid =
     \<lparr>seUUID = uuid, seAddr = addr, sePeers = [], seChunkOwners = [], sePeerOwners = [],
      seChunkHash = [], seChunkProvider = empty_chunk, seIsMain = False, seDone = False, seUploads = 0,
      seUploadLimit = 0, seBackoffUntil = 0, seCoordinating = False, sePrefetch = False,
      seConnections = [], seSockets = [], seFiles = [], seOpenFiles = []\<rparr>"

section \<open>Peers and ownership\<close>

definition AddPeer :: "string \<Rightarrow> string \<Rightarrow> conn option \<Rightarrow> session \<Rightarrow> session" where
  "AddPeer uuid addr conn s =
     (case mget (sePeers s) uuid of
        Some p \<Rightarrow> s\<lparr>sePeers := mput uuid (p\<lparr>peConnAddr := addr, peConn := conn\<rparr>) (sePeers s)\<rparr>
      | None \<Rightarrow> s\<lparr>sePeers := mput uuid (new_peer addr conn) (sePeers s)\<rparr>)"

definition RemovePeer :: "string \<Rightarrow> session \<Rightarrow> session" where
  "RemovePeer uuid s =
     s\<lparr>seChunkOwners := foldl (\<lambda>m i. mset_del i uuid m) (seChunkOwners s) (mset_of (sePeerOwners s) uuid),
       sePeerOwners := mdel uuid (sePeerOwners s),
       sePeers := mdel uuid (sePeers s)\<rparr>"

definition AddBlockOwner :: "int \<Rightarrow> string \<Rightarrow> session \<Rightarrow> session" where
  "AddBlockOwner i uuid s =
     (if fcStat (seChunkProvider s) = None \<or> i < 0 \<or> GetChunkNum (seChunkProvider s) \<le> i \<or>
         mget (sePeers s) uuid = None
      then s
      else s\<lparr>sePeerOwners := mset_add uuid i (sePeerOwners s),
             seChunkOwners := mset_add i uuid (seChunkOwners s)\<rparr>)"

definition SetControlConn :: "string \<Rightarrow> conn option \<Rightarrow> session \<Rightarrow> session" where
  "SetControlConn uuid conn s =
     (case mget (sePeers s) uuid of
        Some p \<Rightarrow> s\<lparr>sePeers := mput uuid (p\<lparr>peConn := conn\<rparr>) (sePeers s)\<rparr>
      | None \<Rightarrow> s)"

definition SetPeerZone :: "string \<Rightarrow> string \<Rightarrow> session \<Rightarrow> session" where
  "SetPeerZone uuid zone s =
     (case mget (sePeers s) uuid of
        Some p \<Rightarrow> s\<lparr>sePeers := mput uuid (p\<lparr>peZone := zoneOf (peConnAddr p) zone\<rparr>) (sePeers s)\<rparr>
      | None \<Rightarrow> s)"

text \<open>A lease is held under the requester and the chunk index.\<close>

definition leaseKey :: "string \<Rightarrow> int \<Rightarrow> string" where
  "leaseKey requester index = requester @ '':'' @ format_int index"

text \<open>The end of a lease, as in \<^verbatim>\<open>UpdatePeer\<close> and \<^verbatim>\<open>release\<close>.\<close>

definition drop_lease :: "string \<Rightarrow> peer \<Rightarrow> peer" where
  "drop_lease key p =
     (if mget (peLeases p) key = None then p
      else p\<lparr>peLeases := mdel key (peLeases p),
             peConnNum := (if 0 < peConnNum p then peConnNum p - 1 else peConnNum p)\<rparr>)"

text \<open>The failure count of a provider and how long it rests: 2, 4, 8 and then 16 seconds.\<close>

definition fail_peer :: "time \<Rightarrow> time \<Rightarrow> peer \<Rightarrow> peer" where
  "fail_peer now now' p =
     p\<lparr>peFailStreak := peFailStreak p + 1, peLastFailure := now,
       peCooldownTil := now' + 2 ^ nat (min (peFailStreak p + 1) 4) * second,
       peSpeedEwma := peSpeedEwma p * 0.5\<rparr>"

definition succeed_peer :: "int \<Rightarrow> peer \<Rightarrow> peer" where
  "succeed_peer speed p =
     p\<lparr>peFailStreak := 0, peCooldownTil := 0,
       peSpeedEwma := (if peSpeedEwma p \<le> 0 then real_of_int speed
                       else peSpeedEwma p * 0.7 + real_of_int speed * 0.3)\<rparr>"

text \<open>\<open>now\<close> and \<open>now'\<close> are the two readings of the clock.\<close>

definition UpdatePeer ::
  "string \<Rightarrow> int \<Rightarrow> string \<Rightarrow> int \<Rightarrow> string \<Rightarrow> time \<Rightarrow> time \<Rightarrow> session \<Rightarrow> session" where
  "UpdatePeer provider speed status index requester now now' s =
     (case mget (sePeers s) provider of
        None \<Rightarrow> s
      | Some p0 \<Rightarrow>
          (let p = drop_lease (leaseKey requester index) p0
           in if status = ''failed''
              then (let s1 = s\<lparr>sePeers := mput provider (fail_peer now now' p) (sePeers s)\<rparr>
                    in if provider \<noteq> seUUID s
                       then s1\<lparr>seChunkOwners := mset_del index provider (seChunkOwners s),
                               sePeerOwners := mset_del provider index (sePeerOwners s)\<rparr>
                       else s1)
              else s\<lparr>sePeers := mput provider (succeed_peer speed p) (sePeers s)\<rparr>))"

section \<open>The served content\<close>

definition AddChunk :: "int \<Rightarrow> 32 word \<Rightarrow> session \<Rightarrow> session" where
  "AddChunk i checksum s =
     (if mget (seChunkHash s) i = None then s\<lparr>seChunkHash := mput i checksum (seChunkHash s)\<rparr> else s)"

definition HasChunk :: "int \<Rightarrow> session \<Rightarrow> bool" where
  "HasChunk i s =
     (if fcStat (seChunkProvider s) = None \<or> i < 0 \<or> GetChunkNum (seChunkProvider s) \<le> i then False
      else if seIsMain s then True
      else mget (seChunkHash s) i \<noteq> None)"

datatype read_error = SourceChanged | ChunkFailed chunk_error

text \<open>\<open>before\<close> and \<open>after\<close> are what \<^verbatim>\<open>Stat\<close> answers around the read of a file with the bytes
  \<open>data\<close>.\<close>

definition SessionReadChunk ::
  "byte list \<Rightarrow> file_stat option \<Rightarrow> file_stat option \<Rightarrow> int \<Rightarrow> nat \<Rightarrow> session \<Rightarrow> read_error + byte list"
where
  "SessionReadChunk data before after i buflen s =
     (let ck = seChunkProvider s
      in if seIsMain s \<and> \<not> Unchanged ck before then Inl SourceChanged
         else (case ReadChunk ck data i buflen of
                 Inl e \<Rightarrow> Inl (ChunkFailed e)
               | Inr bs \<Rightarrow> if seIsMain s \<and> \<not> Unchanged ck after then Inl SourceChanged else Inr bs))"

text \<open>\<^verbatim>\<open>IndexValid\<close>: the lookup, the read without the lock (\<open>ck\<close> is the provider it copied), and the
  store under the lock again.\<close>

definition index_lookup :: "int \<Rightarrow> session \<Rightarrow> (32 word) option" where
  "index_lookup i s = mget (seChunkHash s) i"

definition index_compute :: "file_chunk \<Rightarrow> bool \<Rightarrow> byte list \<Rightarrow> int \<Rightarrow> (32 word) option" where
  "index_compute ck main data i =
     (if fcStat ck = None \<or> i < 0 \<or> GetChunkNum ck \<le> i \<or> \<not> main then None
      else (case ReadChunk ck data i (nat ChunkSize) of
              Inl e \<Rightarrow> None
            | Inr bs \<Rightarrow> if bs = [] then None else Some (ChecksumIEEE bs)))"

definition index_store :: "int \<Rightarrow> 32 word \<Rightarrow> session \<Rightarrow> session" where
  "index_store i c s = s\<lparr>seChunkHash := mput i c (seChunkHash s)\<rparr>"

definition IndexValid :: "byte list \<Rightarrow> int \<Rightarrow> session \<Rightarrow> (bool \<times> 32 word) \<times> session" where
  "IndexValid data i s =
     (case index_lookup i s of
        Some c \<Rightarrow> ((True, c), s)
      | None \<Rightarrow>
          (case index_compute (seChunkProvider s) (seIsMain s) data i of
             None \<Rightarrow> ((False, 0), s)
           | Some c \<Rightarrow> ((True, c), index_store i c s)))"

definition StartCoordinator :: "session \<Rightarrow> session" where
  "StartCoordinator s = (if seDone s \<or> seCoordinating s then s else s\<lparr>seCoordinating := True\<rparr>)"

datatype send_error = StatFailed | NotRegular

text \<open>\<open>st\<close> is the first \<^verbatim>\<open>Stat\<close>, \<open>st'\<close> the one in \<^verbatim>\<open>NewFileChunk\<close>.\<close>

definition BeSendMain ::
  "fd \<Rightarrow> file_stat option \<Rightarrow> file_stat option \<Rightarrow> session \<Rightarrow> send_error option \<times> session" where
  "BeSendMain f st st' s =
     (case st of
        None \<Rightarrow> (Some StatFailed, s)
      | Some info \<Rightarrow>
          if \<not> fsRegular info then (Some NotRegular, s)
          else
            (let ck = NewFileChunk f st';
                 s1 = s\<lparr>seChunkProvider := ck, seIsMain := True,
                        sePeers := mput (seUUID s) (new_peer [] None) (sePeers s),
                        seChunkOwners := foldl (\<lambda>m i. mset_add i (seUUID s) m) (seChunkOwners s)
                          (map int [0..<nat (GetChunkNum ck)])\<rparr>
             in (None, StartCoordinator s1)))"

definition BeSendSub :: "fd \<Rightarrow> file_stat option \<Rightarrow> session \<Rightarrow> session" where
  "BeSendSub f st s =
     s\<lparr>seChunkHash := [], seOpenFiles := filter (\<lambda>x. x \<notin> set (seFiles s)) (seOpenFiles s),
       seFiles := [], seChunkProvider := NewFileChunk f st\<rparr>"

definition RetainFile :: "fd \<Rightarrow> session \<Rightarrow> session" where
  "RetainFile f s = s\<lparr>seFiles := seFiles s @ [f]\<rparr>"

definition ClearChunks :: "session \<Rightarrow> session" where
  "ClearChunks s = s\<lparr>seChunkHash := [], seChunkProvider := empty_chunk\<rparr>"

definition ClearContent :: "session \<Rightarrow> session" where
  "ClearContent s =
     s\<lparr>seChunkProvider := empty_chunk, seChunkHash := [], seChunkOwners := [], sePeerOwners := [],
       sePeers := map (\<lambda>(u, p). (u, p\<lparr>peLeases := [], peConnNum := 0\<rparr>)) (sePeers s)\<rparr>"

definition MarkSender :: "session \<Rightarrow> session" where
  "MarkSender s =
     (let s1 = s\<lparr>seIsMain := True\<rparr>
      in if mget (sePeers s) (seUUID s) = None
         then s1\<lparr>sePeers := mput (seUUID s) (new_peer [] None) (sePeers s)\<rparr> else s1)"

definition NodeStatus :: "session \<Rightarrow> string \<times> bool \<times> bool" where
  "NodeStatus s = (seUUID s, seIsMain s, fcStat (seChunkProvider s) \<noteq> None)"

record peer_info =
  piUUID :: string
  piAddr :: string
  piChunks :: nat
  piTotal :: nat
  piSpeed :: real
  piInflight :: int
  piFailed :: int
  piSelf :: bool
  piOnline :: bool

definition peer_info_of :: "session \<Rightarrow> string \<times> peer \<Rightarrow> peer_info" where
  "peer_info_of s ip =
     (case ip of (uid, p) \<Rightarrow>
        \<lparr>piUUID = uid, piAddr = peConnAddr p,
         piChunks = (case mget (sePeerOwners s) uid of
                       Some owned \<Rightarrow> length owned
                     | None \<Rightarrow> if uid = seUUID s then length (seChunkOwners s) else 0),
         piTotal = length (seChunkOwners s), piSpeed = peSpeedEwma p, piInflight = peConnNum p,
         piFailed = peFailStreak p, piSelf = (uid = seUUID s),
         piOnline = (uid = seUUID s \<or> peConn p \<noteq> None)\<rparr>)"

definition Snapshot :: "session \<Rightarrow> peer_info list" where
  "Snapshot s = map (peer_info_of s) (sePeers s)"

text \<open>The connections \<^verbatim>\<open>BroadcastStart\<close> writes the start message to.\<close>

definition broadcast_targets :: "session \<Rightarrow> conn list" where
  "broadcast_targets s =
     (if fcStat (seChunkProvider s) = None then []
      else List.map_filter (\<lambda>(uid, p). if uid \<noteq> seUUID s then peConn p else None) (sePeers s))"

section \<open>Upload slots\<close>

definition upload_cap :: nat where
  "upload_cap = 8"

definition UploadConcurrencyHDD :: int where
  "UploadConcurrencyHDD = 2"

definition upload_limit_now :: "time \<Rightarrow> session \<Rightarrow> int" where
  "upload_limit_now now s =
     (let limit = (if seUploadLimit s \<le> 0 \<or> int upload_cap < seUploadLimit s then int upload_cap
                   else seUploadLimit s)
      in if now < seBackoffUntil s then min limit UploadConcurrencyHDD else limit)"

datatype slot_result = SlotStopped | SlotTaken | SlotRetry

text \<open>One turn of the loop in \<^verbatim>\<open>acquireUpload\<close>, under the lock.\<close>

definition acquire_turn :: "time \<Rightarrow> session \<Rightarrow> slot_result \<times> session" where
  "acquire_turn now s =
     (if seDone s then (SlotStopped, s)
      else if int (seUploads s) < upload_limit_now now s \<and> seUploads s < upload_cap
      then (SlotTaken, s\<lparr>seUploads := Suc (seUploads s)\<rparr>)
      else (SlotRetry, s))"

datatype slot_error = SessionStopped | SlotTimeout

text \<open>The loop: \<open>states\<close> are the sessions and clocks its turns see, ten milliseconds apart, until
  the timer ends it.\<close>

fun acquireUpload :: "(time \<times> session) list \<Rightarrow> slot_error option" where
  "acquireUpload [] = Some SlotTimeout"
| "acquireUpload ((now, s) # turns) =
     (case fst (acquire_turn now s) of
        SlotStopped \<Rightarrow> Some SessionStopped
      | SlotTaken \<Rightarrow> None
      | SlotRetry \<Rightarrow> acquireUpload turns)"

definition ReleaseUploadSlot :: "session \<Rightarrow> session" where
  "ReleaseUploadSlot s = s\<lparr>seUploads := seUploads s - 1\<rparr>"

definition SetUploadMax :: "int \<Rightarrow> session \<Rightarrow> session" where
  "SetUploadMax n s = s\<lparr>seUploadLimit := max 1 (min n (int upload_cap))\<rparr>"

text \<open>\<^verbatim>\<open>ApplyControl\<close> and \<^verbatim>\<open>SetPrefetchHandler\<close>; the index handed to the prefetch handler is the
  second result.\<close>

datatype control_msg = Prefetch int | Backoff int | OtherCmd

definition SetPrefetchHandler :: "bool \<Rightarrow> session \<Rightarrow> session" where
  "SetPrefetchHandler on s = s\<lparr>sePrefetch := on\<rparr>"

text \<open>Seconds between Go's zero time and the Unix epoch.\<close>

definition unix_epoch :: time where
  "unix_epoch = 62135596800 * second"

definition ApplyControl :: "control_msg \<Rightarrow> session \<Rightarrow> session \<times> int option" where
  "ApplyControl msg s =
     (case msg of
        Backoff until \<Rightarrow>
          (if seBackoffUntil s < unix_epoch + until * second
           then (s\<lparr>seBackoffUntil := unix_epoch + until * second\<rparr>, None) else (s, None))
      | Prefetch i \<Rightarrow> (s, if sePrefetch s then Some i else None)
      | OtherCmd \<Rightarrow> (s, None))"

section \<open>Connections\<close>

definition max_connections :: nat where
  "max_connections = 512"

text \<open>The body of the accept loop for a new socket.\<close>

definition accept_conn :: "conn \<Rightarrow> session \<Rightarrow> session" where
  "accept_conn c s =
     (if seDone s \<or> max_connections \<le> length (seConnections s) then s
      else s\<lparr>seConnections := List.insert c (seConnections s), seSockets := List.insert c (seSockets s)\<rparr>)"

definition CloseConn :: "conn \<Rightarrow> session \<Rightarrow> session" where
  "CloseConn c s =
     s\<lparr>seConnections := removeAll c (seConnections s), seSockets := removeAll c (seSockets s)\<rparr>"

text \<open>\<^verbatim>\<open>Stop\<close>: the first critical section, and the second one after every handler has returned.\<close>

definition stop_begin :: "session \<Rightarrow> session" where
  "stop_begin s =
     (if seDone s then s
      else s\<lparr>seDone := True, seSockets := filter (\<lambda>c. c \<notin> set (seConnections s)) (seSockets s)\<rparr>)"

definition stop_end :: "session \<Rightarrow> session" where
  "stop_end s =
     s\<lparr>seOpenFiles := filter (\<lambda>f. f \<notin> set (seFiles s)) (seOpenFiles s), seFiles := []\<rparr>"

end
