(* ===== verification/Scheduler.thy ===== *)
theory Scheduler
  imports Registry "HOL-Library.Product_Lexorder" "HOL-Library.Multiset"
begin

text \<open>
  The dispatch queue (\<^verbatim>\<open>internal/gsp_sdk/server/queue.go\<close>): which source a requester of a chunk is
  sent to, the leases that count a source's load, and their expiry. The owners of a chunk are
  visited in the order of the list that stands for the Go map; the sort makes the answer
  independent of it.
\<close>

definition leaseTTL :: time where
  "leaseTTL = 45 * second"

definition maxInflight :: int where
  "maxInflight = 2"

definition SchedColdStartMbps :: real where
  "SchedColdStartMbps = 1000"

definition SchedCrossZoneFactor :: real where
  "SchedCrossZoneFactor = 0.15"

definition SchedFailHalfLifeSec :: real where
  "SchedFailHalfLifeSec = 30"

definition SchedMaxSourcesPerWant :: int where
  "SchedMaxSourcesPerWant = 3"

definition zoneOfCentral :: string where
  "zoneOfCentral = ''*''"

section \<open>Scored candidates\<close>

datatype scored_candidate = Scored (scScore: real) (scUUID: string) (scAddr: string)

text \<open>The comparison of \<^verbatim>\<open>sort.Slice\<close>: a higher score first, equal scores by UUID. The address
  only makes the order total on values that the comparison cannot tell apart.\<close>

definition cand_key :: "scored_candidate \<Rightarrow> real \<times> string \<times> string" where
  "cand_key c = (- scScore c, scUUID c, scAddr c)"

lemma cand_key_inj: "cand_key a = cand_key b \<Longrightarrow> a = b"
  by (cases a; cases b) (simp add: cand_key_def)

instantiation scored_candidate :: linorder
begin

definition less_eq_scored_candidate :: "scored_candidate \<Rightarrow> scored_candidate \<Rightarrow> bool" where
  "less_eq_scored_candidate a b \<longleftrightarrow> cand_key a \<le> cand_key b"

definition less_scored_candidate :: "scored_candidate \<Rightarrow> scored_candidate \<Rightarrow> bool" where
  "less_scored_candidate a b \<longleftrightarrow> cand_key a < cand_key b"

instance
proof
  fix a b c :: scored_candidate
  show "(a < b) = (a \<le> b \<and> \<not> b \<le> a)"
    by (auto simp: less_eq_scored_candidate_def less_scored_candidate_def)
  show "a \<le> a" by (simp add: less_eq_scored_candidate_def)
  show "a \<le> b \<Longrightarrow> b \<le> c \<Longrightarrow> a \<le> c" by (simp add: less_eq_scored_candidate_def)
  show "a \<le> b \<Longrightarrow> b \<le> a \<Longrightarrow> a = b"
    by (auto simp: less_eq_scored_candidate_def intro: cand_key_inj)
  show "a \<le> b \<or> b \<le> a" by (auto simp: less_eq_scored_candidate_def)
qed

end

lemma scored_less_iff:
  "a < b \<longleftrightarrow> scScore b < scScore a \<or> scScore a = scScore b \<and>
     (scUUID a < scUUID b \<or> scUUID a = scUUID b \<and> scAddr a < scAddr b)"
  by (auto simp: less_scored_candidate_def cand_key_def less_prod_def)

definition scoreSource :: "real \<Rightarrow> int \<Rightarrow> real \<Rightarrow> real \<Rightarrow> real" where
  "scoreSource up connections locality failures =
     up / real_of_int (connections + 1) * locality * (0.5 powr failures)"

definition localityFactor :: "string \<Rightarrow> string \<Rightarrow> real" where
  "localityFactor source requester =
     (if source = zoneOfCentral \<or> requester = [] \<or> source = requester then 1 else SchedCrossZoneFactor)"

section \<open>Leases\<close>

text \<open>The loop over a peer's leases deletes the expired ones while it visits them.\<close>

definition expire_peer :: "time \<Rightarrow> peer \<Rightarrow> peer" where
  "expire_peer now p = foldl (\<lambda>q (k, e). if e < now then drop_lease k q else q) p (peLeases p)"

definition expireLeasesLocked :: "time \<Rightarrow> session \<Rightarrow> session" where
  "expireLeasesLocked now s = s\<lparr>sePeers := map (\<lambda>(u, p). (u, expire_peer now p)) (sePeers s)\<rparr>"

definition add_lease :: "string \<Rightarrow> time \<Rightarrow> peer \<Rightarrow> peer" where
  "add_lease key now p =
     p\<lparr>peConnNum := (if mget (peLeases p) key = None then peConnNum p + 1 else peConnNum p),
       peLeases := mput key (now + leaseTTL) (peLeases p)\<rparr>"

definition leaseLocked :: "string \<Rightarrow> int \<Rightarrow> string \<Rightarrow> time \<Rightarrow> session \<Rightarrow> session" where
  "leaseLocked u index requester now s =
     (let p = (case mget (sePeers s) u of None \<Rightarrow> new_peer [] None | Some p \<Rightarrow> p)
      in s\<lparr>sePeers := mput u (add_lease (leaseKey requester index) now p) (sePeers s)\<rparr>)"

definition queue_release :: "string \<Rightarrow> int \<Rightarrow> string \<Rightarrow> session \<Rightarrow> session" where
  "queue_release u index requester s =
     (case mget (sePeers s) u of
        None \<Rightarrow> s
      | Some p \<Rightarrow> s\<lparr>sePeers := mput u (drop_lease (leaseKey requester index) p) (sePeers s)\<rparr>)"

section \<open>Candidates\<close>

record want_req =
  wrZone :: string
  wrWant :: int
  wrUUID :: string
  wrIndex :: int

text \<open>\<open>remote\<close> is the address of the requester's connection, \<open>None\<close> for a nil one.\<close>

definition request_zone :: "want_req \<Rightarrow> string option \<Rightarrow> session \<Rightarrow> string" where
  "request_zone req remote s =
     (let z1 = (if wrZone req = []
                then (case mget (sePeers s) (wrUUID req) of None \<Rightarrow> [] | Some p \<Rightarrow> peZone p)
                else wrZone req)
      in if z1 = [] then (case remote of None \<Rightarrow> [] | Some a \<Rightarrow> zoneOf a []) else z1)"

text \<open>The owners the loop does not skip at once: registered peers other than the requester and
  the central node.\<close>

definition other_owners :: "want_req \<Rightarrow> session \<Rightarrow> (string \<times> peer) list" where
  "other_owners req s =
     List.map_filter
       (\<lambda>u. if u = wrUUID req \<or> u = seUUID s then None else map_option (Pair u) (mget (sePeers s) u))
       (mset_of (seChunkOwners s) (wrIndex req))"

definition available :: "time \<Rightarrow> peer \<Rightarrow> bool" where
  "available now p \<longleftrightarrow> \<not> (now < peCooldownTil p \<or> maxInflight \<le> peConnNum p)"

definition seconds_since :: "time \<Rightarrow> time \<Rightarrow> real" where
  "seconds_since now t = real_of_int (now - t) / real_of_int second"

definition peer_score :: "time \<Rightarrow> string \<Rightarrow> peer \<Rightarrow> real" where
  "peer_score now zone p =
     (let failures = real_of_int (peFailStreak p) *
            (if peLastFailure p = 0 then 1
             else 0.5 powr (seconds_since now (peLastFailure p) / SchedFailHalfLifeSec));
          speed = (if peSpeedEwma p \<le> 0 then SchedColdStartMbps else peSpeedEwma p)
      in scoreSource speed (peConnNum p) (localityFactor (peZone p) zone) failures)"

definition central_score :: "string \<Rightarrow> nat \<Rightarrow> peer option \<Rightarrow> real" where
  "central_score zone localOwners central =
     (let connections = (case central of None \<Rightarrow> 0 | Some p \<Rightarrow> peConnNum p);
          speed = (case central of
                     None \<Rightarrow> SchedColdStartMbps
                   | Some p \<Rightarrow> if 0 < peSpeedEwma p then peSpeedEwma p else SchedColdStartMbps);
          score = scoreSource speed connections 1 0
      in if localOwners = 0 \<and> zone \<noteq> [] then score * 10 ^ 9 else score)"

text \<open>The state after the expiry of leases, and the candidates in it.\<close>

definition candidates :: "time \<Rightarrow> want_req \<Rightarrow> string option \<Rightarrow> session \<Rightarrow> scored_candidate list" where
  "candidates now req remote s =
     (let zone = request_zone req remote s;
          owners = other_owners req s;
          localOwners = length (filter (\<lambda>(u, p). peZone p = zone) owners);
          peers = map (\<lambda>(u, p). Scored (peer_score now zone p) u (peConnAddr p))
                    (filter (\<lambda>(u, p). available now p) owners)
      in sort (peers @ [Scored (central_score zone localOwners (mget (sePeers s) (seUUID s))) (seUUID s) []]))"

definition candidatesLocked ::
  "time \<Rightarrow> want_req \<Rightarrow> string option \<Rightarrow> session \<Rightarrow> scored_candidate list \<times> session" where
  "candidatesLocked now req remote s =
     (let s1 = expireLeasesLocked now s in (candidates now req remote s1, s1))"

section \<open>WantRequest and pickFor\<close>

record want_resp =
  rsIndex :: int
  rsAddr :: string
  rsUUID :: string
  rsCheckSum :: "32 word"
  rsSources :: "(string \<times> string) list"

definition sources_wanted :: "int \<Rightarrow> nat \<Rightarrow> nat" where
  "sources_wanted want avail =
     nat (min (min (if want \<le> 0 then 1 else want) SchedMaxSourcesPerWant) (int avail))"

text \<open>The locked part, and the release when the answer cannot be written (\<open>sent\<close>).\<close>

definition want_locked ::
  "time \<Rightarrow> time \<Rightarrow> want_req \<Rightarrow> string option \<Rightarrow> session \<Rightarrow> want_resp \<times> session" where
  "want_locked now now' req remote s =
     (case candidatesLocked now req remote s of (cs, s1) \<Rightarrow>
        (let chosen = hd cs;
             sources = map (\<lambda>c. (scAddr c, scUUID c)) (take (sources_wanted (wrWant req) (length cs)) cs);
             s2 = leaseLocked (scUUID chosen) (wrIndex req) (wrUUID req) now' s1;
             checksum = (case mget (seChunkHash s2) (wrIndex req) of None \<Rightarrow> 0 | Some c \<Rightarrow> c)
         in (\<lparr>rsIndex = wrIndex req, rsAddr = scAddr chosen, rsUUID = scUUID chosen,
              rsCheckSum = checksum, rsSources = sources\<rparr>, s2)))"

definition WantRequest ::
  "time \<Rightarrow> time \<Rightarrow> want_req \<Rightarrow> string option \<Rightarrow> bool \<Rightarrow> session \<Rightarrow> want_resp option \<times> session" where
  "WantRequest now now' req remote sent s =
     (case want_locked now now' req remote s of (resp, s1) \<Rightarrow>
        if sent then (Some resp, s1)
        else (None, queue_release (rsUUID resp) (wrIndex req) (wrUUID req) s1))"

definition WantFor ::
  "time \<Rightarrow> time \<Rightarrow> int \<Rightarrow> string option \<Rightarrow> string \<Rightarrow> bool \<Rightarrow> session \<Rightarrow> want_resp option \<times> session" where
  "WantFor now now' i remote requester sent s =
     WantRequest now now' \<lparr>wrZone = [], wrWant = 1, wrUUID = requester, wrIndex = i\<rparr> remote sent s"

text \<open>\<^verbatim>\<open>peerByConn\<close>: the only peer registered at the connection's host.\<close>

fun find_by_host :: "string \<Rightarrow> (string, peer) gomap \<Rightarrow> string \<Rightarrow> string" where
  "find_by_host host [] found = found"
| "find_by_host host ((u, p) # ps) found =
     (if peConnAddr p = [] then find_by_host host ps found
      else (case SplitHostPort (peConnAddr p) of
              None \<Rightarrow> find_by_host host ps found
            | Some (ph, _) \<Rightarrow>
                if ph \<noteq> host then find_by_host host ps found
                else if found \<noteq> [] then []
                else find_by_host host ps u))"

definition peerByConn :: "string option \<Rightarrow> session \<Rightarrow> string" where
  "peerByConn remote s =
     (case remote of
        None \<Rightarrow> []
      | Some a \<Rightarrow> (case SplitHostPort a of None \<Rightarrow> [] | Some (host, _) \<Rightarrow> find_by_host host (sePeers s) []))"

definition pickFor ::
  "time \<Rightarrow> time \<Rightarrow> int \<Rightarrow> string option \<Rightarrow> string \<Rightarrow> session \<Rightarrow> (string \<times> string) \<times> session" where
  "pickFor now now' i remote requester0 s =
     (let requester = (if requester0 = [] then peerByConn remote s else requester0);
          req = \<lparr>wrZone = [], wrWant = 0, wrUUID = requester, wrIndex = i\<rparr>
      in case candidatesLocked now req remote s of (cs, s1) \<Rightarrow>
           ((scUUID (hd cs), scAddr (hd cs)), leaseLocked (scUUID (hd cs)) i requester now' s1))"

section \<open>Leases keep the load\<close>

text \<open>The load of a peer is the number of its leases.\<close>

definition lease_ok :: "peer \<Rightarrow> bool" where
  "lease_ok p \<longleftrightarrow> wf_map (peLeases p) \<and> peConnNum p = int (length (peLeases p))"

lemma lease_ok_new [simp]: "lease_ok (new_peer a c)"
  by (simp add: lease_ok_def new_peer_def)

lemma drop_lease_leases: "peLeases (drop_lease k p) = mdel k (peLeases p)"
proof (cases "mget (peLeases p) k")
  case None
  then have "k \<notin> fst ` set (peLeases p)" by (simp add: mget_None)
  then show ?thesis using None by (simp add: drop_lease_def delete_idem)
qed (simp add: drop_lease_def)

lemma drop_lease_fields [simp]:
  "peConnAddr (drop_lease k p) = peConnAddr p" "peConn (drop_lease k p) = peConn p"
  "peSpeedEwma (drop_lease k p) = peSpeedEwma p" "peZone (drop_lease k p) = peZone p"
  "peLastFailure (drop_lease k p) = peLastFailure p" "peFailStreak (drop_lease k p) = peFailStreak p"
  "peCooldownTil (drop_lease k p) = peCooldownTil p"
  by (simp_all add: drop_lease_def)

lemma lease_ok_drop: "lease_ok p \<Longrightarrow> lease_ok (drop_lease k p)"
proof -
  assume ok: "lease_ok p"
  show ?thesis
  proof (cases "mget (peLeases p) k")
    case None
    with ok show ?thesis by (simp add: drop_lease_def)
  next
    case (Some e)
    then have "k \<in> fst ` set (peLeases p)" by (rule mget_SomeD)
    moreover from this have "0 < length (peLeases p)" by (cases "peLeases p") auto
    moreover from this have "int (length (peLeases p) - 1) = int (length (peLeases p)) - 1" by linarith
    ultimately show ?thesis
      using ok Some by (simp add: lease_ok_def drop_lease_def length_mdel)
  qed
qed

lemma drop_lease_less: "lease_ok p \<Longrightarrow> peConnNum (drop_lease k p) \<le> peConnNum p"
  by (simp add: drop_lease_def)

lemma lease_ok_add: "lease_ok p \<Longrightarrow> lease_ok (add_lease k now p)"
  by (auto simp: lease_ok_def add_lease_def gomap_simps mget_None split: option.splits)

lemma add_lease_num:
  "peConnNum (add_lease k now p) = (if mget (peLeases p) k = None then peConnNum p + 1 else peConnNum p)"
  by (simp add: add_lease_def)

definition expiry_fold :: "time \<Rightarrow> (string \<times> time) list \<Rightarrow> peer \<Rightarrow> peer" where
  "expiry_fold now ls p = foldl (\<lambda>q (k, e). if e < now then drop_lease k q else q) p ls"

lemma expiry_fold_simps [simp]:
  "expiry_fold now [] p = p"
  "expiry_fold now ((k, e) # ls) p = expiry_fold now ls (if e < now then drop_lease k p else p)"
  by (simp_all add: expiry_fold_def)

lemma expire_peer_fold: "expire_peer now p = expiry_fold now (peLeases p) p"
  by (simp add: expire_peer_def expiry_fold_def)

lemma expiry_fold_ok: "lease_ok p \<Longrightarrow> lease_ok (expiry_fold now ls p)"
  by (induction ls arbitrary: p) (auto simp: lease_ok_drop)

lemma expiry_fold_fields:
  "peConnAddr (expiry_fold now ls p) = peConnAddr p" "peConn (expiry_fold now ls p) = peConn p"
  "peSpeedEwma (expiry_fold now ls p) = peSpeedEwma p" "peZone (expiry_fold now ls p) = peZone p"
  "peLastFailure (expiry_fold now ls p) = peLastFailure p"
  "peFailStreak (expiry_fold now ls p) = peFailStreak p"
  "peCooldownTil (expiry_fold now ls p) = peCooldownTil p"
  by (induction ls arbitrary: p) auto

lemma expire_fields [simp]:
  "peConnAddr (expire_peer now p) = peConnAddr p" "peConn (expire_peer now p) = peConn p"
  "peSpeedEwma (expire_peer now p) = peSpeedEwma p" "peZone (expire_peer now p) = peZone p"
  "peLastFailure (expire_peer now p) = peLastFailure p" "peFailStreak (expire_peer now p) = peFailStreak p"
  "peCooldownTil (expire_peer now p) = peCooldownTil p"
  by (simp_all add: expire_peer_fold expiry_fold_fields)

lemma expiry_fold_leases:
  "peLeases (expiry_fold now ls p) =
     filter (\<lambda>x. fst x \<notin> fst ` {y \<in> set ls. snd y < now}) (peLeases p)"
proof (induction ls arbitrary: p)
  case (Cons l ls)
  obtain k e where l: "l = (k, e)" by (cases l)
  show ?case
  proof (cases "e < now")
    case True
    have "{y \<in> set (l # ls). snd y < now} = insert (k, e) {y \<in> set ls. snd y < now}"
      using l True by auto
    then have "fst ` {y \<in> set (l # ls). snd y < now} = insert k (fst ` {y \<in> set ls. snd y < now})"
      by simp
    then show ?thesis
      using Cons l True
      by (simp add: drop_lease_leases AList.delete_eq case_prod_unfold) (metis (lifting))
  next
    case False
    then have "{y \<in> set (l # ls). snd y < now} = {y \<in> set ls. snd y < now}" using l by auto
    then show ?thesis using Cons l False by simp
  qed
qed simp

lemma expire_peer_leases:
  assumes "lease_ok p"
  shows "peLeases (expire_peer now p) = filter (\<lambda>(k, e). now \<le> e) (peLeases p)"
proof -
  have wf: "wf_map (peLeases p)" using assms by (simp add: lease_ok_def)
  have "fst x \<in> fst ` {y \<in> set (peLeases p). snd y < now} \<longleftrightarrow> snd x < now"
    if "x \<in> set (peLeases p)" for x
  proof
    assume "fst x \<in> fst ` {y \<in> set (peLeases p). snd y < now}"
    then obtain y where y: "y \<in> set (peLeases p)" "snd y < now" "fst x = fst y" by blast
    then have "x = y" using that wf by (metis eq_key_imp_eq_value prod.collapse)
    with y(2) show "snd x < now" by simp
  next
    assume "snd x < now"
    with that show "fst x \<in> fst ` {y \<in> set (peLeases p). snd y < now}" by blast
  qed
  then have "filter (\<lambda>x. fst x \<notin> fst ` {y \<in> set (peLeases p). snd y < now}) (peLeases p) =
      filter (\<lambda>x. now \<le> snd x) (peLeases p)"
    by (intro filter_cong refl) (simp only: not_less)
  then show ?thesis
    unfolding expire_peer_fold expiry_fold_leases case_prod_unfold .
qed

lemma lease_ok_expire: "lease_ok p \<Longrightarrow> lease_ok (expire_peer now p)"
  by (simp add: expire_peer_fold expiry_fold_ok)

lemma expire_num_le:
  assumes "lease_ok p"
  shows "peConnNum (expire_peer now p) \<le> peConnNum p"
proof -
  have "length (peLeases (expire_peer now p)) \<le> length (peLeases p)"
    by (simp add: expire_peer_leases [OF assms])
  then show ?thesis using assms lease_ok_expire [OF assms, of now] by (simp add: lease_ok_def)
qed

lemma expire_peers_get:
  "mget (sePeers (expireLeasesLocked now s)) u = map_option (expire_peer now) (mget (sePeers s) u)"
proof -
  have "map_of (map (\<lambda>(u, p). (u, f p)) m) u = map_option f (map_of m u)" for f :: "peer \<Rightarrow> peer" and m
    by (induction m) auto
  then show ?thesis by (simp add: expireLeasesLocked_def)
qed

lemma expire_session_fields [simp]:
  "seUUID (expireLeasesLocked now s) = seUUID s"
  "seChunkOwners (expireLeasesLocked now s) = seChunkOwners s"
  "sePeerOwners (expireLeasesLocked now s) = sePeerOwners s"
  "seChunkHash (expireLeasesLocked now s) = seChunkHash s"
  "map fst (sePeers (expireLeasesLocked now s)) = map fst (sePeers s)"
  by (simp_all add: expireLeasesLocked_def case_prod_unfold comp_def)

section \<open>Who is a candidate\<close>

lemma in_other_owners:
  "(u, p) \<in> set (other_owners req s) \<longleftrightarrow>
     u \<in> set (mset_of (seChunkOwners s) (wrIndex req)) \<and> u \<noteq> wrUUID req \<and> u \<noteq> seUUID s \<and>
     mget (sePeers s) u = Some p"
  by (auto simp: other_owners_def map_filter_def split: if_splits) (force split: if_splits)

lemma in_candidates:
  "c \<in> set (candidates now req remote s) \<longleftrightarrow>
     (\<exists>u p. c = Scored (peer_score now (request_zone req remote s) p) u (peConnAddr p) \<and>
        (u, p) \<in> set (other_owners req s) \<and> available now p) \<or>
     c = Scored (central_score (request_zone req remote s)
           (length (filter (\<lambda>(u, p). peZone p = request_zone req remote s) (other_owners req s)))
           (mget (sePeers s) (seUUID s))) (seUUID s) []"
  by (auto simp: candidates_def Let_def)

lemma candidates_nonempty [simp]: "candidates now req remote s \<noteq> []"
  by (metis in_candidates list.set(1) empty_iff)

lemma candidates_sorted: "sorted (candidates now req remote s)"
  by (simp add: candidates_def Let_def)

lemma hd_candidates: "hd (candidates now req remote s) \<in> set (candidates now req remote s)"
  by simp

lemma candidate_uuid:
  "c \<in> set (candidates now req remote s) \<Longrightarrow>
     scUUID c = seUUID s \<and> scAddr c = [] \<or>
     (\<exists>p. mget (sePeers s) (scUUID c) = Some p \<and> scUUID c \<noteq> seUUID s \<and> scUUID c \<noteq> wrUUID req \<and>
        scUUID c \<in> set (mset_of (seChunkOwners s) (wrIndex req)) \<and> available now p \<and> scAddr c = peConnAddr p)"
  by (auto simp: in_candidates in_other_owners)

end
