(* ===== verification/Session.thy ===== *)
theory Session
  imports Scheduler
begin

text \<open>
  Every interleaving of a session's critical sections: the step relation \<open>sess_step\<close> has one
  rule per method, and its invariant \<open>reg_inv\<close> holds in every reachable session. The invariant
  has one part per data structure (the shape of the maps, ownership, load, upload slots,
  connections), so that each method is checked against the parts it touches.
\<close>

section \<open>The invariant\<close>

definition maps_ok :: "session \<Rightarrow> bool" where
  "maps_ok s \<longleftrightarrow>
     wf_map (sePeers s) \<and> wf_map (seChunkOwners s) \<and> wf_map (sePeerOwners s) \<and> wf_map (seChunkHash s) \<and>
     (\<forall>i. distinct (mset_of (seChunkOwners s) i)) \<and> (\<forall>u. distinct (mset_of (sePeerOwners s) u))"

text \<open>The two owner maps describe the same relation for every peer but the session itself, and
  only registered peers own chunks.\<close>

definition owners_ok :: "session \<Rightarrow> bool" where
  "owners_ok s \<longleftrightarrow>
     (\<forall>u i. u \<noteq> seUUID s \<longrightarrow>
        (u \<in> set (mset_of (seChunkOwners s) i) \<longleftrightarrow> i \<in> set (mset_of (sePeerOwners s) u))) \<and>
     (\<forall>u i. u \<in> set (mset_of (seChunkOwners s) i) \<longrightarrow> 0 \<le> i) \<and>
     fst ` set (sePeerOwners s) \<subseteq> fst ` set (sePeers s)"

definition peer_load_ok :: "string \<Rightarrow> string \<Rightarrow> peer \<Rightarrow> bool" where
  "peer_load_ok self u p \<longleftrightarrow> lease_ok p \<and> 0 \<le> peFailStreak p \<and> (u \<noteq> self \<longrightarrow> peConnNum p \<le> maxInflight)"

definition load_ok :: "session \<Rightarrow> bool" where
  "load_ok s \<longleftrightarrow> (\<forall>u p. mget (sePeers s) u = Some p \<longrightarrow> peer_load_ok (seUUID s) u p)"

definition slots_ok :: "session \<Rightarrow> bool" where
  "slots_ok s \<longleftrightarrow> seUploads s \<le> upload_cap \<and> seUploadLimit s \<le> int upload_cap"

definition conns_ok :: "session \<Rightarrow> bool" where
  "conns_ok s \<longleftrightarrow>
     distinct (seConnections s) \<and> length (seConnections s) \<le> max_connections \<and>
     set (seSockets s) \<subseteq> set (seConnections s) \<and> (seDone s \<longrightarrow> seSockets s = [])"

definition reg_inv :: "session \<Rightarrow> bool" where
  "reg_inv s \<longleftrightarrow> maps_ok s \<and> owners_ok s \<and> load_ok s \<and> slots_ok s \<and> conns_ok s"

lemma reg_inv_new: "reg_inv (NewGspSession addr uuid)"
  by (simp add: reg_inv_def maps_ok_def owners_ok_def load_ok_def slots_ok_def conns_ok_def
      NewGspSession_def upload_cap_def max_connections_def)

text \<open>The parts of the invariant look at some fields only.\<close>

lemma part_cong:
  assumes "sePeers t = sePeers s" "seChunkOwners t = seChunkOwners s" "sePeerOwners t = sePeerOwners s"
    "seUUID t = seUUID s"
  shows "seChunkHash t = seChunkHash s \<Longrightarrow> maps_ok t = maps_ok s"
    and "owners_ok t = owners_ok s" and "load_ok t = load_ok s"
  using assms by (simp_all add: maps_ok_def owners_ok_def load_ok_def)

section \<open>Methods that change one peer\<close>

lemma set_peer_inv:
  assumes "reg_inv s" and "peer_load_ok (seUUID s) u p"
  shows "reg_inv (s\<lparr>sePeers := mput u p (sePeers s)\<rparr>)"
  using assms
  by (auto simp: reg_inv_def maps_ok_def owners_ok_def load_ok_def slots_ok_def conns_ok_def gomap_simps
      split: if_splits)

lemma peer_ok_get: "reg_inv s \<Longrightarrow> mget (sePeers s) u = Some p \<Longrightarrow> peer_load_ok (seUUID s) u p"
  by (simp add: reg_inv_def load_ok_def)

lemma peer_ok_new [simp]: "peer_load_ok self u (new_peer a c)"
  by (simp add: peer_load_ok_def) (simp add: new_peer_def maxInflight_def)

lemma peer_ok_fields:
  "peer_load_ok self u p \<Longrightarrow> peer_load_ok self u (p\<lparr>peConnAddr := a\<rparr>)"
  "peer_load_ok self u p \<Longrightarrow> peer_load_ok self u (p\<lparr>peConn := c\<rparr>)"
  "peer_load_ok self u p \<Longrightarrow> peer_load_ok self u (p\<lparr>peZone := z\<rparr>)"
  "peer_load_ok self u p \<Longrightarrow> peer_load_ok self u (fail_peer now now' p)"
  "peer_load_ok self u p \<Longrightarrow> peer_load_ok self u (succeed_peer speed p)"
  by (auto simp: peer_load_ok_def lease_ok_def fail_peer_def succeed_peer_def)

lemma peer_ok_drop: "peer_load_ok self u p \<Longrightarrow> peer_load_ok self u (drop_lease k p)"
  using drop_lease_less [of p k] by (auto simp: peer_load_ok_def lease_ok_drop)

lemma peer_ok_expire: "peer_load_ok self u p \<Longrightarrow> peer_load_ok self u (expire_peer now p)"
  using expire_num_le [of p now] by (auto simp: peer_load_ok_def lease_ok_expire)

lemma inv_AddPeer: "reg_inv s \<Longrightarrow> reg_inv (AddPeer u a c s)"
  by (auto simp: AddPeer_def intro!: set_peer_inv peer_ok_fields dest: peer_ok_get split: option.splits)

lemma inv_SetControlConn: "reg_inv s \<Longrightarrow> reg_inv (SetControlConn u c s)"
  by (auto simp: SetControlConn_def intro!: set_peer_inv peer_ok_fields dest: peer_ok_get split: option.splits)

lemma inv_SetPeerZone: "reg_inv s \<Longrightarrow> reg_inv (SetPeerZone u z s)"
  by (auto simp: SetPeerZone_def intro!: set_peer_inv peer_ok_fields dest: peer_ok_get split: option.splits)

lemma inv_queue_release: "reg_inv s \<Longrightarrow> reg_inv (queue_release u i r s)"
  by (auto simp: queue_release_def intro!: set_peer_inv peer_ok_drop dest: peer_ok_get split: option.splits)

section \<open>Ownership\<close>

lemma mset_of_foldl_del:
  "mset_of (foldl (\<lambda>m i. mset_del i u m) m is) j =
     (if j \<in> set is then removeAll u (mset_of m j) else mset_of m j)"
  by (induction "is" arbitrary: m) (auto simp: gomap_simps)

lemma wf_foldl_del: "wf_map m \<Longrightarrow> wf_map (foldl (\<lambda>m i. mset_del i u m) m is)"
  by (induction "is" arbitrary: m) auto

lemma mset_of_foldl_add:
  "set (mset_of (foldl (\<lambda>m i. mset_add i u m) m is) j) =
     (if j \<in> set is then insert u (set (mset_of m j)) else set (mset_of m j))"
  by (induction "is" arbitrary: m) (auto simp: gomap_simps)

lemma distinct_foldl_add:
  "(\<And>j. distinct (mset_of m j)) \<Longrightarrow> distinct (mset_of (foldl (\<lambda>m i. mset_add i u m) m is) j)"
  by (induction "is" arbitrary: m) (auto simp: gomap_simps)

lemma wf_foldl_add: "wf_map m \<Longrightarrow> wf_map (foldl (\<lambda>m i. mset_add i u m) m is)"
  by (induction "is" arbitrary: m) auto

lemma inv_RemovePeer:
  assumes "reg_inv s"
  shows "reg_inv (RemovePeer u s)"
proof -
  let ?t = "RemovePeer u s"
  have m: "maps_ok s" and o: "owners_ok s" and l: "load_ok s" using assms by (simp_all add: reg_inv_def)
  have "maps_ok ?t"
    using m by (auto simp: maps_ok_def RemovePeer_def wf_foldl_del mset_of_foldl_del gomap_simps distinct_removeAll)
  moreover have "owners_ok ?t"
    using o by (auto simp: owners_ok_def RemovePeer_def mset_of_foldl_del gomap_simps)
  moreover have "load_ok ?t" using l by (auto simp: load_ok_def RemovePeer_def gomap_simps split: if_splits)
  ultimately show ?thesis
    using assms by (simp add: reg_inv_def slots_ok_def conns_ok_def RemovePeer_def)
qed

lemma inv_AddBlockOwner:
  assumes "reg_inv s"
  shows "reg_inv (AddBlockOwner i u s)"
proof (cases "AddBlockOwner i u s = s")
  case False
  then have t: "AddBlockOwner i u s = s\<lparr>sePeerOwners := mset_add u i (sePeerOwners s),
      seChunkOwners := mset_add i u (seChunkOwners s)\<rparr>" and i: "0 \<le> i" and u: "mget (sePeers s) u \<noteq> None"
    by (auto simp: AddBlockOwner_def split: if_splits)
  have m: "maps_ok s" and o: "owners_ok s" using assms by (simp_all add: reg_inv_def)
  have "maps_ok (AddBlockOwner i u s)" using m unfolding t by (auto simp: maps_ok_def gomap_simps)
  moreover have "owners_ok (AddBlockOwner i u s)"
    using o i u unfolding t
    by (auto simp: owners_ok_def gomap_simps mget_None)
  ultimately show ?thesis
    using assms unfolding t by (simp add: reg_inv_def load_ok_def slots_ok_def conns_ok_def)
qed (use assms in simp)

lemma inv_UpdatePeer:
  assumes "reg_inv s"
  shows "reg_inv (UpdatePeer u speed status i r now now' s)"
proof (cases "mget (sePeers s) u")
  case None
  with assms show ?thesis by (simp add: UpdatePeer_def)
next
  case (Some p0)
  let ?p = "drop_lease (leaseKey r i) p0"
  have p: "peer_load_ok (seUUID s) u ?p" using peer_ok_get [OF assms Some] by (rule peer_ok_drop)
  let ?f = "s\<lparr>sePeers := mput u (fail_peer now now' ?p) (sePeers s)\<rparr>"
  have f: "reg_inv ?f" using assms p by (intro set_peer_inv peer_ok_fields)
  have "reg_inv (?f\<lparr>seChunkOwners := mset_del i u (seChunkOwners s),
      sePeerOwners := mset_del u i (sePeerOwners s)\<rparr>)" (is "reg_inv ?g")
  proof -
    have m: "maps_ok ?f" and o: "owners_ok ?f" using f by (simp_all add: reg_inv_def)
    have "maps_ok ?g" using m by (auto simp: maps_ok_def gomap_simps distinct_removeAll)
    moreover have "owners_ok ?g" using o by (auto simp: owners_ok_def gomap_simps)
    ultimately show ?thesis using f by (simp add: reg_inv_def load_ok_def slots_ok_def conns_ok_def)
  qed
  moreover have "reg_inv (s\<lparr>sePeers := mput u (succeed_peer speed ?p) (sePeers s)\<rparr>)"
    using assms p by (intro set_peer_inv peer_ok_fields)
  ultimately show ?thesis using Some f by (auto simp: UpdatePeer_def Let_def)
qed

section \<open>Content\<close>

lemma inv_BeSendMain:
  assumes "reg_inv s"
  shows "reg_inv (snd (BeSendMain f st st' s))"
proof -
  let ?n = "map int [0..<nat (GetChunkNum (NewFileChunk f st'))]"
  let ?o = "foldl (\<lambda>m i. mset_add i (seUUID s) m) (seChunkOwners s) ?n"
  let ?s1 = "s\<lparr>sePeers := mput (seUUID s) (new_peer [] None) (sePeers s)\<rparr>"
  let ?s2 = "s\<lparr>seChunkProvider := NewFileChunk f st', seIsMain := True,
    sePeers := mput (seUUID s) (new_peer [] None) (sePeers s), seChunkOwners := ?o\<rparr>"
  have i1: "reg_inv ?s1" using assms by (intro set_peer_inv peer_ok_new)
  then have m: "maps_ok ?s1" and o: "owners_ok ?s1" by (simp_all add: reg_inv_def)
  have "maps_ok ?s2" using m by (simp add: maps_ok_def wf_foldl_add distinct_foldl_add)
  moreover have "owners_ok ?s2"
    using o by (auto simp: owners_ok_def mset_of_foldl_add split: if_splits)
  ultimately have "reg_inv ?s2"
    using i1 by (simp add: reg_inv_def load_ok_def slots_ok_def conns_ok_def)
  then have "reg_inv (StartCoordinator ?s2)"
    by (auto simp: StartCoordinator_def reg_inv_def maps_ok_def owners_ok_def load_ok_def slots_ok_def conns_ok_def)
  then show ?thesis using assms by (simp add: BeSendMain_def Let_def split: option.splits)
qed

lemma inv_ClearContent:
  assumes "reg_inv s"
  shows "reg_inv (ClearContent s)"
proof -
  let ?f = "\<lambda>p. p\<lparr>peLeases := [], peConnNum := 0\<rparr>"
  have get: "mget (map (\<lambda>(u, p). (u, ?f p)) m) u = map_option ?f (mget m u)" for m :: "(string, peer) gomap" and u
    by (induction m) auto
  have "load_ok (ClearContent s)"
    using assms unfolding reg_inv_def load_ok_def ClearContent_def
    by (auto simp: get peer_load_ok_def lease_ok_def maxInflight_def)
  moreover have keys: "map fst (sePeers (ClearContent s)) = map fst (sePeers s)"
    by (simp add: ClearContent_def case_prod_unfold comp_def)
  have "maps_ok (ClearContent s)"
    using assms unfolding reg_inv_def maps_ok_def keys by (simp add: ClearContent_def)
  moreover have "owners_ok (ClearContent s)"
    by (simp add: owners_ok_def ClearContent_def)
  ultimately show ?thesis using assms by (simp add: reg_inv_def slots_ok_def conns_ok_def ClearContent_def)
qed

lemma inv_MarkSender: "reg_inv s \<Longrightarrow> reg_inv (MarkSender s)"
proof -
  assume inv: "reg_inv s"
  have "reg_inv (s\<lparr>sePeers := mput (seUUID s) (new_peer [] None) (sePeers s)\<rparr>)"
    using inv by (intro set_peer_inv peer_ok_new)
  with inv show ?thesis
    by (simp add: MarkSender_def Let_def reg_inv_def maps_ok_def owners_ok_def load_ok_def slots_ok_def conns_ok_def)
qed

text \<open>Methods that touch neither peers nor owners.\<close>

lemma inv_light:
  assumes "reg_inv s"
  shows "reg_inv (AddChunk i c s)" "reg_inv (index_store i c s)" "reg_inv (BeSendSub f st s)"
    "reg_inv (RetainFile f s)" "reg_inv (ClearChunks s)" "reg_inv (SetPrefetchHandler on s)"
    "reg_inv (fst (ApplyControl msg s))" "reg_inv (StartCoordinator s)"
  using assms
  by (auto simp: reg_inv_def maps_ok_def owners_ok_def load_ok_def slots_ok_def conns_ok_def AddChunk_def
      index_store_def BeSendSub_def RetainFile_def ClearChunks_def SetPrefetchHandler_def
      ApplyControl_def StartCoordinator_def split: control_msg.splits)

lemma inv_slots:
  assumes "reg_inv s"
  shows "reg_inv (snd (acquire_turn now s))" "reg_inv (ReleaseUploadSlot s)" "reg_inv (SetUploadMax n s)"
  using assms
  by (auto simp: reg_inv_def maps_ok_def owners_ok_def load_ok_def slots_ok_def conns_ok_def
      acquire_turn_def ReleaseUploadSlot_def SetUploadMax_def upload_cap_def)

lemma inv_conns:
  assumes "reg_inv s"
  shows "reg_inv (accept_conn c s)" "reg_inv (CloseConn c s)" "reg_inv (stop_begin s)" "reg_inv (stop_end s)"
proof -
  note defs = reg_inv_def maps_ok_def owners_ok_def load_ok_def slots_ok_def
  have c: "conns_ok s" using assms by (simp add: reg_inv_def)
  have "conns_ok (accept_conn c s)"
    using c by (auto simp: conns_ok_def accept_conn_def List.insert_def)
  then show "reg_inv (accept_conn c s)" using assms by (simp add: defs accept_conn_def)
  have "length (removeAll c (seConnections s)) \<le> max_connections"
    using c length_removeAll_less_eq [of c "seConnections s"] unfolding conns_ok_def by linarith
  then have "conns_ok (CloseConn c s)"
    using c by (auto simp: conns_ok_def CloseConn_def distinct_removeAll)
  then show "reg_inv (CloseConn c s)" using assms by (simp add: defs CloseConn_def)
  have "conns_ok (stop_begin s)" using c by (auto simp: conns_ok_def stop_begin_def filter_empty_conv)
  then show "reg_inv (stop_begin s)" using assms by (simp add: defs stop_begin_def)
  have "conns_ok (stop_end s)" using c by (simp add: conns_ok_def stop_end_def)
  then show "reg_inv (stop_end s)" using assms by (simp add: defs stop_end_def)
qed

section \<open>Scheduling\<close>

lemma inv_expire:
  assumes "reg_inv s"
  shows "reg_inv (expireLeasesLocked now s)"
proof -
  let ?t = "expireLeasesLocked now s"
  have k: "map fst (sePeers ?t) = map fst (sePeers s)" by simp
  have "load_ok ?t"
    using assms by (auto simp: load_ok_def expire_peers_get reg_inv_def peer_ok_expire)
  moreover have "maps_ok ?t" using assms unfolding reg_inv_def maps_ok_def k by simp
  moreover have "fst ` set (sePeers ?t) = fst ` set (sePeers s)" using k by (metis list.set_map)
  then have "owners_ok ?t" using assms by (simp add: reg_inv_def owners_ok_def)
  ultimately show ?thesis
    using assms by (simp add: reg_inv_def slots_ok_def conns_ok_def expireLeasesLocked_def)
qed

text \<open>A lease may be added to the central node at any load and to another peer below the limit.\<close>

lemma inv_lease:
  assumes "reg_inv s" and "u = seUUID s \<or> (\<exists>p. mget (sePeers s) u = Some p \<and> peConnNum p < maxInflight)"
  shows "reg_inv (leaseLocked u i r now s)"
proof -
  let ?p = "case mget (sePeers s) u of None \<Rightarrow> new_peer [] None | Some p \<Rightarrow> p"
  have p: "peer_load_ok (seUUID s) u ?p" using peer_ok_get [OF assms(1)] by (auto split: option.splits)
  have "u \<noteq> seUUID s \<Longrightarrow> peConnNum ?p < maxInflight" using assms(2) by auto
  then have "peer_load_ok (seUUID s) u (add_lease (leaseKey r i) now ?p)"
    using p by (auto simp: peer_load_ok_def lease_ok_add add_lease_num) (simp_all add: add_lease_def)
  then show ?thesis using assms(1) by (simp add: leaseLocked_def Let_def set_peer_inv)
qed

lemma candidate_leasable:
  "c \<in> set (candidates now req remote s) \<Longrightarrow>
     scUUID c = seUUID s \<or> (\<exists>p. mget (sePeers s) (scUUID c) = Some p \<and> peConnNum p < maxInflight)"
  using candidate_uuid [of c now req remote s] by (auto simp: available_def)

lemma inv_want: "reg_inv s \<Longrightarrow> reg_inv (snd (want_locked now now' req remote s))"
  unfolding want_locked_def candidatesLocked_def Let_def
  by (simp add: inv_lease [OF inv_expire candidate_leasable [OF hd_candidates]])

lemma inv_pickFor: "reg_inv s \<Longrightarrow> reg_inv (snd (pickFor now now' i remote r s))"
  unfolding pickFor_def candidatesLocked_def Let_def
  by (simp add: inv_lease [OF inv_expire candidate_leasable [OF hd_candidates]])

section \<open>Every interleaving\<close>

text \<open>One rule per critical section, and two that permute a map: the order in which the next
  \<^verbatim>\<open>range\<close> loop visits it is open.\<close>

inductive sess_step :: "session \<Rightarrow> session \<Rightarrow> bool" where
  add_peer: "sess_step s (AddPeer u a c s)"
| remove_peer: "sess_step s (RemovePeer u s)"
| add_owner: "sess_step s (AddBlockOwner i u s)"
| control_conn: "sess_step s (SetControlConn u c s)"
| peer_zone: "sess_step s (SetPeerZone u z s)"
| update: "sess_step s (UpdatePeer u speed status i r now now' s)"
| want: "sess_step s (snd (want_locked now now' req remote s))"
| pick: "sess_step s (snd (pickFor now now' i remote r s))"
| unlease: "sess_step s (queue_release u i r s)"
| add_chunk: "sess_step s (AddChunk i cs s)"
| index: "sess_step s (index_store i cs s)"
| main: "sess_step s (snd (BeSendMain f st st' s))"
| sub: "sess_step s (BeSendSub f st s)"
| retain: "sess_step s (RetainFile f s)"
| clear_chunks: "sess_step s (ClearChunks s)"
| clear_content: "sess_step s (ClearContent s)"
| mark: "sess_step s (MarkSender s)"
| coordinator: "sess_step s (StartCoordinator s)"
| prefetch: "sess_step s (SetPrefetchHandler on s)"
| control: "sess_step s (fst (ApplyControl msg s))"
| acquire: "sess_step s (snd (acquire_turn now s))"
| release_slot: "sess_step s (ReleaseUploadSlot s)"
| upload_max: "sess_step s (SetUploadMax n s)"
| accept: "sess_step s (accept_conn c s)"
| close_one: "sess_step s (CloseConn c s)"
| stop1: "sess_step s (stop_begin s)"
| stop2: "sess_step s (stop_end s)"
| permute_peers: "mset ps = mset (sePeers s) \<Longrightarrow> sess_step s (s\<lparr>sePeers := ps\<rparr>)"
| permute_owners: "mset us = mset (mset_of (seChunkOwners s) i) \<Longrightarrow> mget (seChunkOwners s) i \<noteq> None \<Longrightarrow>
    sess_step s (s\<lparr>seChunkOwners := mput i us (seChunkOwners s)\<rparr>)"

definition sess_init :: "session \<Rightarrow> bool" where
  "sess_init s \<longleftrightarrow> (\<exists>addr uuid. s = NewGspSession addr uuid)"

lemma mset_wf: "mset m = mset m' \<Longrightarrow> wf_map m = wf_map m'"
  by (metis mset_eq_imp_distinct_iff mset_map)

lemma inv_permute_peers:
  assumes "reg_inv s" and eq: "mset ps = mset (sePeers s)"
  shows "reg_inv (s\<lparr>sePeers := ps\<rparr>)"
proof -
  have set: "set ps = set (sePeers s)" using eq by (rule mset_eq_setD)
  have wf: "wf_map ps = wf_map (sePeers s)" using eq by (rule mset_wf)
  have "wf_map (sePeers s)" using assms(1) by (simp add: reg_inv_def maps_ok_def)
  then have "mget ps = mget (sePeers s)" using set wf by (intro map_of_inject_set [THEN iffD2]) auto
  then show ?thesis
    using assms(1) set wf
    by (simp add: reg_inv_def maps_ok_def owners_ok_def load_ok_def slots_ok_def conns_ok_def)
qed

lemma inv_permute_owners:
  assumes "reg_inv s" and eq: "mset us = mset (mset_of (seChunkOwners s) i)"
  shows "reg_inv (s\<lparr>seChunkOwners := mput i us (seChunkOwners s)\<rparr>)"
proof -
  have "set us = set (mset_of (seChunkOwners s) i)" using eq by (rule mset_eq_setD)
  moreover have "distinct us = distinct (mset_of (seChunkOwners s) i)" using eq by (rule mset_eq_imp_distinct_iff)
  ultimately show ?thesis
    using assms(1)
    by (auto simp: reg_inv_def maps_ok_def owners_ok_def load_ok_def slots_ok_def conns_ok_def gomap_simps
        split: if_splits)
qed

lemmas inv_ops = inv_AddPeer inv_RemovePeer inv_AddBlockOwner inv_SetControlConn inv_SetPeerZone
  inv_UpdatePeer inv_want inv_pickFor inv_queue_release inv_light inv_BeSendMain inv_ClearContent
  inv_MarkSender inv_slots inv_conns inv_permute_peers inv_permute_owners

lemma reg_inv_step: "sess_step s t \<Longrightarrow> reg_inv s \<Longrightarrow> reg_inv t"
  by (induction rule: sess_step.induct) (simp_all add: inv_ops)

interpretation sess: invariant_system sess_init sess_step reg_inv
  by unfold_locales (auto simp: sess_init_def reg_inv_new intro: reg_inv_step)

abbreviation reachable_session :: "session \<Rightarrow> bool" where
  "reachable_session \<equiv> reachable sess_init sess_step"

section \<open>Properties\<close>

text \<open>A session for the witnesses: a sender with one registered peer.\<close>

definition sample_session :: session where
  "sample_session = AddPeer ''p'' ''10.0.0.7:80'' (Some 3) (MarkSender (NewGspSession '':0'' ''hub''))"

lemma sample_session_reachable: "reachable_session sample_session"
proof -
  have "reachable_session (NewGspSession '':0'' ''hub'')"
    by (rule reach_init) (auto simp: sess_init_def)
  then have "reachable_session (MarkSender (NewGspSession '':0'' ''hub''))"
    by (rule reach_step) (rule sess_step.mark)
  then show ?thesis unfolding sample_session_def by (rule reach_step) (rule sess_step.add_peer)
qed

text \<open>C3: in every reachable session the load that scheduling reads is true: a peer's connection
  count is the number of its leases, under distinct keys, and no peer but the central node ever
  has more than two.\<close>

theorem load_is_leases:
  assumes "reachable_session s" and "mget (sePeers s) u = Some p"
  shows "peConnNum p = int (length (peLeases p)) \<and> distinct (map fst (peLeases p)) \<and>
    (u \<noteq> seUUID s \<longrightarrow> peConnNum p \<le> maxInflight)"
  using peer_ok_get [OF sess.reach_inv [OF assms(1)] assms(2)]
  by (auto simp: peer_load_ok_def lease_ok_def)

theorem load_is_leases_witness:
  "peConnNum (the (mget (sePeers sample_session) ''p'')) \<le> maxInflight"
proof -
  have p: "mget (sePeers sample_session) ''p'' = Some (new_peer ''10.0.0.7:80'' (Some 3))"
    by (simp add: sample_session_def AddPeer_def MarkSender_def NewGspSession_def)
  have "''p'' \<noteq> seUUID sample_session"
    by (simp add: sample_session_def AddPeer_def MarkSender_def NewGspSession_def)
  with load_is_leases [OF sample_session_reachable p] p show ?thesis by simp
qed

text \<open>C4: in every reachable session the two ownership maps agree for every peer, chunk owners are
  registered peers or the session itself, and no chunk index is negative.\<close>

theorem ownership_consistent:
  assumes "reachable_session s"
  shows "\<forall>u i. u \<noteq> seUUID s \<longrightarrow>
    (u \<in> set (mset_of (seChunkOwners s) i) \<longleftrightarrow> i \<in> set (mset_of (sePeerOwners s) u)) \<and>
    (u \<in> set (mset_of (seChunkOwners s) i) \<longrightarrow> 0 \<le> i \<and> mget (sePeers s) u \<noteq> None)"
proof -
  have o: "owners_ok s" using sess.reach_inv [OF assms] by (simp add: reg_inv_def)
  have "mget (sePeers s) u \<noteq> None" if "i \<in> set (mset_of (sePeerOwners s) u)" for u i
  proof -
    have "mget (sePeerOwners s) u \<noteq> None" using that by (cases "mget (sePeerOwners s) u") (simp_all add: mset_of_def)
    then have "u \<in> fst ` set (sePeerOwners s)" by (simp add: mget_None)
    then have "u \<in> fst ` set (sePeers s)" using o by (auto simp: owners_ok_def)
    then show ?thesis by (simp add: mget_None)
  qed
  then show ?thesis using o unfolding owners_ok_def by blast
qed

theorem ownership_consistent_witness:
  "\<not> (''q'' \<in> set (mset_of (seChunkOwners sample_session) 4)) \<longleftrightarrow>
     4 \<notin> set (mset_of (sePeerOwners sample_session) ''q'')"
proof -
  have "''q'' \<noteq> seUUID sample_session"
    by (simp add: sample_session_def AddPeer_def MarkSender_def NewGspSession_def)
  with ownership_consistent [OF sample_session_reachable] show ?thesis by blast
qed

text \<open>A peer that disconnects is forgotten completely: it is no peer, owns no chunk and is never
  a candidate again until it registers, and nothing is forgotten about any other peer.\<close>

theorem removed_peer_forgotten:
  assumes "reachable_session s" and "u \<noteq> seUUID s"
  shows "mget (sePeers (RemovePeer u s)) u = None \<and>
    (\<forall>i. u \<notin> set (mset_of (seChunkOwners (RemovePeer u s)) i)) \<and>
    (\<forall>now req remote c. c \<in> set (candidates now req remote (RemovePeer u s)) \<longrightarrow> scUUID c \<noteq> u) \<and>
    (\<forall>v i. v \<noteq> u \<longrightarrow> (v \<in> set (mset_of (seChunkOwners (RemovePeer u s)) i) \<longleftrightarrow>
       v \<in> set (mset_of (seChunkOwners s) i)) \<and> mget (sePeers (RemovePeer u s)) v = mget (sePeers s) v)"
proof -
  have o: "owners_ok s" using sess.reach_inv [OF assms(1)] by (simp add: reg_inv_def)
  have own: "set (mset_of (seChunkOwners (RemovePeer u s)) i) = set (mset_of (seChunkOwners s) i) - {u}" for i
    using o assms(2) by (auto simp: RemovePeer_def mset_of_foldl_del owners_ok_def)
  have peers: "mget (sePeers (RemovePeer u s)) v = (if v = u then None else mget (sePeers s) v)" for v
    by (simp add: RemovePeer_def delete_conv')
  have self: "seUUID (RemovePeer u s) = seUUID s" by (simp add: RemovePeer_def)
  have cand: "scUUID c \<noteq> u" if "c \<in> set (candidates now req remote (RemovePeer u s))" for now req remote c
    using candidate_uuid [OF that] peers [of u] self assms(2) by auto
  show ?thesis using own peers cand by auto
qed

theorem removed_peer_forgotten_witness:
  "mget (sePeers (RemovePeer ''p'' sample_session)) ''p'' = None"
  using removed_peer_forgotten [OF sample_session_reachable, of "''p''"]
  by (simp add: sample_session_def AddPeer_def MarkSender_def NewGspSession_def)

end
