(* ===== verification/Coordinator.thy ===== *)
theory Coordinator
  imports Session
begin

text \<open>
  The coordinator (\<^verbatim>\<open>internal/gsp_sdk/server/control.go\<close>): every five seconds it looks which chunks
  a zone is missing and orders the zone's best peer to fetch them, and it orders overloaded slow
  peers to back off. \<open>coordinateOnce\<close> is one round; its commands go out with \<open>sendControl\<close>.
\<close>

definition maxPrefetchPerZonePerTick :: nat where
  "maxPrefetchPerZonePerTick = 4"

definition backoffSlowMbps :: real where
  "backoffSlowMbps = 250"

definition backoffOverloadConn :: int where
  "backoffOverloadConn = 4"

definition backoffSeconds :: int where
  "backoffSeconds = 15"

record zone_info =
  ziOwned :: "int list"
  ziBestUUID :: string
  ziBestOwned :: nat

definition empty_zone :: zone_info where
  "empty_zone = \<lparr>ziOwned = [], ziBestUUID = [], ziBestOwned = 0\<rparr>"

text \<open>The loop over the peers that builds the zone table.\<close>

definition add_to_zone :: "string \<Rightarrow> int list \<Rightarrow> zone_info \<Rightarrow> zone_info" where
  "add_to_zone u owned zi =
     (let zi1 = zi\<lparr>ziOwned := foldl (\<lambda>os c. List.insert c os) (ziOwned zi) owned\<rparr>
      in if ziBestUUID zi = [] \<or> ziBestOwned zi < length owned
         then zi1\<lparr>ziBestUUID := u, ziBestOwned := length owned\<rparr> else zi1)"

definition zone_step :: "session \<Rightarrow> (string, zone_info) gomap \<Rightarrow> string \<times> peer \<Rightarrow> (string, zone_info) gomap" where
  "zone_step s zones up =
     (case up of (u, p) \<Rightarrow>
        if u = seUUID s \<or> peZone p = [] then zones
        else
          (let zi = (case mget zones (peZone p) of None \<Rightarrow> empty_zone | Some zi \<Rightarrow> zi)
           in mput (peZone p) (add_to_zone u (mset_of (sePeerOwners s) u) zi) zones))"

definition zone_table :: "session \<Rightarrow> (string, zone_info) gomap" where
  "zone_table s = foldl (zone_step s) [] (sePeers s)"

text \<open>The chunks a zone lacks, at most four of them, lowest index first.\<close>

definition missing_chunks :: "int \<Rightarrow> zone_info \<Rightarrow> int list" where
  "missing_chunks num zi =
     take maxPrefetchPerZonePerTick (filter (\<lambda>c. c \<notin> set (ziOwned zi)) (map int [0..<nat num]))"

definition zone_cmds :: "int \<Rightarrow> zone_info \<Rightarrow> (string \<times> control_msg) list" where
  "zone_cmds num zi =
     (if ziBestUUID zi = [] then []
      else map (\<lambda>c. (ziBestUUID zi, Prefetch c)) (missing_chunks num zi))"

definition overloaded_peer :: "peer \<Rightarrow> bool" where
  "overloaded_peer p \<longleftrightarrow>
     0 < peSpeedEwma p \<and> peSpeedEwma p < backoffSlowMbps \<and> backoffOverloadConn < peConnNum p"

text \<open>\<open>now_unix\<close> is the Unix time of the clock; \<^verbatim>\<open>until\<close> adds the backoff to it.\<close>

definition backoff_cmds :: "int \<Rightarrow> session \<Rightarrow> (string \<times> control_msg) list" where
  "backoff_cmds now_unix s =
     map (\<lambda>(u, p). (u, Backoff (now_unix + backoffSeconds)))
       (filter (\<lambda>(u, p). u \<noteq> seUUID s \<and> overloaded_peer p) (sePeers s))"

definition coordinateOnce :: "int \<Rightarrow> session \<Rightarrow> (string \<times> control_msg) list" where
  "coordinateOnce now_unix s =
     (let ck = seChunkProvider s; num = GetChunkNum ck
      in if fcStat ck = None \<or> num \<le> 0 then []
         else concat (map (\<lambda>(z, zi). zone_cmds num zi) (zone_table s)) @ backoff_cmds now_unix s)"

text \<open>\<^verbatim>\<open>sendControl\<close>: the connection a command is written to, if the peer still has one.\<close>

definition sendControl :: "string \<Rightarrow> session \<Rightarrow> conn option" where
  "sendControl u s = (case mget (sePeers s) u of None \<Rightarrow> None | Some p \<Rightarrow> peConn p)"

section \<open>The zone table\<close>

text \<open>The peers of a zone, in the order they are visited.\<close>

definition zone_members :: "session \<Rightarrow> string \<Rightarrow> (string \<times> peer) list \<Rightarrow> string list" where
  "zone_members s z ps = map fst (filter (\<lambda>(u, p). u \<noteq> seUUID s \<and> peZone p = z) ps)"

definition zone_ok :: "session \<Rightarrow> string list \<Rightarrow> zone_info \<Rightarrow> bool" where
  "zone_ok s us zi \<longleftrightarrow>
     set (ziOwned zi) = (\<Union>u \<in> set us. set (mset_of (sePeerOwners s) u)) \<and>
     (us = [] \<longrightarrow> ziBestUUID zi = []) \<and>
     (us \<noteq> [] \<and> [] \<notin> set us \<longrightarrow>
        ziBestUUID zi \<in> set us \<and> ziBestOwned zi = length (mset_of (sePeerOwners s) (ziBestUUID zi)) \<and>
        (\<forall>u \<in> set us. length (mset_of (sePeerOwners s) u) \<le> ziBestOwned zi))"

lemma insert_all: "set (foldl (\<lambda>os c. List.insert c os) os cs) = set os \<union> set cs"
  by (induction cs arbitrary: os) auto

lemma zone_ok_empty: "zone_ok s [] empty_zone"
  by (simp add: zone_ok_def empty_zone_def)

lemma zone_ok_add:
  assumes "zone_ok s us zi"
  shows "zone_ok s (us @ [u]) (add_to_zone u (mset_of (sePeerOwners s) u) zi)"
proof (cases "us = []")
  case True
  with assms show ?thesis by (auto simp: zone_ok_def add_to_zone_def insert_all Let_def)
next
  case False
  with assms show ?thesis
    by (auto simp: zone_ok_def add_to_zone_def insert_all Let_def)
qed

lemma zone_step_member:
  "u \<noteq> seUUID s \<Longrightarrow> peZone p \<noteq> [] \<Longrightarrow> zone_step s t (u, p) =
     mput (peZone p) (add_to_zone u (mset_of (sePeerOwners s) u)
       (case mget t (peZone p) of None \<Rightarrow> empty_zone | Some zi \<Rightarrow> zi)) t"
  by (simp add: zone_step_def Let_def)

lemma zone_table_ok:
  "(mget (foldl (zone_step s) [] ps) z = None \<longleftrightarrow> z = [] \<or> zone_members s z ps = []) \<and>
   (\<forall>zi. mget (foldl (zone_step s) [] ps) z = Some zi \<longrightarrow> zone_ok s (zone_members s z ps) zi)"
proof (induction ps rule: rev_induct)
  case Nil
  then show ?case by (simp add: zone_members_def)
next
  case (snoc up ps)
  obtain u p where up: "up = (u, p)" by (cases up)
  let ?t = "foldl (zone_step s) [] ps"
  show ?case
  proof (cases "u \<noteq> seUUID s \<and> peZone p = z \<and> z \<noteq> []")
    case True
    let ?zi = "case mget ?t z of None \<Rightarrow> empty_zone | Some zi \<Rightarrow> zi"
    have "zone_ok s (zone_members s z ps) ?zi"
      using snoc True by (auto simp: zone_ok_empty split: option.splits)
    from zone_ok_add [OF this, of u] show ?thesis
      using True up by (auto simp: zone_step_member zone_members_def gomap_simps)
  next
    case False
    have m: "zone_members s z (ps @ [up]) = zone_members s z ps \<or> z = []"
      using False up by (auto simp: zone_members_def)
    have g: "mget (zone_step s ?t up) z = mget ?t z"
      using False up by (auto simp: zone_step_def Let_def gomap_simps)
    show ?thesis using snoc m g by auto
  qed
qed

lemma zone_table_wf: "wf_map (foldl (zone_step s) [] ps)"
  by (induction ps rule: rev_induct) (auto simp: zone_step_def Let_def split: prod.splits)

lemma backoff_unreachable: "reg_inv s \<Longrightarrow> backoff_cmds now_unix s = []"
proof -
  assume inv: "reg_inv s"
  have "\<not> (u \<noteq> seUUID s \<and> overloaded_peer p)" if "(u, p) \<in> set (sePeers s)" for u p
  proof
    assume o: "u \<noteq> seUUID s \<and> overloaded_peer p"
    have "mget (sePeers s) u = Some p"
      using that inv mget_in [of "sePeers s" u p] by (simp only: reg_inv_def maps_ok_def)
    with inv o have "peConnNum p \<le> 2"
      using peer_ok_get [of s u p] by (simp add: peer_load_ok_def maxInflight_def)
    with o show False by (simp add: overloaded_peer_def backoffOverloadConn_def)
  qed
  then have "filter (\<lambda>(u, p). u \<noteq> seUUID s \<and> overloaded_peer p) (sePeers s) = []"
    unfolding filter_empty_conv by blast
  then show ?thesis by (simp add: backoff_cmds_def)
qed

lemma in_coordinate:
  "reg_inv s \<Longrightarrow> (u, m) \<in> set (coordinateOnce now_unix s) \<longleftrightarrow>
     fcStat (seChunkProvider s) \<noteq> None \<and> 0 < GetChunkNum (seChunkProvider s) \<and>
     (\<exists>z zi. mget (zone_table s) z = Some zi \<and> (u, m) \<in> set (zone_cmds (GetChunkNum (seChunkProvider s)) zi))"
  using zone_table_wf [of s "sePeers s"] mget_in [of "zone_table s"]
  by (auto simp: coordinateOnce_def Let_def backoff_unreachable not_le zone_table_def)

lemma lowest_missing:
  assumes "\<exists>c. 0 \<le> c \<and> c < num \<and> c \<notin> set (ziOwned zi)"
  shows "\<exists>c \<in> set (missing_chunks num zi). \<forall>d. 0 \<le> d \<and> d < c \<longrightarrow> d \<in> set (ziOwned zi)"
proof -
  let ?f = "filter (\<lambda>c. c \<notin> set (ziOwned zi)) (map int [0..<nat num])"
  obtain c where c: "0 \<le> c" "c < num" "c \<notin> set (ziOwned zi)" using assms by blast
  then have "c \<in> set ?f" by (auto simp: image_iff intro!: bexI [of _ "nat c"])
  then have ne: "?f \<noteq> []" by (metis empty_iff empty_set)
  have srt: "sorted ?f" by (rule sorted_filter [of "\<lambda>x. x", simplified]) (simp add: sorted_map comp_def)
  have "hd ?f \<in> set (missing_chunks num zi)"
    using ne by (cases ?f) (auto simp: missing_chunks_def maxPrefetchPerZonePerTick_def)
  moreover have "d \<in> set (ziOwned zi)" if "0 \<le> d" "d < hd ?f" for d
  proof (rule ccontr)
    assume d: "d \<notin> set (ziOwned zi)"
    have "hd ?f \<in> set ?f" using ne by (rule hd_in_set)
    then have "hd ?f < num" by (auto simp del: hd_in_set)
    with that d have "d \<in> set ?f" by (auto simp: image_iff intro!: bexI [of _ "nat d"])
    with srt ne have "hd ?f \<le> d" by (cases ?f) auto
    with that show False by simp
  qed
  ultimately show ?thesis by blast
qed

section \<open>Properties\<close>

text \<open>No backoff order is ever sent. An order needs a peer with more than four leases, but no
  reachable session has a peer other than the central node with more than two, so the branch of
  \<^verbatim>\<open>coordinateOnce\<close> that protects slow sources is dead.\<close>

theorem backoff_never_sent:
  assumes "reachable_session s"
  shows "(u, Backoff t) \<notin> set (coordinateOnce now_unix s)"
  using in_coordinate [OF sess.reach_inv [OF assms]] by (auto simp: zone_cmds_def)

theorem backoff_never_sent_witness: "(''p'', Backoff 15) \<notin> set (coordinateOnce 0 sample_session)"
  by (rule backoff_never_sent [OF sample_session_reachable])

text \<open>A sender of a two-byte file with one peer in a labelled zone.\<close>

definition sample_stat :: file_stat where
  "sample_stat = \<lparr>fsName = ''f'', fsSize = 2, fsModTime = 0, fsIdent = 1, fsRegular = True\<rparr>"

definition sample_sender :: session where
  "sample_sender =
     SetPeerZone ''p'' ''lab'' (AddPeer ''p'' ''10.0.0.7:80'' (Some 3)
       (snd (BeSendMain 4 (Some sample_stat) (Some sample_stat) (NewGspSession '':0'' ''hub''))))"

lemma sample_sender_reachable: "reachable_session sample_sender"
proof -
  let ?s0 = "NewGspSession '':0'' ''hub''"
  let ?s1 = "snd (BeSendMain 4 (Some sample_stat) (Some sample_stat) ?s0)"
  have "reachable_session ?s0" by (rule reach_init) (auto simp: sess_init_def)
  then have "reachable_session ?s1" by (rule reach_step) (rule sess_step.main)
  then have "reachable_session (AddPeer ''p'' ''10.0.0.7:80'' (Some 3) ?s1)"
    by (rule reach_step) (rule sess_step.add_peer)
  then show ?thesis unfolding sample_sender_def by (rule reach_step) (rule sess_step.peer_zone)
qed

lemma sample_sender_chunks: "GetChunkNum (seChunkProvider sample_sender) = 1"
  and sample_sender_file: "fcStat (seChunkProvider sample_sender) = Some sample_stat"
proof -
  have p: "seChunkProvider sample_sender = NewFileChunk 4 (Some sample_stat)"
    by (simp add: sample_sender_def SetPeerZone_def AddPeer_def BeSendMain_def sample_stat_def Let_def
        StartCoordinator_def NewGspSession_def split: option.splits)
  have "well_sized (NewFileChunk 4 (Some sample_stat)) 2"
    by (simp add: well_sized_def NewFileChunk_def sample_stat_def)
  from chunk_num_eq [OF this] show "GetChunkNum (seChunkProvider sample_sender) = 1"
    by (simp add: p ChunkSize_num)
  show "fcStat (seChunkProvider sample_sender) = Some sample_stat" by (simp add: p NewFileChunk_def)
qed

lemma sample_sender_peers:
  "sePeers sample_sender = [(''hub'', new_peer [] None), (''p'', (new_peer ''10.0.0.7:80'' (Some 3))\<lparr>peZone := ''lab''\<rparr>)]"
  "seUUID sample_sender = ''hub''" "sePeerOwners sample_sender = []"
  by (simp_all add: sample_sender_def SetPeerZone_def AddPeer_def BeSendMain_def sample_stat_def Let_def
      StartCoordinator_def NewGspSession_def zoneOf_def split: option.splits)

lemma sample_sender_members: "zone_members sample_sender ''lab'' (sePeers sample_sender) = [''p'']"
  by (simp add: zone_members_def sample_sender_peers new_peer_def)

text \<open>A prefetch order is sound and useful: it goes to a registered peer of a zone, for a chunk of
  the current file that no peer of that zone has, and no peer of the zone owns more chunks than
  the one ordered.\<close>

theorem prefetch_sound:
  assumes "reachable_session s" and names: "[] \<notin> set (map fst (sePeers s))"
    and cmd: "(u, Prefetch c) \<in> set (coordinateOnce now_unix s)"
  shows "0 \<le> c \<and> c < GetChunkNum (seChunkProvider s) \<and>
    (\<exists>z. z \<noteq> [] \<and> u \<in> set (zone_members s z (sePeers s)) \<and>
       (\<forall>v \<in> set (zone_members s z (sePeers s)). c \<notin> set (mset_of (sePeerOwners s) v) \<and>
          length (mset_of (sePeerOwners s) v) \<le> length (mset_of (sePeerOwners s) u)))"
proof -
  obtain z zi where zi: "mget (zone_table s) z = Some zi"
    and m: "(u, Prefetch c) \<in> set (zone_cmds (GetChunkNum (seChunkProvider s)) zi)"
    using cmd in_coordinate [OF sess.reach_inv [OF assms(1)]] by blast
  have tbl: "z \<noteq> []" "zone_members s z (sePeers s) \<noteq> []" "zone_ok s (zone_members s z (sePeers s)) zi"
    using zone_table_ok [of s "sePeers s" z] zi by (auto simp: zone_table_def)
  have "[] \<notin> set (zone_members s z (sePeers s))"
    using names by (auto simp: zone_members_def)
  with tbl have ok: "ziBestUUID zi \<in> set (zone_members s z (sePeers s))"
    "ziBestOwned zi = length (mset_of (sePeerOwners s) (ziBestUUID zi))"
    "\<forall>v \<in> set (zone_members s z (sePeers s)). length (mset_of (sePeerOwners s) v) \<le> ziBestOwned zi"
    "set (ziOwned zi) = (\<Union>v \<in> set (zone_members s z (sePeers s)). set (mset_of (sePeerOwners s) v))"
    by (auto simp: zone_ok_def)
  have u: "u = ziBestUUID zi" and c: "c \<in> set (missing_chunks (GetChunkNum (seChunkProvider s)) zi)"
    using m by (auto simp: zone_cmds_def split: if_splits)
  then have "0 \<le> c \<and> c < GetChunkNum (seChunkProvider s) \<and> c \<notin> set (ziOwned zi)"
    by (auto simp: missing_chunks_def dest!: in_set_takeD)
  with u tbl(1) ok show ?thesis by auto
qed

theorem prefetch_sound_witness:
  "(''p'', Prefetch 0) \<in> set (coordinateOnce 0 sample_sender) \<and>
   (0::int) < GetChunkNum (seChunkProvider sample_sender)"
proof
  show cmd: "(''p'', Prefetch 0) \<in> set (coordinateOnce 0 sample_sender)"
    by (simp add: coordinateOnce_def Let_def sample_sender_chunks sample_sender_file zone_table_def
        sample_sender_peers zone_step_def new_peer_def zone_cmds_def add_to_zone_def empty_zone_def
        missing_chunks_def maxPrefetchPerZonePerTick_def)
  show "(0::int) < GetChunkNum (seChunkProvider sample_sender)"
    using prefetch_sound [OF sample_sender_reachable _ cmd] by (simp add: sample_sender_peers)
qed

text \<open>No zone is starved: while the session has a file and some peer is in a zone none of whose
  peers has some chunk, the round orders a peer of that zone to fetch its lowest missing chunk.\<close>

theorem prefetch_complete:
  assumes "reachable_session s" and names: "[] \<notin> set (map fst (sePeers s))"
    and member: "u \<in> set (zone_members s z (sePeers s))" "z \<noteq> []"
    and content: "fcStat (seChunkProvider s) \<noteq> None"
    and lacking: "\<exists>c. 0 \<le> c \<and> c < GetChunkNum (seChunkProvider s) \<and>
      (\<forall>v \<in> set (zone_members s z (sePeers s)). c \<notin> set (mset_of (sePeerOwners s) v))"
  shows "\<exists>v c. (v, Prefetch c) \<in> set (coordinateOnce now_unix s) \<and> v \<in> set (zone_members s z (sePeers s)) \<and>
    (\<forall>d. 0 \<le> d \<and> d < c \<longrightarrow> (\<exists>w \<in> set (zone_members s z (sePeers s)). d \<in> set (mset_of (sePeerOwners s) w)))"
proof -
  let ?us = "zone_members s z (sePeers s)"
  have ne: "?us \<noteq> []" using member by auto
  then obtain zi where zi: "mget (zone_table s) z = Some zi" and ok: "zone_ok s ?us zi"
    using zone_table_ok [of s "sePeers s" z] member by (cases "mget (zone_table s) z") (auto simp: zone_table_def)
  have "[] \<notin> set ?us" using names by (auto simp: zone_members_def)
  with ne ok have best: "ziBestUUID zi \<in> set ?us" "ziBestUUID zi \<noteq> []"
    and owned: "set (ziOwned zi) = (\<Union>v \<in> set ?us. set (mset_of (sePeerOwners s) v))"
    by (auto simp: zone_ok_def)
  obtain c where c: "c \<in> set (missing_chunks (GetChunkNum (seChunkProvider s)) zi)"
      "\<forall>d. 0 \<le> d \<and> d < c \<longrightarrow> d \<in> set (ziOwned zi)"
    using lacking lowest_missing [of "GetChunkNum (seChunkProvider s)" zi] unfolding owned by blast
  have "0 < GetChunkNum (seChunkProvider s)" using lacking by force
  then have "(ziBestUUID zi, Prefetch c) \<in> set (coordinateOnce now_unix s)"
    using c best zi content
    unfolding in_coordinate [OF sess.reach_inv [OF assms(1)]] by (auto simp: zone_cmds_def)
  with c best owned show ?thesis by auto
qed

theorem prefetch_complete_witness: "\<exists>c. (''p'', Prefetch c) \<in> set (coordinateOnce 7 sample_sender)"
proof -
  have "\<exists>c::int. 0 \<le> c \<and> c < 1" by (rule exI [of _ 0]) simp
  moreover have "[] \<notin> set (map fst (sePeers sample_sender))" by (simp add: sample_sender_peers)
  ultimately show ?thesis
    using prefetch_complete [OF sample_sender_reachable, of "''p''" "''lab''" 7]
    by (auto simp: sample_sender_members sample_sender_chunks sample_sender_file sample_sender_peers(3))
qed

end
