(* ===== verification/Dispatch.thy ===== *)
theory Dispatch
  imports Session
begin

text \<open>
  What the dispatch queue promises on reachable sessions: whom it offers as a source and in which
  order, what a lease costs and when it ends, how a failed source is kept out, and how many
  uploads and connections a session carries.
\<close>

section \<open>The answer to a request\<close>

lemma lease_key_eq: "leaseKey r i = leaseKey r' i' \<longleftrightarrow> r = r' \<and> i = i'"
proof
  assume eq: "leaseKey r i = leaseKey r' i'"
  have "last_index (CHR '':'') (leaseKey r i) = Some (length r)" for r i
    using last_index_append [of "CHR '':''" "format_int i" r] by (simp add: leaseKey_def colon_not_in_format_int)
  with eq have "length r = length r'" by (metis option.inject)
  with eq show "r = r' \<and> i = i'" by (auto simp: leaseKey_def dest: format_int_inj)
qed simp

lemma owners_distinct_fst:
  "reg_inv s \<Longrightarrow> distinct (map fst (other_owners req s))"
proof -
  assume inv: "reg_inv s"
  let ?f = "\<lambda>u. if u = wrUUID req \<or> u = seUUID s then None else map_option (Pair u) (mget (sePeers s) u)"
  have "map fst (List.map_filter ?f us) = filter (\<lambda>u. ?f u \<noteq> None) us" for us
    by (induction us) (auto simp: map_filter_simps)
  moreover have "distinct (mset_of (seChunkOwners s) (wrIndex req))"
    using inv by (simp add: reg_inv_def maps_ok_def)
  ultimately show ?thesis by (simp add: other_owners_def)
qed

lemma candidates_distinct:
  assumes "reg_inv s"
  shows "distinct (map scUUID (candidates now req remote s))"
proof -
  let ?own = "filter (\<lambda>(u, p). available now p) (other_owners req s)"
  let ?peers = "map (\<lambda>(u, p). Scored (peer_score now (request_zone req remote s) p) u (peConnAddr p)) ?own"
  have u: "map scUUID ?peers = map fst ?own" by (simp add: comp_def case_prod_unfold)
  have "distinct (map fst ?own)" using owners_distinct_fst [OF assms] by (rule distinct_map_filter)
  moreover have "seUUID s \<notin> set (map fst ?own)" by (auto simp: in_other_owners)
  ultimately have "distinct (map scUUID (?peers @ [Scored x (seUUID s) []]))" for x
    unfolding map_append u by simp
  moreover have "distinct (map scUUID (sort cs)) = distinct (map scUUID cs)" for cs
    by (rule mset_eq_imp_distinct_iff) simp
  ultimately show ?thesis unfolding candidates_def Let_def by (simp only:)
qed

lemma want_parts:
  assumes "want_locked now now' req remote s = (resp, t)"
  defines "s1 \<equiv> expireLeasesLocked now s"
  defines "cs \<equiv> candidates now req remote s1"
  shows "rsUUID resp = scUUID (hd cs)" "rsAddr resp = scAddr (hd cs)"
    "rsSources resp = map (\<lambda>c. (scAddr c, scUUID c)) (take (sources_wanted (wrWant req) (length cs)) cs)"
    "t = leaseLocked (scUUID (hd cs)) (wrIndex req) (wrUUID req) now' s1"
  using assms by (auto simp: want_locked_def candidatesLocked_def Let_def)

lemma sources_wanted_bounds:
  "0 < n \<Longrightarrow> 0 < sources_wanted w n \<and> sources_wanted w n \<le> 3 \<and> sources_wanted w n \<le> n"
  by (auto simp: sources_wanted_def SchedMaxSourcesPerWant_def)

definition sample_req :: want_req where
  "sample_req = \<lparr>wrZone = [], wrWant = 5, wrUUID = ''q'', wrIndex = 0\<rparr>"

text \<open>C5: the answer to \<^verbatim>\<open>wantChunk\<close> lists one to three sources with distinct UUIDs, the first being
  the one it names. A source is the central node, without an address, or a registered peer under
  its registered address that owns the chunk, is not the requester, is not cooling down and has a
  free lease.\<close>

theorem want_answer:
  assumes "reachable_session s" and "want_locked now now' req remote s = (resp, t)"
  shows "rsSources resp \<noteq> [] \<and> length (rsSources resp) \<le> 3 \<and>
    hd (rsSources resp) = (rsAddr resp, rsUUID resp) \<and> distinct (map snd (rsSources resp)) \<and>
    (\<forall>(a, u) \<in> set (rsSources resp).
       u = seUUID s \<and> a = [] \<or>
       (\<exists>p. mget (sePeers s) u = Some p \<and> a = peConnAddr p \<and> u \<noteq> seUUID s \<and> u \<noteq> wrUUID req \<and>
          u \<in> set (mset_of (seChunkOwners s) (wrIndex req)) \<and> peCooldownTil p \<le> now \<and>
          length (filter (\<lambda>(k, e). now \<le> e) (peLeases p)) < 2))"
proof -
  define s1 where "s1 = expireLeasesLocked now s"
  define cs where "cs = candidates now req remote s1"
  define n where "n = sources_wanted (wrWant req) (length cs)"
  have inv: "reg_inv s" using assms(1) by (rule sess.reach_inv)
  have inv1: "reg_inv s1" unfolding s1_def using inv by (rule inv_expire)
  note parts = want_parts [OF assms(2), folded s1_def, folded cs_def, folded n_def]
  have ne: "cs \<noteq> []" by (simp add: cs_def)
  then have n: "0 < n" "n \<le> 3" using sources_wanted_bounds [of "length cs"] by (simp_all add: n_def)
  have "distinct (map scUUID cs)" unfolding cs_def using inv1 by (rule candidates_distinct)
  then have "distinct (take n (map scUUID cs))" by (rule distinct_take)
  then have dist: "distinct (map snd (rsSources resp))"
    by (simp add: parts(3) comp_def take_map)
  have hd: "hd (rsSources resp) = (rsAddr resp, rsUUID resp)"
    using ne n(1) by (simp add: parts hd_map)
  have elig: "u = seUUID s \<and> a = [] \<or>
       (\<exists>p. mget (sePeers s) u = Some p \<and> a = peConnAddr p \<and> u \<noteq> seUUID s \<and> u \<noteq> wrUUID req \<and>
          u \<in> set (mset_of (seChunkOwners s) (wrIndex req)) \<and> peCooldownTil p \<le> now \<and>
          length (filter (\<lambda>(k, e). now \<le> e) (peLeases p)) < 2)"
    if "(a, u) \<in> set (rsSources resp)" for a u
  proof -
    from that have "(a, u) \<in> (\<lambda>c. (scAddr c, scUUID c)) ` set (take n cs)" by (simp add: parts(3))
    then obtain c where c: "c \<in> set cs" "a = scAddr c" "u = scUUID c"
      by (auto dest: in_set_takeD)
    show ?thesis
    proof (cases "u = seUUID s")
      case True
      then show ?thesis using candidate_uuid [OF c(1) [unfolded cs_def]] c by (auto simp: s1_def)
    next
      case False
      then obtain q where q: "mget (sePeers s1) u = Some q" "u \<noteq> wrUUID req" "a = peConnAddr q"
          "u \<in> set (mset_of (seChunkOwners s) (wrIndex req))" "available now q"
        using candidate_uuid [OF c(1) [unfolded cs_def]] c by (auto simp: s1_def)
      then obtain p where p: "mget (sePeers s) u = Some p" "q = expire_peer now p"
        by (auto simp: s1_def expire_peers_get)
      have ok: "lease_ok p" using peer_ok_get [OF inv p(1)] by (simp add: peer_load_ok_def)
      have "peConnNum q = int (length (filter (\<lambda>(k, e). now \<le> e) (peLeases p)))"
        using lease_ok_expire [OF ok, of now] by (simp add: lease_ok_def p(2) expire_peer_leases [OF ok])
      with False q p show ?thesis by (auto simp: available_def maxInflight_def)
    qed
  qed
  show ?thesis using ne n dist hd elig by (auto simp: parts(3))
qed

theorem want_answer_witness:
  "rsSources (fst (want_locked 5 6 sample_req None sample_session)) \<noteq> [] \<and>
   length (rsSources (fst (want_locked 5 6 sample_req None sample_session))) \<le> 3"
  using want_answer [OF sample_session_reachable surjective_pairing] by blast

text \<open>The source a request is sent to is the best candidate: no candidate has a higher score, and
  of those with the same score it has the least UUID.\<close>

theorem best_source_chosen:
  assumes "reachable_session s" and "want_locked now now' req remote s = (resp, t)"
  shows "\<exists>c \<in> set (candidates now req remote (expireLeasesLocked now s)). scUUID c = rsUUID resp \<and>
    (\<forall>d \<in> set (candidates now req remote (expireLeasesLocked now s)).
       scScore d < scScore c \<or> scScore d = scScore c \<and> scUUID c \<le> scUUID d)"
proof -
  let ?cs = "candidates now req remote (expireLeasesLocked now s)"
  have srt: "sorted ?cs" by (rule candidates_sorted)
  have le: "hd ?cs \<le> d" if "d \<in> set ?cs" for d
    using srt that by (cases ?cs) auto
  have "scScore d < scScore (hd ?cs) \<or> scScore d = scScore (hd ?cs) \<and> scUUID (hd ?cs) \<le> scUUID d"
    if "d \<in> set ?cs" for d
    using le [OF that] by (auto simp: le_less scored_less_iff)
  moreover have "scUUID (hd ?cs) = rsUUID resp" using want_parts(1) [OF assms(2)] by simp
  ultimately show ?thesis using hd_candidates by blast
qed

theorem best_source_chosen_witness:
  "\<exists>c \<in> set (candidates 5 sample_req None (expireLeasesLocked 5 sample_session)).
     scUUID c = rsUUID (fst (want_locked 5 6 sample_req None sample_session))"
  using best_source_chosen [OF sample_session_reachable surjective_pairing] by blast

section \<open>Leases\<close>

text \<open>The lease of a request names its requester and chunk and no others.\<close>

theorem lease_key_injective: "leaseKey r i = leaseKey r' i' \<longleftrightarrow> r = r' \<and> i = i'"
  by (rule lease_key_eq)

definition load_of :: "session \<Rightarrow> string \<Rightarrow> int" where
  "load_of s u = (case mget (sePeers s) u of None \<Rightarrow> 0 | Some p \<Rightarrow> peConnNum p)"

definition lease_of :: "session \<Rightarrow> string \<Rightarrow> string \<Rightarrow> time option" where
  "lease_of s u k = (case mget (sePeers s) u of None \<Rightarrow> None | Some p \<Rightarrow> mget (peLeases p) k)"

lemma lease_of_leaseLocked:
  "lease_of (leaseLocked u i r now s) v k =
     (if v = u \<and> k = leaseKey r i then Some (now + leaseTTL) else lease_of s v k)"
  by (auto simp: lease_of_def leaseLocked_def Let_def add_lease_def gomap_simps new_peer_def split: option.splits)

lemma load_of_leaseLocked:
  "load_of (leaseLocked u i r now s) v =
     load_of s v + (if v = u \<and> lease_of s u (leaseKey r i) = None then 1 else 0)"
  by (auto simp: load_of_def lease_of_def leaseLocked_def Let_def add_lease_def gomap_simps new_peer_def
      split: option.splits)

lemma lease_of_expire:
  assumes "reg_inv s"
  shows "lease_of (expireLeasesLocked now s) u k =
    (case lease_of s u k of None \<Rightarrow> None | Some e \<Rightarrow> if now \<le> e then Some e else None)"
proof (cases "mget (sePeers s) u")
  case None
  then show ?thesis by (simp add: lease_of_def expire_peers_get)
next
  case (Some p)
  have ok: "lease_ok p" using peer_ok_get [OF assms Some] by (simp add: peer_load_ok_def)
  have "map_of (filter (\<lambda>(k, e). now \<le> e) m) k =
      (case map_of m k of None \<Rightarrow> None | Some e \<Rightarrow> if now \<le> e then Some e else None)"
    if "wf_map m" for m :: "(string, time) gomap"
    using that by (induction m) (auto split: option.splits simp: map_of_eq_None_iff [symmetric])
  then show ?thesis
    using ok Some by (simp add: lease_of_def expire_peers_get expire_peer_leases lease_ok_def)
qed

text \<open>Answering a request first drops every lease that has run out, leaves the others, and gives
  the chosen source a lease of 45 seconds for this requester and chunk; asking again renews it
  instead of counting it twice.\<close>

theorem want_leases:
  assumes "reachable_session s" and "want_locked now now' req remote s = (resp, t)"
  shows "lease_of t u k =
      (if u = rsUUID resp \<and> k = leaseKey (wrUUID req) (wrIndex req) then Some (now' + 45 * second)
       else case lease_of s u k of None \<Rightarrow> None | Some e \<Rightarrow> if now \<le> e then Some e else None)"
  using lease_of_expire [OF sess.reach_inv [OF assms(1)], of now u k] want_parts [OF assms(2)]
  by (simp add: lease_of_leaseLocked leaseTTL_def)

theorem want_leases_witness:
  "lease_of (snd (want_locked 5 6 sample_req None sample_session))
     (rsUUID (fst (want_locked 5 6 sample_req None sample_session))) (leaseKey ''q'' 0) = Some (6 + 45 * second)"
  using want_leases [OF sample_session_reachable surjective_pairing,
      where u = "rsUUID (fst (want_locked 5 6 sample_req None sample_session))" and k = "leaseKey ''q'' 0"]
  by (simp add: sample_req_def)

lemma load_of_release:
  assumes "reg_inv s"
  shows "load_of (queue_release u i r s) v =
    load_of s v - (if v = u \<and> lease_of s u (leaseKey r i) \<noteq> None then 1 else 0)"
proof (cases "mget (sePeers s) u")
  case None
  then show ?thesis by (simp add: queue_release_def lease_of_def)
next
  case (Some p)
  have ok: "lease_ok p" using peer_ok_get [OF assms Some] by (simp add: peer_load_ok_def)
  have "0 < peConnNum p" if "mget (peLeases p) (leaseKey r i) \<noteq> None"
  proof -
    have "peLeases p \<noteq> []" using that by auto
    with ok show ?thesis by (simp add: lease_ok_def)
  qed
  then show ?thesis
    using Some by (auto simp: load_of_def queue_release_def lease_of_def drop_lease_def gomap_simps)
qed

text \<open>A request whose answer could not be written costs nothing: every load is what the expiry
  left, less the lease the requester may have held on this chunk from the same source.\<close>

theorem failed_answer_undone:
  assumes "reachable_session s"
  shows "load_of (snd (WantRequest now now' req remote False s)) u =
    load_of (expireLeasesLocked now s) u -
      (if u = rsUUID (fst (want_locked now now' req remote s)) \<and>
          lease_of (expireLeasesLocked now s) u (leaseKey (wrUUID req) (wrIndex req)) \<noteq> None then 1 else 0)"
proof -
  obtain resp t where w: "want_locked now now' req remote s = (resp, t)" by (cases "want_locked now now' req remote s")
  have "reg_inv (snd (want_locked now now' req remote s))"
    using inv_want [OF sess.reach_inv [OF assms]] .
  then have t: "reg_inv t" using w by simp
  have leased: "lease_of t (rsUUID resp) (leaseKey (wrUUID req) (wrIndex req)) \<noteq> None"
    using want_parts [OF w] by (simp add: lease_of_leaseLocked)
  have "load_of (queue_release (rsUUID resp) (wrIndex req) (wrUUID req) t) u =
      load_of t u - (if u = rsUUID resp then 1 else 0)"
    using load_of_release [OF t] leased by simp
  then show ?thesis
    using w want_parts [OF w] by (auto simp: WantRequest_def load_of_leaseLocked)
qed

theorem failed_answer_undone_witness:
  "load_of (snd (WantRequest 5 6 sample_req None False sample_session)) ''p'' = 0"
proof -
  have p: "sePeers sample_session = [(''hub'', new_peer [] None), (''p'', new_peer ''10.0.0.7:80'' (Some 3))]"
    by (simp add: sample_session_def AddPeer_def MarkSender_def NewGspSession_def)
  have "mget (sePeers (expireLeasesLocked 5 sample_session)) ''p'' = Some (new_peer ''10.0.0.7:80'' (Some 3))"
    unfolding expire_peers_get p by (simp add: expire_peer_def new_peer_def)
  then show ?thesis
    using failed_answer_undone [OF sample_session_reachable, of 5 6 sample_req None "''p''"]
    by (simp add: load_of_def lease_of_def new_peer_def)
qed

section \<open>Independence of the iteration order\<close>

lemma mset_map_filter: "mset us = mset us' \<Longrightarrow> mset (List.map_filter f us) = mset (List.map_filter f us')"
  by (simp add: map_filter_def)

lemma mset_filter_length: "mset xs = mset ys \<Longrightarrow> length (filter P xs) = length (filter P ys)"
  by (metis (no_types) mset_filter size_mset)

lemma sort_mset: "mset xs = mset ys \<Longrightarrow> sort xs = sort ys"
  by (rule properties_for_sort [symmetric]) simp_all

text \<open>The answer does not depend on the order in which Go happens to visit its maps: permuting
  the peers and the owners of the chunk gives the same ordered candidates.\<close>

theorem candidates_order_independent:
  assumes "reachable_session s" and peers: "mset ps = mset (sePeers s)"
    and owners: "mset us = mset (mset_of (seChunkOwners s) (wrIndex req))"
  shows "candidates now req remote
      (s\<lparr>sePeers := ps, seChunkOwners := mput (wrIndex req) us (seChunkOwners s)\<rparr>) =
    candidates now req remote s"
proof -
  let ?t = "s\<lparr>sePeers := ps, seChunkOwners := mput (wrIndex req) us (seChunkOwners s)\<rparr>"
  have wf: "wf_map (sePeers s)" using sess.reach_inv [OF assms(1)] by (simp add: reg_inv_def maps_ok_def)
  moreover have "wf_map ps" using wf mset_wf [OF peers] by simp
  moreover have "set ps = set (sePeers s)" using peers by (rule mset_eq_setD)
  ultimately have get: "mget ps = mget (sePeers s)" by (intro map_of_inject_set [THEN iffD2]) auto
  have zone: "request_zone req remote ?t = request_zone req remote s" by (simp add: request_zone_def get)
  have own: "mset (other_owners req ?t) = mset (other_owners req s)"
    by (simp add: other_owners_def get mset_of_mput mset_map_filter [OF owners] cong: if_cong)
  have "mset (map f (filter P (other_owners req ?t))) = mset (map f (filter P (other_owners req s)))"
    for f :: "string \<times> peer \<Rightarrow> scored_candidate" and P
    by (simp only: mset_map mset_filter own)
  then have "mset (map f (filter P (other_owners req ?t)) @ [c]) = mset (map f (filter P (other_owners req s)) @ [c])"
    for f :: "string \<times> peer \<Rightarrow> scored_candidate" and P c
    unfolding mset_append by simp
  note srt = sort_mset [OF this]
  show ?thesis
    unfolding candidates_def Let_def zone mset_filter_length [OF own] by (simp add: srt get)
qed

theorem candidates_order_independent_witness:
  "candidates 5 sample_req None
     (sample_session\<lparr>sePeers := rev (sePeers sample_session), seChunkOwners := mput 0 [] (seChunkOwners sample_session)\<rparr>) =
   candidates 5 sample_req None sample_session"
  using candidates_order_independent [OF sample_session_reachable mset_rev, of "[]" sample_req 5 None]
  by (simp add: sample_req_def sample_session_def AddPeer_def MarkSender_def NewGspSession_def)

section \<open>Failed sources\<close>

text \<open>A peer that failed to deliver a chunk is not offered for that chunk again until it reports it
  anew, is not offered for any chunk for 2 to 16 seconds, and no longer holds the lease of that
  request.\<close>

theorem failed_peer_excluded:
  assumes "reachable_session s" and "mget (sePeers s) u = Some p" and "u \<noteq> seUUID s"
    and t: "t = expireLeasesLocked later (UpdatePeer u speed ''failed'' i r now now' s)"
    and c: "c \<in> set (candidates later req remote t)"
    and soon: "wrIndex req = i \<or> later < now' + 2 * second"
  shows "scUUID c \<noteq> u \<and>
    (\<exists>q. mget (sePeers t) u = Some q \<and> mget (peLeases q) (leaseKey r i) = None \<and>
       now' + 2 * second \<le> peCooldownTil q \<and> peCooldownTil q \<le> now' + 16 * second)"
proof -
  let ?q0 = "drop_lease (leaseKey r i) p"
  let ?q = "fail_peer now now' ?q0"
  let ?t0 = "UpdatePeer u speed ''failed'' i r now now' s"
  have inv: "reg_inv s" using assms(1) by (rule sess.reach_inv)
  have streak: "0 \<le> peFailStreak p" and ok: "lease_ok p"
    using peer_ok_get [OF inv assms(2)] by (simp_all add: peer_load_ok_def)
  have get0: "mget (sePeers ?t0) u = Some ?q" and own0: "seUUID ?t0 = seUUID s"
    and owners: "seChunkOwners ?t0 = mset_del i u (seChunkOwners s)"
    using assms(2,3) by (simp_all add: UpdatePeer_def Let_def update_conv')
  have okq: "lease_ok ?q" using lease_ok_drop [OF ok] by (simp add: lease_ok_def fail_peer_def)
  have get: "mget (sePeers t) u = Some (expire_peer later ?q)" by (simp add: t expire_peers_get get0)
  have cool: "peCooldownTil (expire_peer later ?q) = now' + 2 ^ nat (min (peFailStreak p + 1) 4) * second"
    by (simp add: fail_peer_def)
  have exp: "1 \<le> nat (min (peFailStreak p + 1) 4)" "nat (min (peFailStreak p + 1) 4) \<le> 4"
    using streak by simp_all
  have pw: "(2::int) \<le> 2 ^ nat (min (peFailStreak p + 1) 4)" "(2::int) ^ nat (min (peFailStreak p + 1) 4) \<le> 16"
    using power_increasing [OF exp(1), of "2::int"] power_increasing [OF exp(2), of "2::int"] by simp_all
  have sec: "0 < second" by (simp add: second_def)
  have lo: "now' + 2 * second \<le> peCooldownTil (expire_peer later ?q)"
    and hi: "peCooldownTil (expire_peer later ?q) \<le> now' + 16 * second"
    unfolding cool using pw sec by (simp_all add: mult_right_mono)
  have "mget (peLeases (expire_peer later ?q)) (leaseKey r i) = None"
    unfolding expire_peer_leases [OF okq]
    by (auto simp: mget_None fail_peer_def drop_lease_leases AList.delete_eq)
  moreover have "scUUID c \<noteq> u"
  proof
    assume u: "scUUID c = u"
    have "u \<in> set (mset_of (seChunkOwners t) (wrIndex req)) \<and> available later (expire_peer later ?q)"
      using candidate_uuid [OF c] u get assms(3) own0 by (auto simp: t)
    moreover have "\<not> available later (expire_peer later ?q)" if "later < now' + 2 * second"
      using that lo unfolding available_def by linarith
    ultimately show False
      using soon by (auto simp: t owners mset_of_del)
  qed
  ultimately show ?thesis using get lo hi by blast
qed

theorem failed_peer_excluded_witness:
  "''p'' \<notin> scUUID ` set (candidates 9 sample_req None
      (expireLeasesLocked 9 (UpdatePeer ''p'' 0 ''failed'' 0 ''q'' 5 6 sample_session)))"
proof
  assume "''p'' \<in> scUUID ` set (candidates 9 sample_req None
      (expireLeasesLocked 9 (UpdatePeer ''p'' 0 ''failed'' 0 ''q'' 5 6 sample_session)))"
  then obtain c where c: "c \<in> set (candidates 9 sample_req None
      (expireLeasesLocked 9 (UpdatePeer ''p'' 0 ''failed'' 0 ''q'' 5 6 sample_session)))" "scUUID c = ''p''"
    by auto
  have p: "mget (sePeers sample_session) ''p'' = Some (new_peer ''10.0.0.7:80'' (Some 3))"
    and "''p'' \<noteq> seUUID sample_session"
    by (simp_all add: sample_session_def AddPeer_def MarkSender_def NewGspSession_def)
  with failed_peer_excluded [OF sample_session_reachable p _ refl c(1)] c(2) show False
    by (simp add: sample_req_def)
qed

section \<open>Upload slots and connections\<close>

lemma acquire_taken:
  "acquire_turn now s = (SlotTaken, t) \<Longrightarrow>
   \<not> seDone s \<and> t = s\<lparr>seUploads := Suc (seUploads s)\<rparr> \<and> int (seUploads s) < upload_limit_now now s \<and>
   seUploads s < upload_cap"
  by (auto simp: acquire_turn_def split: if_splits)

text \<open>A session never carries more than eight uploads; a slot is granted only while fewer than the
  configured limit are taken, and only the first two while a backoff order is in force.\<close>

theorem upload_slots_bounded:
  assumes "reachable_session s"
  shows "seUploads s \<le> 8 \<and>
    (\<forall>now t. acquire_turn now s = (SlotTaken, t) \<longrightarrow>
       seUploads t = Suc (seUploads s) \<and> seUploads t \<le> 8 \<and>
       (0 < seUploadLimit s \<longrightarrow> int (seUploads t) \<le> seUploadLimit s) \<and>
       (now < seBackoffUntil s \<longrightarrow> seUploads t \<le> 2))"
proof -
  have "slots_ok s" using sess.reach_inv [OF assms] by (simp add: reg_inv_def)
  then show ?thesis
    by (auto simp: slots_ok_def upload_cap_def upload_limit_now_def Let_def UploadConcurrencyHDD_def
        split: if_splits dest!: acquire_taken)
qed

theorem upload_slots_bounded_witness:
  "seUploads sample_session \<le> 8 \<and> acquire_turn 0 sample_session = (SlotTaken, sample_session\<lparr>seUploads := 1\<rparr>)"
  using upload_slots_bounded [OF sample_session_reachable]
  by (simp add: acquire_turn_def upload_limit_now_def upload_cap_def sample_session_def AddPeer_def
      MarkSender_def NewGspSession_def)

text \<open>Waiting for a slot ends: it is granted at the first turn that finds a free one before the
  session is seen stopped, refused as soon as the session is stopped, and times out otherwise.\<close>

theorem acquire_outcome:
  "acquireUpload turns =
     (case dropWhile (\<lambda>(now, s). fst (acquire_turn now s) = SlotRetry) turns of
        [] \<Rightarrow> Some SlotTimeout
      | (now, s) # _ \<Rightarrow> if seDone s then Some SessionStopped else None)"
  by (induction turns rule: acquireUpload.induct) (auto simp: acquire_turn_def)

text \<open>A session accepts at most 512 connections at a time, and once it is stopped every socket it
  accepted is closed and no new one stays open.\<close>

theorem connections_bounded:
  assumes "reachable_session s"
  shows "length (seConnections s) \<le> 512 \<and> seSockets (stop_begin s) = [] \<and>
    (seDone s \<longrightarrow> seSockets s = [] \<and> accept_conn c s = s)"
  using sess.reach_inv [OF assms]
  by (auto simp: reg_inv_def conns_ok_def max_connections_def stop_begin_def accept_conn_def filter_empty_conv)

theorem connections_bounded_witness:
  "seSockets (accept_conn 4 sample_session) = [4] \<and> seSockets (stop_begin (accept_conn 4 sample_session)) = []"
proof -
  have "reachable_session (accept_conn 4 sample_session)"
    using sample_session_reachable by (rule reach_step) (rule sess_step.accept)
  from connections_bounded [OF this] show ?thesis
    by (simp add: accept_conn_def max_connections_def sample_session_def AddPeer_def MarkSender_def
        NewGspSession_def)
qed

end
