(* ===== verification/Handlers.thy ===== *)
theory Handlers
  imports Dispatch
begin

text \<open>
  The request handlers (\<^verbatim>\<open>server/handle/handle.go\<close>), their dispatch (\<^verbatim>\<open>server/operation.go\<close>) and the
  packet loop of a connection (\<^verbatim>\<open>handle\<close> and \<^verbatim>\<open>parsePacket\<close> in \<^verbatim>\<open>server/session.go\<close>). A handler's
  argument is the decoded request, \<open>None\<close> when \<^verbatim>\<open>json.Unmarshal\<close> fails. A handler that waits runs
  in several critical sections: it takes the sessions it finds at each of them, so that anything
  may happen between. What it writes is a list of replies.
\<close>

datatype reply =
    FileStatusReply string int int int
  | FileStatusError
  | WantReply want_resp
  | ChunkReply int "32 word"
  | ChunkError int
  | ChunkData "byte list"
  | ReadyReply
  | NodeReply string bool bool

section \<open>GetFileStatus, WantChunk, ReportChunk, PeerReport\<close>

text \<open>\<open>now\<close> is what \<^verbatim>\<open>Stat\<close> answers for the file.\<close>

definition GetFileStatus :: "file_stat option \<Rightarrow> session \<Rightarrow> reply" where
  "GetFileStatus now s =
     (let ck = seChunkProvider s
      in case fcStat ck of
           None \<Rightarrow> FileStatusError
         | Some st \<Rightarrow>
             if seIsMain s \<and> \<not> Unchanged ck now then FileStatusError
             else FileStatusReply (fsName st) (fsSize st) (GetChunkSize ck) (GetChunkNum ck))"

definition WantChunk ::
  "conn \<Rightarrow> string \<Rightarrow> time \<Rightarrow> time \<Rightarrow> bool \<Rightarrow> want_req option \<Rightarrow> session \<Rightarrow> reply list \<times> session" where
  "WantChunk c remote now now' sent req s =
     (case req of
        None \<Rightarrow> ([], CloseConn c s)
      | Some wc \<Rightarrow>
          (case WantRequest now now' wc (Some remote) sent s of
             (None, t) \<Rightarrow> ([], t)
           | (Some resp, t) \<Rightarrow> ([WantReply resp], t)))"

definition ReportChunk :: "conn \<Rightarrow> (int \<times> string) option \<Rightarrow> session \<Rightarrow> session" where
  "ReportChunk c req s =
     (case req of None \<Rightarrow> CloseConn c s | Some (index, uuid) \<Rightarrow> AddBlockOwner index uuid s)"

record peer_report =
  prUUID :: string
  prProvider :: string
  prStatus :: string
  prSpeed :: int
  prIndex :: int

definition PeerReport :: "conn \<Rightarrow> time \<Rightarrow> time \<Rightarrow> peer_report option \<Rightarrow> session \<Rightarrow> session" where
  "PeerReport c now now' req s =
     (case req of
        None \<Rightarrow> CloseConn c s
      | Some wc \<Rightarrow>
          if prProvider wc = [] then s
          else UpdatePeer (prProvider wc) (prSpeed wc) (prStatus wc) (prIndex wc) (prUUID wc) now now' s)"

section \<open>GetChunk\<close>

text \<open>The session when \<^verbatim>\<open>HasChunk\<close> looks, the turns of \<^verbatim>\<open>AcquireUploadSlot\<close>, the session when
  \<^verbatim>\<open>ReadChunk\<close> reads a file with the bytes \<open>data\<close> and the \<^verbatim>\<open>Stat\<close> results around that read.\<close>

record chunk_run =
  crLook :: session
  crTurns :: "(time \<times> session) list"
  crRead :: session
  crData :: "byte list"
  crBefore :: "file_stat option"
  crAfter :: "file_stat option"

text \<open>The buffer has the chunk size of the provider copied at the start.\<close>

definition GetChunk :: "int option \<Rightarrow> chunk_run \<Rightarrow> reply list" where
  "GetChunk req r =
     (case req of
        None \<Rightarrow> []
      | Some i \<Rightarrow>
          if \<not> HasChunk i (crLook r) then [ChunkError i]
          else
            (case acquireUpload (crTurns r) of
               Some e \<Rightarrow> [ChunkError i]
             | None \<Rightarrow>
                 (case SessionReadChunk (crData r) (crBefore r) (crAfter r) i
                         (nat (GetChunkSize (seChunkProvider (crLook r)))) (crRead r) of
                    Inl e \<Rightarrow> [ChunkError i]
                  | Inr bs \<Rightarrow> [ChunkReply i (ChecksumIEEE bs), ChunkData bs])))"

section \<open>PeerReg\<close>

record peer_reg =
  rgZone :: string
  rgPort :: string
  rgUUID :: string

definition reg_valid :: "peer_reg \<Rightarrow> bool" where
  "reg_valid wc \<longleftrightarrow>
     (case atoi (rgPort wc) of None \<Rightarrow> False | Some port \<Rightarrow> 1 \<le> port \<and> port \<le> 65535) \<and> rgUUID wc \<noteq> []"

text \<open>Up to the read that waits for the peer to go away; \<open>acked\<close> is whether the ready message could
  be written. The second result says whether the handler is now waiting.\<close>

definition PeerReg_begin :: "conn \<Rightarrow> string \<Rightarrow> bool \<Rightarrow> peer_reg option \<Rightarrow> session \<Rightarrow> session \<times> bool" where
  "PeerReg_begin c remote acked req s =
     (case req of
        None \<Rightarrow> (CloseConn c s, False)
      | Some wc \<Rightarrow>
          if \<not> reg_valid wc then (CloseConn c s, False)
          else
            (case SplitHostPort remote of
               None \<Rightarrow> (CloseConn c s, False)
             | Some (host, _) \<Rightarrow>
                 if \<not> acked then (CloseConn c s, False)
                 else (SetPeerZone (rgUUID wc) (rgZone wc)
                         (AddPeer (rgUUID wc) (JoinHostPort host (rgPort wc)) (Some c) s), True)))"

text \<open>After the read: the connection is closed and the deferred removal runs.\<close>

definition PeerReg_end :: "conn \<Rightarrow> peer_reg \<Rightarrow> session \<Rightarrow> session" where
  "PeerReg_end c wc s = RemovePeer (rgUUID wc) (CloseConn c s)"

section \<open>Dispatch\<close>

datatype operation = OpNodeStatus | OpControl | OpGetChunk | OpGetFileStatus | OpWantChunk | OpReportChunk
  | OpPeerReg | OpPeerReport

definition Mux :: "(string, operation) gomap" where
  "Mux = [(''getChunk'', OpGetChunk), (''getFileStatus'', OpGetFileStatus), (''wantChunk'', OpWantChunk),
          (''reportChunk'', OpReportChunk), (''peerReg'', OpPeerReg), (''reportPeer'', OpPeerReport)]"

text \<open>\<open>op\<close> is the operation name in the payload, \<open>None\<close> when it is not JSON.\<close>

definition SenderOperation :: "string option \<Rightarrow> operation option" where
  "SenderOperation name =
     (case name of
        None \<Rightarrow> None
      | Some n \<Rightarrow>
          if n = ''getNodeStatus'' then Some OpNodeStatus
          else if n = ''control'' then Some OpControl
          else mget Mux n)"

definition parsePacket :: "(byte list \<Rightarrow> string option) \<Rightarrow> packet \<Rightarrow> operation option" where
  "parsePacket operate p = (if pkType p \<noteq> TypeJSON then None else SenderOperation (operate (pkPayload p)))"

definition frame_limit :: "32 word" where
  "frame_limit = 4194304"

lemma decode_shorter: "decode_bounded limit r = (Inr p, r') \<Longrightarrow> length r' < length r"
  by (drule decode_bounded_Inr) (auto simp: frame_of_def length_frame)

text \<open>The packets of a connection that are dispatched before its loop ends; \<open>operate\<close> decodes the
  operation name of a payload. Every turn of the loop consumes at least a header.\<close>

function serve_loop :: "(byte list \<Rightarrow> string option) \<Rightarrow> reader \<Rightarrow> (operation \<times> packet) list" where
  "serve_loop operate r =
     (case decode_bounded frame_limit r of
        (Inl e, r') \<Rightarrow> []
      | (Inr p, r') \<Rightarrow>
          (case parsePacket operate p of
             None \<Rightarrow> []
           | Some op \<Rightarrow> (op, p) # serve_loop operate r'))"
  by pat_completeness auto

termination
  by (relation "measure (\<lambda>(_, r). length r)") (auto dest: decode_shorter [OF sym])

declare serve_loop.simps [simp del]

section \<open>Lemmas\<close>

lemma serve_loop_cons:
  assumes "within_limit frame_limit p"
  shows "serve_loop operate (frame_of p @ r) =
    (case parsePacket operate p of None \<Rightarrow> [] | Some op \<Rightarrow> (op, p) # serve_loop operate r)"
  by (subst serve_loop.simps) (simp add: decode_bounded_frame [OF assms])

lemma serve_loop_nil: "serve_loop operate [] = []"
  by (subst serve_loop.simps) (simp add: decode_bounded_def)

lemma read_main_block:
  assumes "well_sized (seChunkProvider s) (length data)" and "seIsMain s \<longrightarrow>
      Unchanged (seChunkProvider s) before \<and> Unchanged (seChunkProvider s) after"
    and "0 \<le> i" "i < GetChunkNum (seChunkProvider s)"
  shows "SessionReadChunk data before after i (nat ChunkSize) s = Inr (block data (nat i))"
  using assms read_chunk_block [OF assms(1,3,4) order_refl]
  by (simp add: SessionReadChunk_def Let_def)

lemma reg_sockets:
  "reg_valid wc \<Longrightarrow> SplitHostPort remote \<noteq> None \<Longrightarrow>
     seSockets (fst (PeerReg_begin c remote True (Some wc) s)) = seSockets s"
  by (cases "SplitHostPort remote")
    (simp_all add: PeerReg_begin_def SetPeerZone_def AddPeer_def split: option.splits prod.splits)

section \<open>Properties\<close>

text \<open>The requests a peer sends over a connection are dispatched in order, each once, until the
  first that is not a known operation; whatever follows it is not looked at.\<close>

theorem requests_in_order:
  assumes "list_all (within_limit frame_limit) ps"
  shows "serve_loop operate (concat (map frame_of ps)) =
    map (\<lambda>p. (the (parsePacket operate p), p)) (takeWhile (\<lambda>p. parsePacket operate p \<noteq> None) ps)"
  using assms
proof (induction ps)
  case (Cons p ps)
  then show ?case by (cases "parsePacket operate p") (simp_all add: serve_loop_cons)
qed (simp add: serve_loop_nil)

theorem requests_in_order_witness:
  "serve_loop (\<lambda>_. Some ''getChunk'') (frame TypeJSON [1] @ frame TypeFileChunk [2] @ frame TypeJSON [3]) =
     [(OpGetChunk, packet_of (TypeJSON, [1]))]"
proof -
  have ok: "list_all (within_limit frame_limit) [packet_of (TypeJSON, [1]), packet_of (TypeFileChunk, [2]),
      packet_of (TypeJSON, [3])]"
    by (simp add: within_limit_def valid_packet_def packet_of_def frame_limit_def word_le_nat_alt)
  from requests_in_order [OF ok, of "\<lambda>_. Some ''getChunk''"] show ?thesis
    by (simp add: frame_of_def packet_of_def parsePacket_def SenderOperation_def Mux_def TypeJSON_def TypeFileChunk_def)
qed

text \<open>A node that keeps serving the same file answers a chunk request with the checksum of that
  block and then the block itself, provided it has the chunk, a slot is granted and a main source
  is unchanged; in every other case it answers with an error and sends no data.\<close>

theorem chunk_served:
  assumes same: "crRead r = crLook r" and ws: "well_sized (seChunkProvider (crLook r)) (length (crData r))"
  shows "GetChunk (Some i) r =
    (if HasChunk i (crLook r) \<and> acquireUpload (crTurns r) = None \<and>
        (seIsMain (crLook r) \<longrightarrow> Unchanged (seChunkProvider (crLook r)) (crBefore r) \<and>
           Unchanged (seChunkProvider (crLook r)) (crAfter r))
     then [ChunkReply i (ChecksumIEEE (block (crData r) (nat i))), ChunkData (block (crData r) (nat i))]
     else [ChunkError i])"
proof (cases "HasChunk i (crLook r)")
  case True
  then have i: "0 \<le> i" "i < GetChunkNum (seChunkProvider (crLook r))"
    by (simp_all add: HasChunk_def split: if_splits)
  have size: "GetChunkSize (seChunkProvider (crLook r)) = ChunkSize"
    using ws by (simp add: well_sized_def GetChunkSize_def)
  have "SessionReadChunk (crData r) (crBefore r) (crAfter r) i (nat ChunkSize) (crLook r) =
      (if seIsMain (crLook r) \<longrightarrow> Unchanged (seChunkProvider (crLook r)) (crBefore r) \<and>
           Unchanged (seChunkProvider (crLook r)) (crAfter r)
       then Inr (block (crData r) (nat i)) else Inl SourceChanged)"
    using read_chunk_block [OF ws i order_refl] by (simp add: SessionReadChunk_def Let_def)
  then show ?thesis
    using True by (auto simp: GetChunk_def same size split: option.splits)
qed (simp add: GetChunk_def)

definition sample_run :: chunk_run where
  "sample_run =
     (let s = MarkSender (BeSendSub 4 (Some \<lparr>fsName = ''f'', fsSize = 2, fsModTime = 0, fsIdent = 1, fsRegular = True\<rparr>)
                (NewGspSession '':0'' ''hub''))
      in \<lparr>crLook = s, crTurns = [(0, s)], crRead = s, crData = [7, 9],
          crBefore = fcStat (seChunkProvider s), crAfter = fcStat (seChunkProvider s)\<rparr>)"

theorem chunk_served_witness: "GetChunk (Some 0) sample_run = [ChunkReply 0 (ChecksumIEEE [7, 9]), ChunkData [7, 9]]"
proof -
  have ws: "well_sized (seChunkProvider (crLook sample_run)) (length (crData sample_run))"
    and num: "GetChunkNum (seChunkProvider (crLook sample_run)) = 1"
  proof -
    show ws: "well_sized (seChunkProvider (crLook sample_run)) (length (crData sample_run))"
      by (simp add: sample_run_def Let_def MarkSender_def BeSendSub_def NewGspSession_def NewFileChunk_def
          well_sized_def)
    have "length (crData sample_run) = 2" by (simp add: sample_run_def Let_def)
    with chunk_num_eq [OF ws] show "GetChunkNum (seChunkProvider (crLook sample_run)) = 1"
      by (simp add: ChunkSize_num)
  qed
  have same: "crRead sample_run = crLook sample_run" by (simp add: sample_run_def Let_def)
  have main: "seIsMain (crLook sample_run)" and stat: "fcStat (seChunkProvider (crLook sample_run)) \<noteq> None"
    and unchanged: "Unchanged (seChunkProvider (crLook sample_run)) (crBefore sample_run)"
      "Unchanged (seChunkProvider (crLook sample_run)) (crAfter sample_run)"
    and slot: "acquireUpload (crTurns sample_run) = None"
    and data: "crData sample_run = [7, 9]"
    by (simp_all add: sample_run_def Let_def MarkSender_def BeSendSub_def NewGspSession_def NewFileChunk_def
        Unchanged_def acquire_turn_def upload_limit_now_def upload_cap_def)
  have "HasChunk 0 (crLook sample_run)" using main stat num by (simp add: HasChunk_def)
  with chunk_served [OF same ws, of 0] slot unchanged show ?thesis
    by (simp add: data block_def ChunkSize_num)
qed

text \<open>What a peer announces on registration is checked before it counts: it becomes a peer exactly
  when the port is a number from 1 to 65535, the UUID is not empty, the connection has a host and
  the acknowledgement got through; it is then reachable at that host and port under this
  connection, and otherwise the connection is closed and no peer changes.\<close>

theorem registration:
  "case req of
     None \<Rightarrow> PeerReg_begin c remote acked req s = (CloseConn c s, False)
   | Some wc \<Rightarrow>
       (if reg_valid wc \<and> SplitHostPort remote \<noteq> None \<and> acked
        then (\<exists>p. mget (sePeers (fst (PeerReg_begin c remote acked req s))) (rgUUID wc) = Some p \<and>
               peConn p = Some c \<and> peConnAddr p = JoinHostPort (fst (the (SplitHostPort remote))) (rgPort wc) \<and>
               peZone p = zoneOf (peConnAddr p) (rgZone wc)) \<and> snd (PeerReg_begin c remote acked req s)
        else PeerReg_begin c remote acked req s = (CloseConn c s, False))"
  by (auto simp: PeerReg_begin_def SetPeerZone_def AddPeer_def new_peer_def update_conv' split: option.splits)



text \<open>C32: a receiver can serve bytes it never verified. A chunk request looks for the chunk, waits up to
  thirty seconds for a slot and reads afterwards; when the receiver has begun to download another
  file meanwhile, the request is answered with that chunk of the new, still incomplete file and a
  checksum that matches it, although the receiver does not have the chunk any more.\<close>

theorem unverified_chunk_served:
  assumes "HasChunk i (crLook r)" and "\<not> seIsMain (crLook r)" and "acquireUpload (crTurns r) = None"
    and "fcChunkSize (seChunkProvider (crLook r)) = ChunkSize"
    and new: "crRead r = BeSendSub f st (crLook r)"
    and ws: "well_sized (NewFileChunk f st) (length (crData r))" and i: "0 \<le> i" "i < GetChunkNum (NewFileChunk f st)"
  shows "GetChunk (Some i) r =
      [ChunkReply i (ChecksumIEEE (block (crData r) (nat i))), ChunkData (block (crData r) (nat i))] \<and>
    \<not> HasChunk i (crRead r)"
proof -
  have p: "seChunkProvider (crRead r) = NewFileChunk f st" "\<not> seIsMain (crRead r)" "seChunkHash (crRead r) = []"
    using assms(2) by (simp_all add: new BeSendSub_def)
  then have "SessionReadChunk (crData r) (crBefore r) (crAfter r) i (nat ChunkSize) (crRead r) =
      Inr (block (crData r) (nat i))"
    using ws i by (intro read_main_block) simp_all
  moreover have "\<not> HasChunk i (crRead r)" using p by (simp add: HasChunk_def)
  ultimately show ?thesis using assms(1,3,4) by (simp add: GetChunk_def GetChunkSize_def)
qed

theorem unverified_chunk_served_witness:
  "\<exists>r. HasChunk 0 (crLook r) \<and> \<not> HasChunk 0 (crRead r) \<and>
     GetChunk (Some 0) r = [ChunkReply 0 (ChecksumIEEE [0, 0]), ChunkData [0, 0]]"
proof -
  let ?st = "Some \<lparr>fsName = ''f'', fsSize = 2, fsModTime = 0, fsIdent = 1, fsRegular = True\<rparr>"
  let ?s = "AddChunk 0 5 (BeSendSub 4 ?st (NewGspSession '':0'' ''r''))"
  let ?r = "\<lparr>crLook = ?s, crTurns = [(0, ?s)], crRead = BeSendSub 5 ?st ?s, crData = [0, 0],
    crBefore = None, crAfter = None\<rparr>"
  have ws: "well_sized (NewFileChunk n ?st) 2" for n by (simp add: well_sized_def NewFileChunk_def)
  have num: "GetChunkNum (NewFileChunk n ?st) = 1" for n
    using chunk_num_eq [OF ws] by (simp add: ChunkSize_num)
  have "seChunkProvider ?s = NewFileChunk 4 ?st" by (simp add: AddChunk_def BeSendSub_def)
  then have has: "HasChunk 0 ?s"
    using num [of 4] by (simp add: HasChunk_def AddChunk_def BeSendSub_def NewFileChunk_def)
  moreover have "GetChunk (Some 0) ?r = [ChunkReply 0 (ChecksumIEEE (block (crData ?r) (nat 0))),
        ChunkData (block (crData ?r) (nat 0))] \<and>
      \<not> HasChunk 0 (crRead ?r)"
  proof (rule unverified_chunk_served [where f = 5 and st = ?st])
    show "well_sized (NewFileChunk 5 ?st) (length (crData ?r))" 
      using ws [of 5] by (simp add: numeral_2_eq_2)
    show "0 < GetChunkNum (NewFileChunk 5 ?st)" using num [of 5] by simp
  qed (use has in \<open>simp_all add: AddChunk_def BeSendSub_def NewGspSession_def NewFileChunk_def
      acquire_turn_def upload_limit_now_def upload_cap_def\<close>)
  ultimately show ?thesis by (intro exI [of _ ?r]) (simp add: block_def ChunkSize_num)
qed

end
