(* ===== verification/Client.thy ===== *)
theory Client
  imports Handlers
begin

text \<open>
  The client SDK (\<^verbatim>\<open>internal/gsp_sdk/client\<close>): one exchange over a borrowed connection, fetching and
  verifying a chunk, the checks on what a sender answers, registration and the control stream.
  The bytes that will arrive on a connection are a reader; JSON decoding is a parameter, a
  function from payloads to the decoded value or \<open>None\<close>. What a call does with its borrowed
  connection is its last result: \<open>True\<close> returns it to the pool, \<open>False\<close> discards it.
\<close>

datatype call_error =
    NoConnection
  | WriteFailed
  | BadFrame codec_error
  | WrongType
  | BadJSON
  | PeerError
  | WrongChunk
  | CrcMismatch
  | SaveFailed chunk_error
  | BadMetadata
  | WrongIndex
  | NotASender

section \<open>exchange\<close>

text \<open>\<open>borrowed\<close>: a connection was obtained; \<open>written\<close>: the request went out whole. \<open>unmarshal\<close> is
  \<open>None\<close> when the caller expects no answer.\<close>

definition exchange ::
  "bool \<Rightarrow> bool \<Rightarrow> (byte list \<Rightarrow> 'a option) option \<Rightarrow> reader \<Rightarrow> (call_error + 'a option) \<times> bool" where
  "exchange borrowed written unmarshal r =
     (if \<not> borrowed then (Inl NoConnection, False)
      else if \<not> written then (Inl WriteFailed, False)
      else
        (case unmarshal of
           None \<Rightarrow> (Inr None, True)
         | Some f \<Rightarrow>
             (case fst (decode_bounded frame_limit r) of
                Inl e \<Rightarrow> (Inl (BadFrame e), False)
              | Inr p \<Rightarrow>
                  if pkType p \<noteq> TypeJSON then (Inl WrongType, False)
                  else (case f (pkPayload p) of None \<Rightarrow> (Inl BadJSON, False) | Some x \<Rightarrow> (Inr (Some x), True)))))"

record file_status =
  fsrError :: bool
  fsrFileName :: string
  fsrFileSize :: int
  fsrChunkSize :: int
  fsrChunkNum :: int

definition status_ok :: "file_status \<Rightarrow> bool" where
  "status_ok r \<longleftrightarrow>
     \<not> (fsrFileName r = [] \<or> fsrFileSize r < 0 \<or> fsrChunkSize r \<noteq> ChunkSize \<or>
        fsrChunkNum r \<noteq> go_quot (wrap64 (wrap64 (fsrFileSize r + fsrChunkSize r) - 1)) (fsrChunkSize r))"

definition client_GetFileStatus ::
  "bool \<Rightarrow> bool \<Rightarrow> (byte list \<Rightarrow> file_status option) \<Rightarrow> reader \<Rightarrow> call_error + file_status" where
  "client_GetFileStatus borrowed written unmarshal rd =
     (case fst (exchange borrowed written (Some unmarshal) rd) of
        Inl e \<Rightarrow> Inl e
      | Inr None \<Rightarrow> Inl BadJSON
      | Inr (Some r) \<Rightarrow>
          if fsrError r then Inl PeerError else if status_ok r then Inr r else Inl BadMetadata)"

definition client_WantChunk ::
  "bool \<Rightarrow> bool \<Rightarrow> (byte list \<Rightarrow> want_resp option) \<Rightarrow> int \<Rightarrow> reader \<Rightarrow> call_error + want_resp" where
  "client_WantChunk borrowed written unmarshal i rd =
     (case fst (exchange borrowed written (Some unmarshal) rd) of
        Inl e \<Rightarrow> Inl e
      | Inr None \<Rightarrow> Inl BadJSON
      | Inr (Some r) \<Rightarrow> if rsIndex r \<noteq> i then Inl WrongIndex else Inr r)"

section \<open>fetch\<close>

record chunk_info =
  ciError :: bool
  ciIndex :: int
  ciStatus :: bool
  ciCheckSum :: "32 word"

text \<open>\<open>f\<close> is the file being written, as metadata and bytes. The result is the number of bytes and the
  checksum, the file afterwards and the fate of the connection.\<close>

definition fetch ::
  "bool \<Rightarrow> bool \<Rightarrow> (byte list \<Rightarrow> chunk_info option) \<Rightarrow> int \<Rightarrow> reader \<Rightarrow> chunked \<Rightarrow>
   (call_error + nat \<times> 32 word) \<times> chunked \<times> bool" where
  "fetch borrowed written unmarshal i r f =
     (if \<not> borrowed then (Inl NoConnection, f, False)
      else if \<not> written then (Inl WriteFailed, f, False)
      else
        (case decode 4096 r of
           (Inl e, r1) \<Rightarrow> (Inl (BadFrame e), f, False)
         | (Inr resp, r1) \<Rightarrow>
             if pkType resp \<noteq> TypeJSON then (Inl WrongType, f, False)
             else
               (case unmarshal (pkPayload resp) of
                  None \<Rightarrow> (Inl BadJSON, f, False)
                | Some info \<Rightarrow>
                    if ciError info then (Inl PeerError, f, False)
                    else if \<not> ciStatus info \<or> ciIndex info \<noteq> i then (Inl WrongChunk, f, False)
                    else
                      (case decode (nat ChunkSize) r1 of
                         (Inl e, r2) \<Rightarrow> (Inl (BadFrame e), f, False)
                       | (Inr body, r2) \<Rightarrow>
                           if pkType body \<noteq> TypeFileChunk then (Inl WrongType, f, False)
                           else if ChecksumIEEE (pkPayload body) \<noteq> ciCheckSum info then (Inl CrcMismatch, f, False)
                           else
                             (case wr_block f i (pkPayload body) of
                                Inl e \<Rightarrow> (Inl (SaveFailed e), f, False)
                              | Inr f' \<Rightarrow>
                                  (Inr (length (pkPayload body), ChecksumIEEE (pkPayload body)), f', True))))))"

section \<open>Registration and the control stream\<close>

record control_state =
  csConn :: "conn option"
  csPeerID :: string

text \<open>\<open>ack\<close>: the acknowledgement arrived and says ready. The second result lists the connections that
  were closed.\<close>

definition client_PeerReg :: "conn option \<Rightarrow> bool \<Rightarrow> bool \<Rightarrow> string \<Rightarrow> control_state \<Rightarrow> control_state \<times> conn list \<times> bool" where
  "client_PeerReg dialled written ack uid st =
     (case dialled of
        None \<Rightarrow> (st, [], False)
      | Some c \<Rightarrow>
          if \<not> written \<or> \<not> ack then (st, [c], False)
          else (\<lparr>csConn = Some c, csPeerID = uid\<rparr>,
                (case csConn st of None \<Rightarrow> [] | Some old \<Rightarrow> [old]), True))"

datatype control_event = PushEvent | ControlEvent control_msg

text \<open>The packets of the control connection: the handlers called for each, until a read fails.\<close>

lemma decode_consumes: "decode bufcap r = (Inr p, r') \<Longrightarrow> length r' < length r"
  by (drule decode_Inr) (auto simp: frame_of_def length_frame)

function WatchControl ::
  "(byte list \<Rightarrow> bool) \<Rightarrow> (byte list \<Rightarrow> control_msg option) \<Rightarrow> reader \<Rightarrow> control_event list" where
  "WatchControl is_push control r =
     (case decode 4096 r of
        (Inl e, r') \<Rightarrow> []
      | (Inr p, r') \<Rightarrow>
          (if pkType p = TypeJSON \<and> is_push (pkPayload p) then [PushEvent] else []) @
          (if pkType p = TypeJSON then (case control (pkPayload p) of None \<Rightarrow> [] | Some m \<Rightarrow> [ControlEvent m]) else []) @
          WatchControl is_push control r')"
  by pat_completeness auto

termination
  by (relation "measure (\<lambda>(_, _, r). length r)") (auto dest: decode_consumes [OF sym])

declare WatchControl.simps [simp del]

section \<open>Properties\<close>

lemma fetch_result:
  "fetch b w u i r f = (Inr (n, c), f', ok) \<Longrightarrow>
     \<exists>bs. wr_block f i bs = Inr f' \<and> n = length bs \<and> c = ChecksumIEEE bs \<and> ok"
  by (auto simp: fetch_def split: if_splits prod.splits sum.splits option.splits)

lemma fetch_error: "fetch b w u i r f = (Inl e, f', ok) \<Longrightarrow> f' = f \<and> \<not> ok"
  by (auto simp: fetch_def split: if_splits prod.splits sum.splits option.splits)

text \<open>Whatever arrives on the connection, a fetch either reports an error, leaves the file as it was
  and discards the connection, or writes exactly the requested chunk with data of its length whose
  checksum it returns; no other chunk ever changes and the file keeps its size.\<close>

theorem fetch_safe:
  assumes "chunked_ok f" and "fetch b w u i r f = (res, f', reuse)"
  shows "(case res of
      Inl e \<Rightarrow> f' = f \<and> \<not> reuse
    | Inr (n, c) \<Rightarrow> reuse \<and> (\<exists>bs. rd_block f' i = Inr bs \<and> length bs = n \<and> ChecksumIEEE bs = c) \<and>
        (\<forall>j. j \<noteq> i \<longrightarrow> rd_block f' j = rd_block f j)) \<and>
    fst f' = fst f \<and> length (snd f') = length (snd f) \<and> chunked_ok f'"
proof (cases res)
  case (Inl e)
  then show ?thesis using assms fetch_error [of b w u i r f e f' reuse] by simp
next
  case (Inr nc)
  obtain n c where nc: "nc = (n, c)" by (cases nc)
  then obtain bs where bs: "wr_block f i bs = Inr f'" "n = length bs" "c = ChecksumIEEE bs" reuse
    using assms(2) Inr fetch_result [of b w u i r f n c f' reuse] by blast
  have "rd_block f' i = Inr bs" "\<And>j. j \<noteq> i \<Longrightarrow> rd_block f' j = rd_block f j"
    and "chunked_ok f' \<and> (fst f', length (snd f')) = (fst f, length (snd f))"
    using chunks.rd_wr [OF assms(1) bs(1)] chunks.rd_other [OF assms(1) bs(1)] chunks.wr_ok [OF assms(1) bs(1)]
    by simp_all
  with Inr nc bs show ?thesis by auto
qed

theorem fetch_safe_witness:
  "fst (fetch True True (\<lambda>_. None) 0 [] (sample_chunk, [7, 9])) = Inl (BadFrame EOF) \<and>
   fst (snd (fetch True True (\<lambda>_. None) 0 [] (sample_chunk, [7, 9]))) = (sample_chunk, [7, 9])"
proof
  have ok: "chunked_ok (sample_chunk, [7, 9])" using sample_sized by (simp add: chunked_ok_def)
  show e: "fst (fetch True True (\<lambda>_. None) 0 [] (sample_chunk, [7, 9])) = Inl (BadFrame EOF)"
    by (simp add: fetch_def decode_def)
  obtain f' ok where f: "fetch True True (\<lambda>_. None) 0 [] (sample_chunk, [7, 9]) = (Inl (BadFrame EOF), f', ok)"
    using e by (metis prod.collapse)
  from fetch_safe [OF ok f] f show "fst (snd (fetch True True (\<lambda>_. None) 0 [] (sample_chunk, [7, 9]))) = (sample_chunk, [7, 9])"
    by simp
qed

text \<open>The bytes a serving node writes for the replies of \<open>GetChunk\<close>; \<open>encode\<close> is the JSON encoding of
  the answer.\<close>

definition reply_bytes :: "(chunk_info \<Rightarrow> byte list) \<Rightarrow> reply \<Rightarrow> byte list" where
  "reply_bytes encode rep =
     (case rep of
        ChunkReply i c \<Rightarrow> frame TypeJSON (encode \<lparr>ciError = False, ciIndex = i, ciStatus = True, ciCheckSum = c\<rparr>)
      | ChunkError i \<Rightarrow> frame TypeJSON (encode \<lparr>ciError = True, ciIndex = i, ciStatus = False, ciCheckSum = 0\<rparr>)
      | ChunkData bs \<Rightarrow> frame TypeFileChunk bs
      | _ \<Rightarrow> [])"

lemma fits_small:
  assumes "t = TypeJSON \<or> t = TypeFileChunk" and "length p \<le> n" and "n < 2 ^ 32"
  shows "fits_buffer n (packet_of (t, p))"
proof -
  have "(word_of_nat (length p) :: 32 word) \<le> word_of_nat n"
    using assms(2,3) by (simp add: word_le_nat_alt unat_length_payload)
  with assms show ?thesis by (simp add: fits_buffer_def valid_packet_def packet_of_def)
qed

lemma frame_packet: "frame t p = frame_of (packet_of (t, p))"
  by (simp add: frame_of_def packet_of_def)

text \<open>What a fetch makes of the two answers a serving node can give, and of an answer that goes on.\<close>

lemma fetch_refused:
  assumes json: "unmarshal (encode x) = Some x" "length (encode x) \<le> 4096"
    and x: "x = \<lparr>ciError = True, ciIndex = i, ciStatus = False, ciCheckSum = 0\<rparr>"
  shows "fetch True True unmarshal i (concat (map (reply_bytes encode) [ChunkError i])) f = (Inl PeerError, f, False)"
proof -
  have "fits_buffer 4096 (packet_of (TypeJSON, encode x))" using json by (intro fits_small) simp_all
  from decode_frame [OF this, of "[]"] show ?thesis
    using json by (simp add: x fetch_def reply_bytes_def frame_packet) (simp add: packet_of_def)
qed

lemma fetch_data:
  assumes json: "unmarshal (encode x) = Some x" "length (encode x) \<le> 4096"
    and x: "x = \<lparr>ciError = False, ciIndex = i, ciStatus = True, ciCheckSum = ChecksumIEEE b\<rparr>"
    and b: "length b \<le> nat ChunkSize" and wr: "wr_block f i b = Inr f'"
  shows "fetch True True unmarshal i (concat (map (reply_bytes encode) [ChunkReply i (ChecksumIEEE b), ChunkData b])) f =
    (Inr (length b, ChecksumIEEE b), f', True)"
proof -
  have hd: "decode 4096 (frame TypeJSON (encode x) @ r) = (Inr (packet_of (TypeJSON, encode x)), r)" for r
    unfolding frame_packet using json by (intro decode_frame fits_small) simp_all
  have bd: "decode (nat ChunkSize) (frame TypeFileChunk b) = (Inr (packet_of (TypeFileChunk, b)), [])"
    using decode_frame [OF fits_small, of TypeFileChunk b "nat ChunkSize" "[]"] b
    by (simp add: frame_packet ChunkSize_num)
  have rb: "concat (map (reply_bytes encode) [ChunkReply i (ChecksumIEEE b), ChunkData b]) =
      frame TypeJSON (encode x) @ frame TypeFileChunk b"
    by (simp add: reply_bytes_def x)
  have p: "pkType (packet_of (t, c)) = t" "pkPayload (packet_of (t, c)) = c" for t c by (simp_all add: packet_of_def)
  have v: "ciError x = False" "ciStatus x = True" "ciIndex x = i" "ciCheckSum x = ChecksumIEEE b" by (simp_all add: x)
  show ?thesis unfolding rb fetch_def by (simp add: hd p json(1) v bd wr)
qed

lemma decode_more: "decode c r = (Inr p, r') \<Longrightarrow> decode c (r @ t) = (Inr p, r' @ t)"
  by (drule decode_Inr) (simp add: decode_frame)

lemma fetch_more:
  "fetch b w u i r f = (Inr x, f', k) \<Longrightarrow> fetch b w u i (r @ t) f = (Inr x, f', k)"
  by (auto simp: fetch_def decode_more split: if_splits prod.splits sum.splits option.splits)


definition sample_encode :: "chunk_info \<Rightarrow> byte list" where
  "sample_encode x = (if ciError x then 1 else 0) # (if ciStatus x then 1 else 0) # put_uint32 (ciCheckSum x)"

definition sample_unmarshal :: "byte list \<Rightarrow> chunk_info option" where
  "sample_unmarshal bs =
     (case bs of
        e # st # cs \<Rightarrow> Some \<lparr>ciError = (e = 1), ciIndex = 0, ciStatus = (st = 1), ciCheckSum = get_uint32 cs\<rparr>
      | _ \<Rightarrow> None)"


text \<open>Client and server agree on the metadata: what a sender answers about a file of sound size passes
  the client's checks exactly when the file has a name.\<close>

lemma status_compatible:
  assumes "well_sized (seChunkProvider s) n" and "GetFileStatus now s = FileStatusReply nm sz cs num"
  shows "status_ok \<lparr>fsrError = False, fsrFileName = nm, fsrFileSize = sz, fsrChunkSize = cs, fsrChunkNum = num\<rparr>
    \<longleftrightarrow> nm \<noteq> []"
proof -
  obtain st where st: "fcStat (seChunkProvider s) = Some st" "fsSize st = int n"
    using well_sized_stat [OF assms(1)] by blast
  have cs: "fcChunkSize (seChunkProvider s) = ChunkSize" using assms(1) by (simp add: well_sized_def)
  have r: "sz = int n" "cs = ChunkSize" "num = GetChunkNum (seChunkProvider s)"
    using assms(2) st cs by (auto simp: GetFileStatus_def Let_def GetChunkSize_def split: if_splits)
  have "go_quot (wrap64 (wrap64 (int n + ChunkSize) - 1)) ChunkSize = GetChunkNum (seChunkProvider s)"
  proof (cases "n = 0")
    case True
    then show ?thesis
      using st by (simp add: GetChunkNum_def wrap64_def ChunkSize_num go_quot_def)
  next
    case False
    then show ?thesis using st cs by (simp add: GetChunkNum_def)
  qed
  with r show ?thesis by (simp add: status_ok_def)
qed

end
