(* ===== verification/Download.thy ===== *)
theory Download
  imports FileChunks
begin

text \<open>
  The download engine (\<^verbatim>\<open>internal/receiver/download.go\<close>): the order in which chunks are fed, the
  pool of up to five workers with its feeder, priority queue and claims, and what \<^verbatim>\<open>RunTo\<close> leaves
  on disk. The workers, the feeder and the environment (prefetch orders, cancellation, the result
  of every fetch) are interleaved by the step relation \<open>dl_step\<close>; the session's chunk table is the
  list of chunks it has. \<open>good i bs\<close> is what is assumed of a successful fetch of chunk \<open>i\<close>: the
  bytes it wrote.
\<close>

section \<open>The feeding order\<close>

text \<open>\<^verbatim>\<open>gcd\<close> with Go's remainder.\<close>

function go_gcd :: "int \<Rightarrow> int \<Rightarrow> int" where
  "go_gcd a b = (if b = 0 then a else go_gcd b (go_rem a b))"
  by pat_completeness auto

termination
  by (relation "measure (\<lambda>(a, b). nat \<bar>b\<bar>)") (auto simp: go_rem_def abs_mult abs_sgn_eq)

declare go_gcd.simps [simp del]

lemma go_gcd_eq: "0 \<le> a \<Longrightarrow> 0 \<le> b \<Longrightarrow> go_gcd a b = gcd a b"
proof (induction a b rule: go_gcd.induct)
  case (1 a b)
  show ?case
  proof (cases "b = 0")
    case True
    with 1 show ?thesis by (subst go_gcd.simps) simp
  next
    case False
    then have "go_gcd a b = go_gcd b (a mod b)" "0 \<le> a mod b"
      using 1(2,3) by (simp_all add: go_gcd.simps [of a b] go_rem_nonneg)
    moreover have "go_gcd b (a mod b) = gcd b (a mod b)"
      using 1(1) [OF False] 1(2,3) False by (simp add: go_rem_nonneg)
    ultimately show ?thesis by (simp add: gcd_red_int [of a b])
  qed
qed

text \<open>The loop that looks for a step coprime to the number of chunks.\<close>

partial_function (option) choose_step :: "int \<Rightarrow> int \<Rightarrow> int option" where
  "choose_step count step =
     (if go_gcd step count \<noteq> 1 then choose_step count (go_rem step (count - 1) + 1) else Some step)"

lemma choose_step_returns:
  assumes "1 \<le> step" and "step < count"
  shows "\<exists>t. choose_step count step = Some t \<and> 1 \<le> t \<and> t < count \<and> coprime t count"
  using assms
proof (induction "nat (count - step)" arbitrary: step rule: less_induct)
  case less
  show ?case
  proof (cases "gcd step count = 1")
    case True
    with less show ?thesis
      by (subst choose_step.simps) (simp add: go_gcd_eq coprime_iff_gcd_eq_1)
  next
    case False
    have "gcd (count - 1) count = 1"
      using gcd_diff1 [of count "count - 1"] by (simp add: gcd.commute)
    with False less.prems have lt: "step < count - 1" by (cases "step = count - 1") auto
    then have next_step: "go_rem step (count - 1) + 1 = step + 1"
      using less.prems by (simp add: go_rem_nonneg)
    have "choose_step count step = choose_step count (step + 1)"
      using False less.prems by (subst choose_step.simps) (simp add: go_gcd_eq next_step)
    with less(1) [of "step + 1"] less.prems lt show ?thesis by simp
  qed
qed

definition feed_order :: "int \<Rightarrow> int \<Rightarrow> int \<Rightarrow> int list" where
  "feed_order count start step =
     map (\<lambda>n. (start + int n * step) mod max 1 count) [0..<nat count]"

text \<open>The loop computes the same sequence one step at a time.\<close>

fun feed_loop :: "nat \<Rightarrow> int \<Rightarrow> int \<Rightarrow> int \<Rightarrow> int list" where
  "feed_loop 0 count i step = []"
| "feed_loop (Suc n) count i step = i # feed_loop n count (go_rem (i + step) (max 1 count)) step"

lemma feed_loop_order:
  assumes "0 \<le> start" "start < count" "0 \<le> step"
  shows "feed_loop (nat count) count start step = feed_order count start step"
proof -
  have "feed_loop n count ((start + int k * step) mod count) step =
      map (\<lambda>m. (start + int m * step) mod count) [k..<k + n]" for n k
  proof (induction n arbitrary: k)
    case (Suc n)
    have "0 \<le> (start + int k * step) mod count" using assms by simp
    then have "go_rem ((start + int k * step) mod count + step) (max 1 count) =
        (start + int (Suc k) * step) mod count"
      using assms by (simp add: go_rem_nonneg mod_simps algebra_simps)
    moreover have "[k..<k + Suc n] = k # [Suc k..<Suc k + n]" by (simp add: upt_conv_Cons del: upt_Suc)
    ultimately show ?case using Suc [of "Suc k"] by (simp del: upt_Suc)
  qed simp
  from this [of "nat count" 0] show ?thesis
    using assms by (simp add: feed_order_def)
qed

lemma feed_order_perm:
  assumes "0 < count" and cop: "coprime step count"
  shows "distinct (feed_order count start step)" and "set (feed_order count start step) = {0..<count}"
proof -
  let ?f = "\<lambda>n. (start + int n * step) mod count"
  have inj: "inj_on ?f {0..<nat count}"
  proof (rule inj_onI)
    fix m n
    assume m: "m \<in> {0..<nat count}" and n: "n \<in> {0..<nat count}" and eq: "?f m = ?f n"
    have "count dvd (start + int m * step) - (start + int n * step)"
      using eq by (simp only: mod_eq_dvd_iff)
    then have "count dvd (int m - int n) * step" by (simp add: algebra_simps)
    then have "count dvd int m - int n"
      using cop by (metis coprime_commute coprime_dvd_mult_left_iff)
    moreover have "\<bar>int m - int n\<bar> < count" using m n assms(1) by (simp add: nat_less_iff abs_less_iff) linarith
    ultimately show "m = n" using zdvd_not_zless [of "\<bar>int m - int n\<bar>" count] by fastforce
  qed
  have e: "feed_order count start step = map ?f [0..<nat count]"
    using assms(1) by (simp add: feed_order_def max_def)
  show d: "distinct (feed_order count start step)"
    unfolding e using inj by (simp add: distinct_map)
  have sub: "set (feed_order count start step) \<subseteq> {0..<count}"
    unfolding e using assms(1) by auto
  moreover have "card (set (feed_order count start step)) = card {0..<count}"
    using distinct_card [OF d] by (simp add: feed_order_def del: set_map)
  ultimately show "set (feed_order count start step) = {0..<count}"
    by (intro card_subset_eq) simp_all
qed

section \<open>Workers and feeder\<close>

datatype worker = WIdle | WGot int | WTry int nat | WSaved int | WGone

datatype feeder = Poll | Urgent int | Offer | Closed

record download =
  dlCount :: int
  dlFile :: chunked
  dlHas :: "int list"
  dlClaimed :: "int list"
  dlDone :: int
  dlWorkers :: "worker list"
  dlFeeder :: feeder
  dlRemaining :: "int list"
  dlPriority :: "int list"
  dlCancelled :: bool
  dlFailed :: bool

definition worker_count :: "int \<Rightarrow> nat" where
  "worker_count count = nat (min 5 count)"

definition max_attempts :: nat where
  "max_attempts = 3"

definition priority_cap :: nat where
  "priority_cap = 4"

definition dl_start :: "chunked \<Rightarrow> int \<Rightarrow> int list \<Rightarrow> download" where
  "dl_start f count order =
     \<lparr>dlCount = count, dlFile = f, dlHas = [], dlClaimed = [], dlDone = 0,
      dlWorkers = replicate (worker_count count) WIdle, dlFeeder = Poll, dlRemaining = order,
      dlPriority = [], dlCancelled = False, dlFailed = False\<rparr>"

definition set_worker :: "nat \<Rightarrow> worker \<Rightarrow> download \<Rightarrow> download" where
  "set_worker w x d = d\<lparr>dlWorkers := (dlWorkers d)[w := x]\<rparr>"

text \<open>The prefetch handler: an index in range is queued unless the queue is full.\<close>

definition prefetch_handler :: "int \<Rightarrow> download \<Rightarrow> download" where
  "prefetch_handler i d =
     (if 0 \<le> i \<and> i < dlCount d \<and> length (dlPriority d) < priority_cap
      then d\<lparr>dlPriority := dlPriority d @ [i]\<rparr> else d)"

text \<open>The start of a round of the feeding loop.\<close>

definition feed_poll :: "download \<Rightarrow> download" where
  "feed_poll d =
     (if dlRemaining d = [] then d\<lparr>dlFeeder := Closed\<rparr>
      else (case dlPriority d of
              [] \<Rightarrow> d\<lparr>dlFeeder := Offer\<rparr>
            | u # us \<Rightarrow> d\<lparr>dlFeeder := Urgent u, dlPriority := us\<rparr>))"

text \<open>A worker looks at the chunk it was given, under the lock.\<close>

definition worker_look :: "nat \<Rightarrow> int \<Rightarrow> download \<Rightarrow> download" where
  "worker_look w i d =
     (if i \<in> set (dlClaimed d) \<or> i \<in> set (dlHas d) then set_worker w WIdle d
      else set_worker w (WTry i 0) (d\<lparr>dlClaimed := List.insert i (dlClaimed d)\<rparr>))"

text \<open>A successful fetch wrote the block, and \<^verbatim>\<open>AddChunk\<close> recorded it; later the claim is given up and
  the chunk is counted.\<close>

definition worker_saved :: "nat \<Rightarrow> int \<Rightarrow> chunked \<Rightarrow> download \<Rightarrow> download" where
  "worker_saved w i f d = set_worker w (WSaved i) (d\<lparr>dlFile := f, dlHas := List.insert i (dlHas d)\<rparr>)"

definition worker_counted :: "nat \<Rightarrow> int \<Rightarrow> download \<Rightarrow> download" where
  "worker_counted w i d =
     set_worker w WIdle (d\<lparr>dlClaimed := removeAll i (dlClaimed d), dlDone := dlDone d + 1\<rparr>)"

text \<open>A failed attempt: another one, or after the third the failure that cancels the download.\<close>

definition worker_failed :: "nat \<Rightarrow> int \<Rightarrow> nat \<Rightarrow> download \<Rightarrow> download" where
  "worker_failed w i k d =
     (if Suc k < max_attempts then set_worker w (WTry i (Suc k)) d
      else set_worker w WGone (d\<lparr>dlFailed := True, dlCancelled := True\<rparr>))"

inductive dl_step :: "(int \<Rightarrow> byte list \<Rightarrow> bool) \<Rightarrow> download \<Rightarrow> download \<Rightarrow> bool" for good where
  prefetch: "dl_step good d (prefetch_handler i d)"
| cancel: "dl_step good d (d\<lparr>dlCancelled := True\<rparr>)"
| poll: "dlFeeder d = Poll \<Longrightarrow> dl_step good d (feed_poll d)"
| urgent: "dlFeeder d = Urgent u \<Longrightarrow> w < length (dlWorkers d) \<Longrightarrow> dlWorkers d ! w = WIdle \<Longrightarrow>
    dl_step good d (set_worker w (WGot u) (d\<lparr>dlFeeder := Offer\<rparr>))"
| offer: "dlFeeder d = Offer \<Longrightarrow> dlRemaining d = i # is \<Longrightarrow> w < length (dlWorkers d) \<Longrightarrow>
    dlWorkers d ! w = WIdle \<Longrightarrow>
    dl_step good d (set_worker w (WGot i) (d\<lparr>dlFeeder := Poll, dlRemaining := is\<rparr>))"
| break_feed: "dlCancelled d \<Longrightarrow> dlFeeder d = Offer \<or> dlFeeder d = Urgent u \<Longrightarrow>
    dl_step good d (d\<lparr>dlFeeder := Closed\<rparr>)"
| look: "w < length (dlWorkers d) \<Longrightarrow> dlWorkers d ! w = WGot i \<Longrightarrow> dl_step good d (worker_look w i d)"
| give_up: "dlCancelled d \<Longrightarrow> w < length (dlWorkers d) \<Longrightarrow> dlWorkers d ! w = WTry i k \<Longrightarrow>
    dl_step good d (set_worker w WGone d)"
| fetched: "w < length (dlWorkers d) \<Longrightarrow> dlWorkers d ! w = WTry i k \<Longrightarrow> good i bs \<Longrightarrow>
    wr_block (dlFile d) i bs = Inr f \<Longrightarrow> dl_step good d (worker_saved w i f d)"
| counted: "w < length (dlWorkers d) \<Longrightarrow> dlWorkers d ! w = WSaved i \<Longrightarrow> dl_step good d (worker_counted w i d)"
| failed: "w < length (dlWorkers d) \<Longrightarrow> dlWorkers d ! w = WTry i k \<Longrightarrow> dl_step good d (worker_failed w i k d)"
| leave: "dlFeeder d = Closed \<Longrightarrow> w < length (dlWorkers d) \<Longrightarrow> dlWorkers d ! w = WIdle \<Longrightarrow>
    dl_step good d (set_worker w WGone d)"

text \<open>\<^verbatim>\<open>wg.Wait\<close> has returned.\<close>

definition dl_joined :: "download \<Rightarrow> bool" where
  "dl_joined d \<longleftrightarrow> dlFeeder d = Closed \<and> (\<forall>x \<in> set (dlWorkers d). x = WGone)"

section \<open>The invariant\<close>

text \<open>The chunk a worker has claimed.\<close>

definition chunk_of :: "worker \<Rightarrow> int option" where
  "chunk_of x = (case x of WTry i k \<Rightarrow> Some i | WSaved i \<Rightarrow> Some i | _ \<Rightarrow> None)"

lemma chunk_of_simps [simp]:
  "chunk_of WIdle = None" "chunk_of (WGot i) = None" "chunk_of (WTry i k) = Some i"
  "chunk_of (WSaved i) = Some i" "chunk_of WGone = None"
  by (simp_all add: chunk_of_def)

definition dl_range :: "int \<Rightarrow> download \<Rightarrow> bool" where
  "dl_range count d \<longleftrightarrow>
     dlCount d = count \<and> length (dlWorkers d) = worker_count count \<and>
     set (dlHas d) \<subseteq> {0..<count} \<and> distinct (dlHas d) \<and>
     set (dlPriority d) \<subseteq> {0..<count} \<and> length (dlPriority d) \<le> priority_cap \<and>
     set (dlRemaining d) \<subseteq> {0..<count} \<and> (\<forall>u. dlFeeder d = Urgent u \<longrightarrow> u \<in> {0..<count}) \<and>
     (\<forall>w i. w < length (dlWorkers d) \<longrightarrow>
        dlWorkers d ! w = WGot i \<or> chunk_of (dlWorkers d ! w) = Some i \<longrightarrow> i \<in> {0..<count})"

definition is_saved :: "worker \<Rightarrow> bool" where
  "is_saved x \<longleftrightarrow> (\<exists>i. x = WSaved i)"

text \<open>Over the chunk each worker has claimed (\<open>C\<close>) and whether it has saved it (\<open>V\<close>).\<close>

definition claims_rel :: "(nat \<Rightarrow> int option) \<Rightarrow> (nat \<Rightarrow> bool) \<Rightarrow> int set \<Rightarrow> int set \<Rightarrow> bool" where
  "claims_rel C V claimed has \<longleftrightarrow>
     (\<forall>w i. C w = Some i \<longrightarrow> i \<in> claimed \<and> (i \<in> has \<longleftrightarrow> V w)) \<and>
     (\<forall>w v i. C w = Some i \<longrightarrow> C v = Some i \<longrightarrow> w = v)"

definition wchunk :: "download \<Rightarrow> nat \<Rightarrow> int option" where
  "wchunk d w = (if w < length (dlWorkers d) then chunk_of (dlWorkers d ! w) else None)"

definition wsaved :: "download \<Rightarrow> nat \<Rightarrow> bool" where
  "wsaved d w \<longleftrightarrow> w < length (dlWorkers d) \<and> is_saved (dlWorkers d ! w)"

definition dl_claims :: "download \<Rightarrow> bool" where
  "dl_claims d \<longleftrightarrow> claims_rel (wchunk d) (wsaved d) (set (dlClaimed d)) (set (dlHas d))"

definition dl_count :: "download \<Rightarrow> bool" where
  "dl_count d \<longleftrightarrow> dlDone d + int (length (filter is_saved (dlWorkers d))) = int (length (dlHas d))"

text \<open>While nothing is cancelled, a claimed chunk is in a worker's hands and a chunk that is not
  waiting to be fed is there too (\<open>G\<close>: given to a worker, \<open>C\<close>: claimed by one) or done.\<close>

definition account_rel ::
  "int \<Rightarrow> (nat \<Rightarrow> int option) \<Rightarrow> (nat \<Rightarrow> int option) \<Rightarrow> int set \<Rightarrow> int set \<Rightarrow> int set \<Rightarrow> bool" where
  "account_rel count G C claimed has rest \<longleftrightarrow>
     (\<forall>i \<in> claimed. \<exists>w. C w = Some i) \<and>
     (\<forall>i \<in> {0..<count}. i \<in> rest \<or> i \<in> has \<or> (\<exists>w. G w = Some i) \<or> (\<exists>w. C w = Some i))"

definition wgot :: "download \<Rightarrow> nat \<Rightarrow> int option" where
  "wgot d w =
     (if w < length (dlWorkers d) then (case dlWorkers d ! w of WGot i \<Rightarrow> Some i | _ \<Rightarrow> None) else None)"

definition dl_account :: "download \<Rightarrow> bool" where
  "dl_account d \<longleftrightarrow> \<not> dlCancelled d \<longrightarrow>
     account_rel (dlCount d) (wgot d) (wchunk d) (set (dlClaimed d)) (set (dlHas d)) (set (dlRemaining d))"

definition dl_feeder :: "download \<Rightarrow> bool" where
  "dl_feeder d \<longleftrightarrow>
     (dlFailed d \<longrightarrow> dlCancelled d) \<and>
     (\<not> dlCancelled d \<longrightarrow> (dlFeeder d = Closed \<longrightarrow> dlRemaining d = []) \<and>
        (WGone \<in> set (dlWorkers d) \<longrightarrow> dlFeeder d = Closed)) \<and>
     (dlFeeder d \<noteq> Closed \<and> dlFeeder d \<noteq> Poll \<longrightarrow> dlRemaining d \<noteq> [])"

definition dl_content :: "(int \<Rightarrow> byte list \<Rightarrow> bool) \<Rightarrow> chunked \<Rightarrow> download \<Rightarrow> bool" where
  "dl_content good f0 d \<longleftrightarrow>
     chunked_ok (dlFile d) \<and> (fst (dlFile d), length (snd (dlFile d))) = (fst f0, length (snd f0)) \<and>
     (\<forall>i \<in> set (dlHas d). \<exists>bs. good i bs \<and> rd_block (dlFile d) i = Inr bs)"

lemma set_worker_fields [simp]:
  "dlCount (set_worker w x d) = dlCount d" "dlFile (set_worker w x d) = dlFile d"
  "dlHas (set_worker w x d) = dlHas d" "dlClaimed (set_worker w x d) = dlClaimed d"
  "dlDone (set_worker w x d) = dlDone d" "dlWorkers (set_worker w x d) = (dlWorkers d)[w := x]"
  "dlFeeder (set_worker w x d) = dlFeeder d" "dlRemaining (set_worker w x d) = dlRemaining d"
  "dlPriority (set_worker w x d) = dlPriority d" "dlCancelled (set_worker w x d) = dlCancelled d"
  "dlFailed (set_worker w x d) = dlFailed d"
  by (simp_all add: set_worker_def)

lemmas dl_ops = prefetch_handler_def feed_poll_def worker_look_def worker_saved_def worker_counted_def
  worker_failed_def

lemma filter_update_count:
  "w < length ws \<Longrightarrow> length (filter P (ws[w := x])) + (if P (ws ! w) then 1 else 0) =
     length (filter P ws) + (if P x then 1 else 0)"
proof (induction ws arbitrary: w)
  case (Cons y ws)
  then show ?case by (cases w) auto
qed simp

lemma dl_range_step: "dl_step good d e \<Longrightarrow> dl_range count d \<Longrightarrow> dl_range count e"
  by (induction rule: dl_step.induct)
    (auto simp: dl_range_def dl_ops nth_list_update List.insert_def split: list.splits if_splits)

lemma dl_content_step:
  assumes "dl_step good d e" and "dl_claims d" and "dl_content good f0 d"
  shows "dl_content good f0 e"
  using assms
proof (induction rule: dl_step.induct)
  case (fetched w d i k bs f)
  have ok: "chunked_ok (dlFile d)" using fetched.prems by (simp add: dl_content_def)
  have "chunked_ok f \<and> (fst f, length (snd f)) = (fst (dlFile d), length (snd (dlFile d)))"
    using chunks.wr_ok [OF ok fetched(4)] .
  moreover have "rd_block f i = Inr bs" using chunks.rd_wr [OF ok fetched(4)] .
  moreover have "rd_block f j = rd_block (dlFile d) j" if "j \<noteq> i" for j
    using chunks.rd_other [OF ok fetched(4) that] .
  ultimately show ?case
    using fetched.prems(2) fetched(3) by (auto simp: dl_content_def worker_saved_def) metis
qed (auto simp: dl_content_def dl_ops split: list.splits)

lemma claims_drop: "claims_rel C V cl has \<Longrightarrow> claims_rel (C(w := None)) (V(w := v)) cl has"
  unfolding claims_rel_def by (simp add: fun_upd_def)

lemma claims_claim:
  "claims_rel C V cl has \<Longrightarrow> i \<notin> cl \<Longrightarrow> i \<notin> has \<Longrightarrow> claims_rel (C(w := Some i)) (V(w := False)) (insert i cl) has"
  unfolding claims_rel_def by (simp add: fun_upd_def) metis

lemma claims_save:
  "claims_rel C V cl has \<Longrightarrow> C w = Some i \<Longrightarrow> claims_rel C (V(w := True)) cl (insert i has)"
  unfolding claims_rel_def by (simp add: fun_upd_def) metis

lemma claims_count:
  "claims_rel C V cl has \<Longrightarrow> C w = Some i \<Longrightarrow> claims_rel (C(w := None)) (V(w := False)) (cl - {i}) has"
  unfolding claims_rel_def by (simp add: fun_upd_def) metis

lemma is_saved_simps [simp]:
  "\<not> is_saved WIdle" "\<not> is_saved (WGot i)" "\<not> is_saved (WTry i k)" "is_saved (WSaved i)" "\<not> is_saved WGone"
  by (simp_all add: is_saved_def)

lemma wchunk_set:
  "wchunk (set_worker w x d) = (if w < length (dlWorkers d) then (wchunk d)(w := chunk_of x) else wchunk d)"
  by (auto simp: fun_eq_iff wchunk_def nth_list_update)

lemma wsaved_set:
  "wsaved (set_worker w x d) = (if w < length (dlWorkers d) then (wsaved d)(w := is_saved x) else wsaved d)"
  by (auto simp: fun_eq_iff wsaved_def nth_list_update)

lemma wchunk_cong: "dlWorkers d = dlWorkers e \<Longrightarrow> wchunk d = wchunk e \<and> wsaved d = wsaved e"
  by (auto simp: fun_eq_iff wchunk_def wsaved_def)

lemma wchunk_fields [simp]:
  "wchunk (d\<lparr>dlFeeder := a\<rparr>) = wchunk d" "wchunk (d\<lparr>dlRemaining := b\<rparr>) = wchunk d"
  "wchunk (d\<lparr>dlPriority := c\<rparr>) = wchunk d" "wchunk (d\<lparr>dlCancelled := x\<rparr>) = wchunk d"
  "wchunk (d\<lparr>dlFailed := y\<rparr>) = wchunk d" "wchunk (d\<lparr>dlClaimed := z\<rparr>) = wchunk d"
  "wchunk (d\<lparr>dlFile := f\<rparr>) = wchunk d" "wchunk (d\<lparr>dlHas := g\<rparr>) = wchunk d" "wchunk (d\<lparr>dlDone := h\<rparr>) = wchunk d"
  "wsaved (d\<lparr>dlFeeder := a\<rparr>) = wsaved d" "wsaved (d\<lparr>dlRemaining := b\<rparr>) = wsaved d"
  "wsaved (d\<lparr>dlPriority := c\<rparr>) = wsaved d" "wsaved (d\<lparr>dlCancelled := x\<rparr>) = wsaved d"
  "wsaved (d\<lparr>dlFailed := y\<rparr>) = wsaved d" "wsaved (d\<lparr>dlClaimed := z\<rparr>) = wsaved d"
  "wsaved (d\<lparr>dlFile := f\<rparr>) = wsaved d" "wsaved (d\<lparr>dlHas := g\<rparr>) = wsaved d" "wsaved (d\<lparr>dlDone := h\<rparr>) = wsaved d"
  by (simp_all add: fun_eq_iff wchunk_def wsaved_def)

lemmas worker_views = dl_claims_def wchunk_set wsaved_set

lemma dl_claims_step: "dl_step good d e \<Longrightarrow> dl_claims d \<Longrightarrow> dl_claims e"
proof (induction rule: dl_step.induct)
  case (look w d i)
  then show ?case by (auto simp: worker_look_def worker_views claims_drop claims_claim)
next
  case (fetched w d i k bs f)
  have w: "wchunk d w = Some i" using fetched by (simp add: wchunk_def)
  then have "(wchunk d)(w := Some i) = wchunk d" by (simp add: fun_upd_idem)
  with fetched w show ?case by (simp add: worker_saved_def worker_views claims_save)
next
  case (counted w d i)
  then have w: "wchunk d w = Some i" by (simp add: wchunk_def)
  with counted show ?case
    by (simp add: worker_counted_def worker_views claims_count)
next
  case (failed w d i k)
  have w: "wchunk d w = Some i" "\<not> wsaved d w" using failed by (simp_all add: wchunk_def wsaved_def)
  then have "(wchunk d)(w := Some i) = wchunk d" "(wsaved d)(w := False) = wsaved d"
    by (simp_all add: fun_upd_idem)
  moreover have "claims_rel ((wchunk d)(w := None)) ((wsaved d)(w := False)) (set (dlClaimed d)) (set (dlHas d))"
    using failed(3) by (simp add: dl_claims_def claims_drop)
  ultimately show ?case using failed by (simp add: worker_failed_def worker_views)
next
  case (poll d)
  then show ?case by (auto simp: feed_poll_def worker_views split: list.splits)
qed (auto simp: worker_views prefetch_handler_def claims_drop)

lemma dl_count_step:
  assumes "dl_step good d e" and "dl_claims d" and "dl_count d"
  shows "dl_count e"
  using assms
proof (induction rule: dl_step.induct)
  case (fetched w d i k bs f)
  have "wchunk d w = Some i" "\<not> wsaved d w" using fetched by (simp_all add: wchunk_def wsaved_def)
  then have "i \<notin> set (dlHas d)" using fetched.prems(1) by (auto simp: dl_claims_def claims_rel_def)
  with fetched show ?case
    using filter_update_count [OF fetched(1), of is_saved "WSaved i"]
    by (simp add: dl_count_def worker_saved_def)
next
  case (urgent d u w)
  then show ?case using filter_update_count [of w "dlWorkers d" is_saved "WGot u"] by (simp add: dl_count_def)
next
  case (offer d i "is" w)
  then show ?case using filter_update_count [of w "dlWorkers d" is_saved "WGot i"] by (simp add: dl_count_def)
next
  case (look w d i)
  then show ?case
    using filter_update_count [of w "dlWorkers d" is_saved WIdle]
      filter_update_count [of w "dlWorkers d" is_saved "WTry i 0"]
    by (simp add: dl_count_def worker_look_def)
next
  case (give_up d w i k)
  then show ?case using filter_update_count [of w "dlWorkers d" is_saved WGone] by (simp add: dl_count_def)
next
  case (counted w d i)
  then show ?case
    using filter_update_count [of w "dlWorkers d" is_saved WIdle] by (simp add: dl_count_def worker_counted_def)
next
  case (failed w d i k)
  then show ?case
    using filter_update_count [of w "dlWorkers d" is_saved WGone]
      filter_update_count [of w "dlWorkers d" is_saved "WTry i (Suc k)"]
    by (simp add: dl_count_def worker_failed_def)
next
  case (leave d w)
  then show ?case using filter_update_count [of w "dlWorkers d" is_saved WGone] by (simp add: dl_count_def)
qed (auto simp: dl_count_def prefetch_handler_def feed_poll_def split: list.splits)

text \<open>Nothing is lost: the five ways a worker changes the account.\<close>

lemma account_given:
  assumes "account_rel n G C cl has rest" and "G w = None" and "rest \<subseteq> insert i rest'"
  shows "account_rel n (G(w := Some i)) C cl has rest'"
  unfolding account_rel_def
proof (intro conjI ballI)
  fix j assume "j \<in> {0..<n}"
  then consider "j \<in> rest" | "j \<in> has" | v where "G v = Some j" | v where "C v = Some j"
    using assms(1) unfolding account_rel_def by blast
  then show "j \<in> rest' \<or> j \<in> has \<or> (\<exists>v. (G(w := Some i)) v = Some j) \<or> (\<exists>v. C v = Some j)"
  proof cases
    case (3 v)
    then have "v \<noteq> w" using assms(2) by auto
    with 3 have "(G(w := Some i)) v = Some j" by simp
    then show ?thesis by blast
  qed (use assms(3) in \<open>auto intro: exI [of _ w]\<close>)
qed (use assms(1) in \<open>simp add: account_rel_def\<close>)

lemma account_skip:
  assumes "account_rel n G C cl has rest" and "G w = Some i" and "i \<in> cl \<or> i \<in> has"
  shows "account_rel n (G(w := None)) C cl has rest"
  unfolding account_rel_def
proof (intro conjI ballI)
  fix j assume "j \<in> {0..<n}"
  then consider "j \<in> rest" | "j \<in> has" | v where "G v = Some j" | v where "C v = Some j"
    using assms(1) unfolding account_rel_def by blast
  then show "j \<in> rest \<or> j \<in> has \<or> (\<exists>v. (G(w := None)) v = Some j) \<or> (\<exists>v. C v = Some j)"
  proof cases
    case (3 v)
    show ?thesis
    proof (cases "v = w")
      case True
      with 3 assms(2) have "j = i" by simp
      with assms(1,3) show ?thesis by (auto simp: account_rel_def)
    next
      case False
      with 3 have "(G(w := None)) v = Some j" by simp
      then show ?thesis by blast
    qed
  qed auto
qed (use assms(1) in \<open>simp add: account_rel_def\<close>)

lemma account_claim:
  assumes "account_rel n G C cl has rest" and "G w = Some i" and "C w = None"
  shows "account_rel n (G(w := None)) (C(w := Some i)) (insert i cl) has rest"
proof -
  have keep: "\<exists>v. (C(w := Some i)) v = Some j" if "\<exists>v. C v = Some j" for j
    using that assms(3) by (metis fun_upd_other option.distinct(1))
  have got: "(\<exists>v. (G(w := None)) v = Some j) \<or> (\<exists>v. (C(w := Some i)) v = Some j)" if "G v = Some j" for j v
  proof (cases "v = w")
    case True
    then have "(C(w := Some i)) w = Some j" using that assms(2) by simp
    then show ?thesis by blast
  next
    case False
    then have "(G(w := None)) v = Some j" using that by simp
    then show ?thesis by blast
  qed
  show ?thesis
    using assms(1) keep got unfolding account_rel_def
    by (metis fun_upd_same insert_iff)
qed

lemma account_has: "account_rel n G C cl has rest \<Longrightarrow> account_rel n G C cl (insert i has) rest"
  unfolding account_rel_def by blast

lemma account_count:
  assumes "account_rel n G C cl has rest" and "C w = Some i" and "i \<in> has"
  shows "account_rel n G (C(w := None)) (cl - {i}) has rest"
proof -
  have keep: "\<exists>v. (C(w := None)) v = Some j" if "\<exists>v. C v = Some j" "j \<noteq> i" for j
    using that assms(2) by (metis fun_upd_other option.inject)
  show ?thesis
    using assms(1,3) keep unfolding account_rel_def by (metis DiffE insertI1)
qed

lemma wgot_set:
  "wgot (set_worker w x d) =
     (if w < length (dlWorkers d) then (wgot d)(w := (case x of WGot i \<Rightarrow> Some i | _ \<Rightarrow> None)) else wgot d)"
  by (auto simp: fun_eq_iff wgot_def nth_list_update)

lemma wgot_fields [simp]:
  "wgot (d\<lparr>dlFeeder := a\<rparr>) = wgot d" "wgot (d\<lparr>dlRemaining := b\<rparr>) = wgot d"
  "wgot (d\<lparr>dlPriority := c\<rparr>) = wgot d" "wgot (d\<lparr>dlCancelled := x\<rparr>) = wgot d"
  "wgot (d\<lparr>dlFailed := y\<rparr>) = wgot d" "wgot (d\<lparr>dlClaimed := z\<rparr>) = wgot d"
  "wgot (d\<lparr>dlFile := f\<rparr>) = wgot d" "wgot (d\<lparr>dlHas := g\<rparr>) = wgot d" "wgot (d\<lparr>dlDone := h\<rparr>) = wgot d"
  by (simp_all add: fun_eq_iff wgot_def)

lemma worker_state:
  assumes "w < length (dlWorkers d)"
  shows "dlWorkers d ! w = WIdle \<Longrightarrow> wgot d w = None \<and> wchunk d w = None"
    and "dlWorkers d ! w = WGot i \<Longrightarrow> wgot d w = Some i \<and> wchunk d w = None"
    and "dlWorkers d ! w = WTry i k \<Longrightarrow> wgot d w = None \<and> wchunk d w = Some i"
    and "dlWorkers d ! w = WSaved i \<Longrightarrow> wgot d w = None \<and> wchunk d w = Some i"
  using assms by (simp_all add: wgot_def wchunk_def)

lemmas account_views = dl_account_def wgot_set wchunk_set fun_upd_idem

lemma dl_account_step: "dl_step good d e \<Longrightarrow> dl_claims d \<Longrightarrow> dl_account d \<Longrightarrow> dl_account e"
proof (induction rule: dl_step.induct)
  case (urgent d u w)
  then show ?case
    using worker_state(1) [OF urgent.hyps(2,3)]
    by (auto simp: account_views intro!: account_given [OF _ _ subset_insertI])
next
  case (offer d i "is" w)
  then show ?case
    using worker_state(1) [OF offer.hyps(3,4)]
    by (auto simp: account_views intro!: account_given [OF _ _ order_refl])
next
  case (look w d i)
  then show ?case
    using worker_state(2) [OF look.hyps] account_skip [of _ "wgot d" "wchunk d" _ _ _ w i]
      account_claim [of _ "wgot d" "wchunk d" _ _ _ w i]
    by (auto simp: account_views worker_look_def)
next
  case (fetched w d i k bs f)
  then show ?case
    using worker_state(3) [OF fetched.hyps(1,2)]
    by (auto simp: account_views worker_saved_def account_has)
next
  case (counted w d i)
  have "i \<in> set (dlHas d)"
    using counted worker_state(4) [OF counted.hyps] by (auto simp: dl_claims_def claims_rel_def wsaved_def)
  then show ?case
    using counted worker_state(4) [OF counted.hyps]
    by (auto simp: account_views worker_counted_def account_count)
next
  case (failed w d i k)
  then show ?case
    using worker_state(3) [OF failed.hyps] by (auto simp: account_views worker_failed_def)
next
  case (leave d w)
  then show ?case using worker_state(1) [OF leave.hyps(2,3)] by (auto simp: account_views)
qed (auto simp: account_views prefetch_handler_def feed_poll_def split: list.splits)

lemma dl_feeder_step: "dl_step good d e \<Longrightarrow> dl_feeder d \<Longrightarrow> dl_feeder e"
proof (induction rule: dl_step.induct)
  case (poll d)
  then show ?case by (auto simp: dl_feeder_def feed_poll_def split: list.splits)
qed (auto simp: dl_feeder_def dl_ops dest!: set_update_subset_insert [THEN subsetD])

text \<open>Everything together.\<close>

definition dl_inv :: "(int \<Rightarrow> byte list \<Rightarrow> bool) \<Rightarrow> chunked \<Rightarrow> int \<Rightarrow> download \<Rightarrow> bool" where
  "dl_inv good f0 count d \<longleftrightarrow>
     dl_range count d \<and> dl_claims d \<and> dl_count d \<and> dl_account d \<and> dl_feeder d \<and> dl_content good f0 d"

definition dl_init :: "chunked \<Rightarrow> int \<Rightarrow> download \<Rightarrow> bool" where
  "dl_init f0 count d \<longleftrightarrow>
     chunked_ok f0 \<and> (\<exists>order. set order = {0..<count} \<and> d = dl_start f0 count order)"

lemma dl_inv_init: "dl_init f0 count d \<Longrightarrow> dl_inv good f0 count d"
proof -
  assume "dl_init f0 count d"
  then obtain order where f0: "chunked_ok f0" and o: "set order = {0..<count}" and d: "d = dl_start f0 count order"
    by (auto simp: dl_init_def)
  have "dl_range count d" using o by (simp add: d dl_start_def dl_range_def)
  moreover have "dl_claims d" by (simp add: d dl_start_def dl_claims_def claims_rel_def wchunk_def)
  moreover have "dl_count d" by (simp add: d dl_start_def dl_count_def)
  moreover have "dl_account d" using o by (simp add: d dl_start_def dl_account_def account_rel_def)
  moreover have "dl_feeder d" by (simp add: d dl_start_def dl_feeder_def)
  moreover have "dl_content good f0 d" using f0 by (simp add: d dl_start_def dl_content_def)
  ultimately show ?thesis by (simp only: dl_inv_def simp_thms)
qed

lemma dl_inv_step: "dl_step good d e \<Longrightarrow> dl_inv good f0 count d \<Longrightarrow> dl_inv good f0 count e"
proof -
  assume st: "dl_step good d e" and "dl_inv good f0 count d"
  then have i: "dl_range count d" "dl_claims d" "dl_count d" "dl_account d" "dl_feeder d" "dl_content good f0 d"
    by (simp_all add: dl_inv_def)
  have "dl_range count e" using st i(1) by (rule dl_range_step)
  moreover have "dl_claims e" using st i(2) by (rule dl_claims_step)
  moreover have "dl_count e" using st i(2,3) by (rule dl_count_step)
  moreover have "dl_account e" using st i(2,4) by (rule dl_account_step)
  moreover have "dl_feeder e" using st i(5) by (rule dl_feeder_step)
  moreover have "dl_content good f0 e" using st i(2,6) by (rule dl_content_step)
  ultimately show "dl_inv good f0 count e" by (simp only: dl_inv_def simp_thms)
qed

interpretation dl: invariant_system "dl_init f0 count" "dl_step good" "dl_inv good f0 count" for good f0 count
  by unfold_locales (fact dl_inv_init, fact dl_inv_step)

section \<open>What RunTo leaves on disk\<close>

text \<open>The directory as a map from names to files. \<open>tmp\<close> is the name \<^verbatim>\<open>CreateTemp\<close> made up, \<open>joined\<close>
  what the workers left. The flags say whether the calls succeed: \<open>ctx\<close> is \<^verbatim>\<open>ctx.Err\<close> after the
  workers joined and after \<^verbatim>\<open>Sync\<close>, \<open>lstat_ok\<close> that \<^verbatim>\<open>Lstat\<close> fails only for a missing target.\<close>

datatype run_error = Cancelled | ChunkFailure | SyncFailed | TargetExists | LstatFailed | RenameFailed

record run_env =
  reCtx1 :: bool
  reCtx2 :: bool
  reSync :: bool
  reLstat :: bool
  reRename :: bool

type_synonym directory = "(string, byte list) gomap"

definition run_check :: "run_env \<Rightarrow> bool option \<Rightarrow> string \<Rightarrow> download \<Rightarrow> directory \<Rightarrow> run_error option" where
  "run_check env overwrite target d dir =
     (if reCtx1 env then Some Cancelled
      else if dlFailed d then Some ChunkFailure
      else if \<not> reSync env then Some SyncFailed
      else if reCtx2 env then Some Cancelled
      else if overwrite = Some False \<and> mget dir target \<noteq> None then Some TargetExists
      else if overwrite = Some False \<and> \<not> reLstat env then Some LstatFailed
      else if \<not> reRename env then Some RenameFailed
      else None)"

definition RunTo_finish ::
  "run_env \<Rightarrow> bool option \<Rightarrow> string \<Rightarrow> string \<Rightarrow> download \<Rightarrow> directory \<Rightarrow> run_error option \<times> directory" where
  "RunTo_finish env overwrite tmp target d dir =
     (let dir1 = mput tmp (snd (dlFile d)) dir
      in case run_check env overwrite target d dir of
           Some e \<Rightarrow> (Some e, mdel tmp dir1)
         | None \<Rightarrow> (None, mput target (snd (dlFile d)) (mdel tmp dir1)))"

definition max_file_size :: int where
  "max_file_size = 2 ^ 50"

text \<open>The metadata check at the start; \<open>plain\<close> is \<^verbatim>\<open>filepath.Base(name) == name\<close>.\<close>

definition run_metadata_ok :: "string \<Rightarrow> bool \<Rightarrow> int \<Rightarrow> int \<Rightarrow> int \<Rightarrow> bool" where
  "run_metadata_ok name plain sz csize num \<longleftrightarrow>
     \<not> (name = [] \<or> \<not> plain \<or> sz < 0 \<or> max_file_size < sz \<or> csize \<noteq> ChunkSize \<or>
        num \<noteq> go_quot (sz + ChunkSize - 1) ChunkSize)"

section \<open>Properties\<close>

text \<open>The feeder visits every chunk exactly once. The search for a step coprime to the number of
  chunks always ends, and from any start the fed indices are a permutation of all chunks.\<close>

theorem feed_visits_all:
  assumes "2 \<le> count" and "1 \<le> step" and "step < count" and "0 \<le> start" and "start < count"
  shows "\<exists>t. choose_step count step = Some t \<and> distinct (feed_loop (nat count) count start t) \<and>
    set (feed_loop (nat count) count start t) = {0..<count}"
proof -
  obtain t where t: "choose_step count step = Some t" "1 \<le> t" "coprime t count"
    using choose_step_returns [OF assms(2,3)] by blast
  have "feed_loop (nat count) count start t = feed_order count start t"
    using assms(4,5) t(2) by (intro feed_loop_order) simp_all
  with feed_order_perm [of count t start] t assms(1) show ?thesis by auto
qed

theorem feed_visits_all_witness:
  "\<exists>t. choose_step 6 2 = Some t \<and> set (feed_loop (nat 6) 6 4 t) = {0..<6}"
  using feed_visits_all [of 6 2 4] by auto

text \<open>C30: whatever order the workers, the feeder, prefetch orders and cancellation come in, no two
  workers ever fetch the same chunk, a chunk is fetched only while it is missing, and the progress
  counter is the number of chunks saved less those not yet counted, so it never exceeds the total.\<close>

theorem workers_exclusive:
  assumes "reachable (dl_init f0 count) (dl_step good) d"
  shows "(\<forall>w v i. wchunk d w = Some i \<longrightarrow> wchunk d v = Some i \<longrightarrow> w = v) \<and>
    (\<forall>w i k. w < length (dlWorkers d) \<longrightarrow> dlWorkers d ! w = WTry i k \<longrightarrow> i \<notin> set (dlHas d)) \<and>
    dlDone d + int (length (filter is_saved (dlWorkers d))) = int (length (dlHas d)) \<and>
    dlDone d \<le> max 0 count"
proof -
  have inv: "dl_inv good f0 count d" using assms by (rule dl.reach_inv)
  have c: "claims_rel (wchunk d) (wsaved d) (set (dlClaimed d)) (set (dlHas d))" and n: "dl_count d" and r: "dl_range count d"
    using inv by (simp_all add: dl_inv_def dl_claims_def)
  have "i \<notin> set (dlHas d)" if "w < length (dlWorkers d)" "dlWorkers d ! w = WTry i k" for w i k
  proof -
    have "wchunk d w = Some i" "\<not> wsaved d w" using that by (simp_all add: wchunk_def wsaved_def)
    then show ?thesis using c by (simp add: claims_rel_def)
  qed
  moreover have "length (dlHas d) \<le> nat count"
  proof -
    have "card (set (dlHas d)) \<le> card {0..<count}" using r by (intro card_mono) (auto simp: dl_range_def)
    then show ?thesis using r by (simp add: dl_range_def distinct_card)
  qed
  then have "int (length (dlHas d)) \<le> max 0 count" by linarith
  moreover have "\<forall>w v i. wchunk d w = Some i \<longrightarrow> wchunk d v = Some i \<longrightarrow> w = v"
    using c unfolding claims_rel_def by blast
  ultimately show ?thesis using n unfolding dl_count_def by simp
qed

text \<open>A run for the witnesses: one chunk, fetched by the one worker.\<close>

definition sample_good :: "int \<Rightarrow> byte list \<Rightarrow> bool" where
  "sample_good i bs \<longleftrightarrow> rd_block (sample_chunk, [7, 9]) i = Inr bs"

definition sample_dl :: download where
  "sample_dl = dl_start (sample_chunk, [0, 0]) 1 [0]"

lemma sample_dl_reachable: "reachable (dl_init (sample_chunk, [0, 0]) 1) (dl_step sample_good) sample_dl"
proof (rule reach_init)
  have "chunked_ok (sample_chunk, [0, 0])" using sample_sized by (simp add: chunked_ok_def)
  moreover have "{0..<1} = {0 :: int}" by auto
  ultimately show "dl_init (sample_chunk, [0, 0]) 1 sample_dl"
    unfolding dl_init_def sample_dl_def by (intro conjI exI [of _ "[0]"]) simp_all
qed

theorem workers_exclusive_witness: "dlDone sample_dl \<le> 1"
  using workers_exclusive [OF sample_dl_reachable] by simp

lemma dl_complete:
  assumes "dl_inv good f0 count d" and joined: "dl_joined d" and "\<not> dlCancelled d"
  shows "set (dlHas d) = {0..<count}" and "dlDone d = max 0 count"
proof -
  have r: "dl_range count d" and a: "dl_account d" and n: "dl_count d" and fd: "dl_feeder d"
    using assms(1) by (simp_all add: dl_inv_def)
  have gone: "dlWorkers d ! w = WGone" if "w < length (dlWorkers d)" for w
    using joined that by (simp add: dl_joined_def)
  then have "wgot d w = None" "wchunk d w = None" for w by (simp_all add: wgot_def wchunk_def)
  moreover have "dlRemaining d = []" using fd joined assms(3) by (simp add: dl_feeder_def dl_joined_def)
  ultimately have "{0..<count} \<subseteq> set (dlHas d)"
    using a r assms(3) by (auto simp: dl_account_def account_rel_def dl_range_def)
  then show has: "set (dlHas d) = {0..<count}" using r by (auto simp: dl_range_def)
  have "filter is_saved (dlWorkers d) = []"
    using joined by (auto simp: dl_joined_def filter_empty_conv)
  moreover have "length (dlHas d) = card (set (dlHas d))" using r by (simp add: dl_range_def distinct_card)
  ultimately show "dlDone d = max 0 count" using n has by (simp add: dl_count_def)
qed

lemma dl_copy:
  assumes "dl_inv good f0 count d" and "dl_joined d" and "\<not> dlCancelled d"
    and "count = GetChunkNum (fst f0)" and "chunked_ok (fst f0, src)" and "length src = length (snd f0)"
    and good: "\<And>i bs. good i bs \<Longrightarrow> rd_block (fst f0, src) i = Inr bs"
  shows "dlFile d = (fst f0, src)"
proof -
  have c: "dl_content good f0 d" using assms(1) by (simp add: dl_inv_def)
  then have ok: "chunked_ok (dlFile d)" and shape: "(fst (dlFile d), length (snd (dlFile d))) = (fst f0, length (snd f0))"
    and has: "\<forall>i \<in> set (dlHas d). \<exists>bs. good i bs \<and> rd_block (dlFile d) i = Inr bs"
    by (simp_all add: dl_content_def)
  have eq: "rd_block (dlFile d) i = rd_block (fst f0, src) i" if "0 \<le> i" "i < GetChunkNum (fst (fst f0, src))" for i
  proof -
    have "i \<in> set (dlHas d)" using dl_complete(1) [OF assms(1-3)] that assms(4) by simp
    then obtain bs where "good i bs" "rd_block (dlFile d) i = Inr bs" using has by blast
    with good show ?thesis by simp
  qed
  show ?thesis
    using chunks.ext [OF ok assms(5) _ eq] shape assms(6) by simp
qed

text \<open>C28: a download that is not cancelled is complete: when every worker has left, every chunk was
  saved and counted, and if each fetched chunk is the source's, the file is the source file.\<close>

theorem download_complete:
  assumes "reachable (dl_init f0 (GetChunkNum (fst f0))) (dl_step good) d"
    and "dl_joined d" and "\<not> dlCancelled d" and "chunked_ok (fst f0, src)" and "length src = length (snd f0)"
    and good: "\<And>i bs. good i bs \<Longrightarrow> rd_block (fst f0, src) i = Inr bs"
  shows "set (dlHas d) = {0..<GetChunkNum (fst f0)} \<and> dlDone d = max 0 (GetChunkNum (fst f0)) \<and>
    dlFile d = (fst f0, src)"
  using dl_complete [OF dl.reach_inv [OF assms(1)] assms(2,3)]
    dl_copy [OF dl.reach_inv [OF assms(1)] assms(2,3) refl assms(4,5) good] by simp

definition sample_done :: download where
  "sample_done =
     set_worker 0 WGone (feed_poll (worker_counted 0 0 (worker_saved 0 0 (sample_chunk, [7, 9])
       (worker_look 0 0 (set_worker 0 (WGot 0) ((feed_poll sample_dl)\<lparr>dlFeeder := Poll, dlRemaining := []\<rparr>))))))"

lemma sample_one: "GetChunkNum sample_chunk = 1"
  using chunk_num_eq [OF sample_sized [of 7 9]] by (simp add: ChunkSize_num)

lemma sample_saves: "wr_block (sample_chunk, [0, 0]) 0 [7, 9] = Inr (sample_chunk, [7, 9])"
  using save_block [OF sample_sized, of 0 0 0 "[7, 9]" "[7, 9]"] sample_one
  by (simp add: wr_block_def put_block_def length_block ChunkSize_num)

lemma sample_is_good: "sample_good 0 [7, 9]"
  using read_chunk_block [OF sample_sized [of 7 9], of 0] sample_one
  by (simp add: sample_good_def rd_block_def block_def ChunkSize_num)

lemma sample_done_reachable: "reachable (dl_init (sample_chunk, [0, 0]) 1) (dl_step sample_good) sample_done"
proof -
  let ?R = "reachable (dl_init (sample_chunk, [0, 0]) 1) (dl_step sample_good)"
  note ev = sample_dl_def dl_start_def worker_count_def set_worker_def dl_ops
  let ?d1 = "feed_poll sample_dl"
  let ?d2 = "set_worker 0 (WGot 0) (?d1\<lparr>dlFeeder := Poll, dlRemaining := []\<rparr>)"
  let ?d3 = "worker_look 0 0 ?d2"
  let ?d4 = "worker_saved 0 0 (sample_chunk, [7, 9]) ?d3"
  let ?d5 = "worker_counted 0 0 ?d4"
  have 1: "?R ?d1" using sample_dl_reachable by (rule reach_step) (rule dl_step.poll; simp add: ev)
  have 2: "?R ?d2" using 1 by (rule reach_step) (rule dl_step.offer; simp add: ev)
  have 3: "?R ?d3" using 2 by (rule reach_step) (rule dl_step.look; simp add: ev)
  have 4: "?R ?d4" using 3
    by (rule reach_step) (rule dl_step.fetched [where k = 0 and bs = "[7, 9]"];
      simp add: ev sample_is_good sample_saves)
  have 5: "?R ?d5" using 4 by (rule reach_step) (rule dl_step.counted; simp add: ev)
  have 6: "?R (feed_poll ?d5)" using 5 by (rule reach_step) (rule dl_step.poll; simp add: ev)
  show ?thesis
    unfolding sample_done_def using 6 by (rule reach_step) (rule dl_step.leave; simp add: ev)
qed

lemma sample_done_state: "dl_joined sample_done" "\<not> dlCancelled sample_done" "\<not> dlFailed sample_done"
  by (simp_all add: sample_done_def sample_dl_def dl_start_def worker_count_def set_worker_def dl_ops dl_joined_def)

theorem download_complete_witness: "dlFile sample_done = (sample_chunk, [7, 9]) \<and> dlDone sample_done = 1"
  using download_complete [of "(sample_chunk, [0, 0])" sample_good sample_done "[7, 9]"]
    sample_done_reachable sample_done_state sample_sized [of 7 9]
  by (simp add: sample_one chunked_ok_def sample_good_def)

text \<open>C29: \<^verbatim>\<open>RunTo\<close> is all or nothing. If it succeeds, the target is the source file and nothing else in
  the directory changed; if it fails, for whatever reason, the directory is as it was, an existing
  target included, and the temporary file is gone.\<close>

theorem runto_all_or_nothing:
  assumes "reachable (dl_init f0 (GetChunkNum (fst f0))) (dl_step good) d" and "dl_joined d"
    and "chunked_ok (fst f0, src)" and "length src = length (snd f0)"
    and good: "\<And>i bs. good i bs \<Longrightarrow> rd_block (fst f0, src) i = Inr bs"
    and cancel: "dlCancelled d \<Longrightarrow> dlFailed d \<or> reCtx1 env"
    and tmp: "mget dir tmp = None" "tmp \<noteq> target"
    and run: "RunTo_finish env overwrite tmp target d dir = (err, dir')"
  shows "(err = None \<longrightarrow> mget dir' target = Some src \<and> (overwrite = Some False \<longrightarrow> mget dir target = None)) \<and>
    (\<forall>x. err \<noteq> None \<or> x \<noteq> target \<longrightarrow> mget dir' x = mget dir x)"
proof -
  have content: "snd (dlFile d) = src" if "err = None"
  proof -
    have "\<not> dlFailed d" "\<not> reCtx1 env"
      using run that by (auto simp: RunTo_finish_def run_check_def Let_def split: if_splits)
    then have "\<not> dlCancelled d" using cancel by blast
    then show ?thesis
      using dl_copy [OF dl.reach_inv [OF assms(1)] assms(2) _ refl assms(3,4) good] by simp
  qed
  show ?thesis
    using run content tmp
    by (auto simp: RunTo_finish_def Let_def gomap_simps run_check_def split: option.splits if_splits)
qed

theorem runto_all_or_nothing_witness:
  "mget (snd (RunTo_finish \<lparr>reCtx1 = False, reCtx2 = False, reSync = True, reLstat = True, reRename = True\<rparr>
     None ''t.part'' ''f'' sample_done [(''f'', [1])])) ''f'' = Some [7, 9]"
proof -
  let ?env = "\<lparr>reCtx1 = False, reCtx2 = False, reSync = True, reLstat = True, reRename = True\<rparr>"
  obtain err dir' where run: "RunTo_finish ?env None ''t.part'' ''f'' sample_done [(''f'', [1])] = (err, dir')"
    by (cases "RunTo_finish ?env None ''t.part'' ''f'' sample_done [(''f'', [1])]")
  have "err = None" using run sample_done_state by (simp add: RunTo_finish_def run_check_def Let_def)
  moreover have "reachable (dl_init (sample_chunk, [0, 0]) (GetChunkNum (fst (sample_chunk, [0, 0 :: byte])))) (dl_step sample_good) sample_done"
    using sample_done_reachable by (simp add: sample_one)
  ultimately show ?thesis
    using runto_all_or_nothing [OF _ sample_done_state(1) _ _ _ _ _ _ run, where ?f0.0 = "(sample_chunk, [0, 0])" and good = sample_good and src = "[7, 9]"]
      sample_done_state sample_sized [of 7 9] run
    by (simp add: chunked_ok_def sample_good_def)
qed

section \<open>Progress\<close>

text \<open>A bound on the moves the workers and the feeder can still make.\<close>

definition worker_weight :: "worker \<Rightarrow> nat" where
  "worker_weight x =
     (case x of WGone \<Rightarrow> 0 | WIdle \<Rightarrow> 1 | WSaved i \<Rightarrow> 2 | WTry i k \<Rightarrow> 5 - min k 2 | WGot i \<Rightarrow> 6)"

definition feeder_weight :: "feeder \<Rightarrow> nat \<Rightarrow> nat" where
  "feeder_weight f n =
     (case f of Poll \<Rightarrow> 13 * n + 1 | Urgent u \<Rightarrow> 13 * n | Offer \<Rightarrow> 13 * n - 6 | Closed \<Rightarrow> 0)"

definition dl_measure :: "download \<Rightarrow> nat" where
  "dl_measure d =
     sum_list (map worker_weight (dlWorkers d)) + feeder_weight (dlFeeder d) (length (dlRemaining d))"

lemma weight_update:
  "w < length ws \<Longrightarrow>
   sum_list (map worker_weight (ws[w := x])) + worker_weight (ws ! w) =
   sum_list (map worker_weight ws) + worker_weight x"
proof (induction ws arbitrary: w)
  case (Cons y ws)
  then show ?case by (cases w) auto
qed simp

lemma move_decreases:
  assumes "dl_step good d e" and "dl_feeder d"
  shows "dl_measure e < dl_measure d \<or> (\<exists>i. e = prefetch_handler i d) \<or> e = d\<lparr>dlCancelled := True\<rparr>"
  using assms
proof (induction rule: dl_step.induct)
  case (poll d)
  then show ?case by (auto simp: dl_measure_def feed_poll_def feeder_weight_def neq_Nil_conv split: list.splits)
next
  case (urgent d u w)
  then obtain r rs where "dlRemaining d = r # rs" by (cases "dlRemaining d") (auto simp: dl_feeder_def)
  with urgent weight_update [OF urgent.hyps(2), of "WGot u"] show ?case
    by (simp add: dl_measure_def feeder_weight_def worker_weight_def)
next
  case (offer d i "is" w)
  then show ?case using weight_update [OF offer.hyps(3), of "WGot i"]
    by (simp add: dl_measure_def feeder_weight_def worker_weight_def)
next
  case (break_feed d u)
  then obtain r rs where "dlRemaining d = r # rs" by (cases "dlRemaining d") (auto simp: dl_feeder_def)
  with break_feed show ?case by (auto simp: dl_measure_def feeder_weight_def)
next
  case (look w d i)
  then show ?case using weight_update [OF look.hyps(1), of WIdle] weight_update [OF look.hyps(1), of "WTry i 0"]
    by (auto simp: dl_measure_def worker_look_def worker_weight_def)
next
  case (give_up d w i k)
  then show ?case using weight_update [OF give_up.hyps(2), of WGone]
    by (auto simp: dl_measure_def worker_weight_def)
next
  case (fetched w d i k bs f)
  then show ?case using weight_update [OF fetched.hyps(1), of "WSaved i"]
    by (auto simp: dl_measure_def worker_saved_def worker_weight_def)
next
  case (counted w d i)
  then show ?case using weight_update [OF counted.hyps(1), of WIdle]
    by (auto simp: dl_measure_def worker_counted_def worker_weight_def)
next
  case (failed w d i k)
  then show ?case
    using weight_update [OF failed.hyps(1), of WGone] weight_update [OF failed.hyps(1), of "WTry i (Suc k)"]
    by (auto simp: dl_measure_def worker_failed_def worker_weight_def max_attempts_def)
next
  case (leave d w)
  then show ?case using weight_update [OF leave.hyps(2), of WGone]
    by (auto simp: dl_measure_def worker_weight_def)
qed auto

text \<open>Until all have left, someone can make a move that brings the bound down.\<close>

lemma move_or_try:
  assumes fd: "dl_feeder d" and workers: "dlRemaining d \<noteq> [] \<Longrightarrow> dlWorkers d \<noteq> []" and no: "\<not> dl_joined d"
  shows "(\<exists>w i k. w < length (dlWorkers d) \<and> dlWorkers d ! w = WTry i k) \<or>
    (\<exists>e. dl_step good d e \<and> dl_measure e < dl_measure d \<and> dlCancelled e = dlCancelled d)"
proof -
  have changed: ?thesis
    if "dl_step good d e" "dlWorkers e \<noteq> dlWorkers d \<or> dlFeeder e \<noteq> dlFeeder d" "dlCancelled e = dlCancelled d" for e
  proof -
    have "\<not> (\<exists>i. e = prefetch_handler i d)" "e \<noteq> d\<lparr>dlCancelled := True\<rparr>"
      using that(2) by (auto simp: prefetch_handler_def)
    then have "dl_measure e < dl_measure d" using move_decreases [OF that(1) fd] by blast
    with that show ?thesis by blast
  qed
  show ?thesis
  proof (cases "\<exists>w < length (dlWorkers d). dlWorkers d ! w \<noteq> WIdle \<and> dlWorkers d ! w \<noteq> WGone")
    case True
    then obtain w where w: "w < length (dlWorkers d)" "dlWorkers d ! w \<noteq> WIdle" "dlWorkers d ! w \<noteq> WGone" by blast
    have upd: "(dlWorkers d)[w := x] \<noteq> dlWorkers d" if "x \<noteq> dlWorkers d ! w" for x
      using w(1) that by (metis nth_list_update_eq)
    show ?thesis
    proof (cases "dlWorkers d ! w")
      case (WGot i)
      show ?thesis using changed [OF dl_step.look [OF w(1) WGot]] upd WGot by (auto simp: worker_look_def)
    next
      case (WSaved i)
      show ?thesis using changed [OF dl_step.counted [OF w(1) WSaved]] upd WSaved by (auto simp: worker_counted_def)
    qed (use w in auto)
  next
    case False
    then have quiet: "x = WIdle \<or> x = WGone" if "x \<in> set (dlWorkers d)" for x
      using that by (metis in_set_conv_nth)
    show ?thesis
    proof (cases "dlFeeder d = Poll")
      case True
      have "dlFeeder (feed_poll d) \<noteq> Poll" "dlCancelled (feed_poll d) = dlCancelled d"
        by (simp_all add: feed_poll_def split: list.splits)
      then show ?thesis using changed [OF dl_step.poll [OF True]] True by simp
    next
      case np: False
      show ?thesis
      proof (cases "WIdle \<in> set (dlWorkers d)")
        case True
        then obtain w where w: "w < length (dlWorkers d)" "dlWorkers d ! w = WIdle" by (metis in_set_conv_nth)
        have upd: "(dlWorkers d)[w := x] \<noteq> dlWorkers d" if "x \<noteq> WIdle" for x
          using w that by (metis nth_list_update_eq)
        show ?thesis
        proof (cases "dlFeeder d")
          case (Urgent u)
          show ?thesis using changed [OF dl_step.urgent [OF Urgent w]] upd by simp
        next
          case Offer
          then obtain r rs where "dlRemaining d = r # rs" using fd by (cases "dlRemaining d") (auto simp: dl_feeder_def)
          then show ?thesis using changed [OF dl_step.offer [OF Offer _ w]] upd by simp
        next
          case Closed
          show ?thesis using changed [OF dl_step.leave [OF Closed w]] upd by simp
        qed (use np in simp)
      next
        case False
        then have gone: "\<forall>x \<in> set (dlWorkers d). x = WGone" using quiet by metis
        with no have open_: "dlFeeder d \<noteq> Closed" by (simp add: dl_joined_def)
        then have "dlRemaining d \<noteq> []" using np fd by (simp add: dl_feeder_def)
        then have "WGone \<in> set (dlWorkers d)" using workers gone by (cases "dlWorkers d") auto
        then have "dlCancelled d" using fd open_ by (auto simp: dl_feeder_def)
        moreover obtain u where "dlFeeder d = Offer \<or> dlFeeder d = Urgent u" using np open_ by (cases "dlFeeder d") auto
        ultimately show ?thesis using changed [OF dl_step.break_feed] open_ by simp
      qed
    qed
  qed
qed

lemma some_move:
  assumes fd: "dl_feeder d" and workers: "dlRemaining d \<noteq> [] \<longrightarrow> dlWorkers d \<noteq> []" and no: "\<not> dl_joined d"
  shows "\<exists>e. dl_step good d e \<and> dl_measure e < dl_measure d"
proof -
  consider w i k where "w < length (dlWorkers d)" "dlWorkers d ! w = WTry i k"
    | e where "dl_step good d e" "dl_measure e < dl_measure d"
    using move_or_try [OF fd _ no, of good] workers by blast
  then show ?thesis
  proof cases
    case (1 w i k)
    have "dlWorkers (worker_failed w i k d) ! w \<noteq> dlWorkers d ! w" using 1 by (simp add: worker_failed_def)
    then have "worker_failed w i k d \<noteq> prefetch_handler j d" "worker_failed w i k d \<noteq> d\<lparr>dlCancelled := True\<rparr>" for j
      by (auto simp: prefetch_handler_def)
    with move_decreases [OF dl_step.failed [OF 1] fd] dl_step.failed [OF 1] show ?thesis by blast
  qed blast
qed

lemma workers_remain: "dl_range count d \<Longrightarrow> dlRemaining d \<noteq> [] \<Longrightarrow> dlWorkers d \<noteq> []"
proof -
  assume "dl_range count d" "dlRemaining d \<noteq> []"
  then have "0 < count" "length (dlWorkers d) = worker_count count" by (cases "dlRemaining d", auto simp: dl_range_def)
  then show ?thesis by (auto simp: worker_count_def)
qed

text \<open>C29: a download always ends. Every move of a worker or of the feeder brings a bound down that
  prefetch orders and cancellation leave as it is, and until every worker has left and the feeder is
  closed some such move is possible: nobody waits for ever.\<close>

theorem download_ends:
  assumes "reachable (dl_init f0 count) (dl_step good) d"
  shows "(dl_joined d \<or> (\<exists>e. dl_step good d e \<and> dl_measure e < dl_measure d)) \<and>
    (\<forall>e. dl_step good d e \<longrightarrow> dl_measure e < dl_measure d \<or>
       ((\<exists>i. e = prefetch_handler i d) \<or> e = d\<lparr>dlCancelled := True\<rparr>) \<and> dl_measure e = dl_measure d)"
proof -
  have inv: "dl_inv good f0 count d" using assms by (rule dl.reach_inv)
  then have fd: "dl_feeder d" and r: "dl_range count d" by (simp_all add: dl_inv_def)
  have "dlWorkers d \<noteq> []" if "dlRemaining d \<noteq> []" using workers_remain [OF r that] .
  then have "dl_joined d \<or> (\<exists>e. dl_step good d e \<and> dl_measure e < dl_measure d)"
    using some_move [OF fd, of good] by (cases "dl_joined d") simp_all
  moreover have same: "dl_measure (prefetch_handler i d) = dl_measure d"
    "dl_measure (d\<lparr>dlCancelled := True\<rparr>) = dl_measure d" for i
    by (simp_all add: dl_measure_def prefetch_handler_def)
  moreover have "dl_measure e < dl_measure d \<or>
      ((\<exists>i. e = prefetch_handler i d) \<or> e = d\<lparr>dlCancelled := True\<rparr>) \<and> dl_measure e = dl_measure d"
    if "dl_step good d e" for e
    using move_decreases [OF that fd]
  proof (elim disjE exE)
    fix i assume "e = prefetch_handler i d"
    then show ?thesis by (intro disjI2 conjI disjI1 exI [of _ i]) (simp only: same)+
  next
    assume "e = d\<lparr>dlCancelled := True\<rparr>"
    then show ?thesis by (intro disjI2 conjI) (simp only: same simp_thms)+
  qed simp
  ultimately show ?thesis by blast
qed

theorem download_ends_witness: "\<exists>e. dl_step sample_good sample_dl e \<and> dl_measure e < dl_measure sample_dl"
proof -
  have "\<not> dl_joined sample_dl" by (simp add: dl_joined_def sample_dl_def dl_start_def)
  then show ?thesis using download_ends [OF sample_dl_reachable] by simp
qed

end
