(* ===== verification/SafePath.thy ===== *)
theory SafePath
  imports GoPrelude "HOL-Library.Sublist"
begin

text \<open>
  Paths as the program handles them (\<^verbatim>\<open>internal/transfer/files.go\<close>): \<^verbatim>\<open>path.Clean\<close>, \<^verbatim>\<open>Dir\<close>, \<^verbatim>\<open>Join\<close> and
  \<^verbatim>\<open>Rel\<close> of the Go library over slash-separated paths (on Unix \<^verbatim>\<open>filepath\<close> is the same), the names
  \<open>SafeName\<close> allows, the manifest check and \<open>Resolve\<close>, which keeps a destination inside a root. Go
  strings are byte strings. What the operating system answers is a record of functions.
\<close>

section \<open>Clean, Dir, Join and Rel\<close>

abbreviation slash :: char where
  "slash \<equiv> CHR ''/''"

definition IsAbs :: "string \<Rightarrow> bool" where
  "IsAbs s \<longleftrightarrow> s \<noteq> [] \<and> hd s = slash"

text \<open>Clean keeps the components so far on a stack.\<close>

definition clean_step :: "bool \<Rightarrow> string list \<Rightarrow> string \<Rightarrow> string list" where
  "clean_step rooted st c =
     (if c = [] \<or> c = ''.'' then st
      else if c = ''..'' then
        (if st \<noteq> [] \<and> hd st \<noteq> ''..'' then tl st else if rooted then st else c # st)
      else c # st)"

definition clean_comps :: "string \<Rightarrow> string list" where
  "clean_comps s = rev (foldl (clean_step (IsAbs s)) [] (split_at slash s))"

definition path_Clean :: "string \<Rightarrow> string" where
  "path_Clean s =
     (if IsAbs s then slash # join_with slash (clean_comps s)
      else if clean_comps s = [] then ''.'' else join_with slash (clean_comps s))"

definition path_Dir :: "string \<Rightarrow> string" where
  "path_Dir s = path_Clean (rev (dropWhile (\<lambda>c. c \<noteq> slash) (rev s)))"

definition path_Join :: "string \<Rightarrow> string \<Rightarrow> string" where
  "path_Join a b =
     (if a = [] then (if b = [] then [] else path_Clean b)
      else if b = [] then path_Clean a else path_Clean (a @ slash # b))"

fun strip_common :: "string list \<Rightarrow> string list \<Rightarrow> string list \<times> string list" where
  "strip_common (b # bs) (t # ts) = (if b = t then strip_common bs ts else (b # bs, t # ts))"
| "strip_common bs ts = (bs, ts)"

definition path_Rel :: "string \<Rightarrow> string \<Rightarrow> string option" where
  "path_Rel base targ =
     (if IsAbs base \<noteq> IsAbs targ then None
      else
        (case strip_common (clean_comps base) (clean_comps targ) of (b, t) \<Rightarrow>
           if b = [] \<and> t = [] then Some ''.''
           else if b \<noteq> [] \<and> hd b = ''..'' then None
           else Some (join_with slash (replicate (length b) ''..'' @ t))))"

section \<open>Components\<close>

text \<open>A component that names something, and a path written with such components.\<close>

definition plain :: "string \<Rightarrow> bool" where
  "plain p \<longleftrightarrow> p \<noteq> [] \<and> p \<noteq> ''.'' \<and> p \<noteq> ''..''"

definition proper :: "string list \<Rightarrow> bool" where
  "proper ps \<longleftrightarrow> (\<forall>p \<in> set ps. plain p \<and> slash \<notin> set p)"

definition abs_path :: "string list \<Rightarrow> string" where
  "abs_path ps = slash # join_with slash ps"

lemma split_at_append: "split_at c (a @ c # b) = split_at c a @ split_at c b"
proof (induction a)
  case (Cons x a)
  then show ?case
    by (cases "split_at c a") auto
qed simp

lemma clean_step_plain: "plain p \<Longrightarrow> clean_step r st p = p # st"
  by (simp add: clean_step_def plain_def)

lemma foldl_plain: "list_all plain ps \<Longrightarrow> foldl (clean_step r) st ps = rev ps @ st"
  by (induction ps arbitrary: st) (simp_all add: clean_step_plain)

text \<open>The stack: nothing empty, and the parents that could not be taken back are at the bottom.\<close>

fun dots_below :: "string list \<Rightarrow> bool" where
  "dots_below [] = True"
| "dots_below (c # st) = (if c = ''..'' then set st \<subseteq> {''..''} else dots_below st)"

lemma dots_below_tl: "dots_below st \<Longrightarrow> dots_below (tl st)"
proof (cases st)
  case (Cons c st')
  have "dots_below xs" if "set xs \<subseteq> {''..''}" for xs using that by (induction xs) auto
  then show "dots_below st \<Longrightarrow> ?thesis" by (auto simp: Cons split: if_splits)
qed simp

lemma dots_below_last: "dots_below st \<Longrightarrow> st \<noteq> [] \<Longrightarrow> last st \<noteq> ''..'' \<Longrightarrow> ''..'' \<notin> set st"
proof (induction st)
  case (Cons c st)
  then show ?case by (cases "st = []") (auto split: if_splits dest: subsetD [OF _ last_in_set])
qed simp

definition stack_ok :: "bool \<Rightarrow> string list \<Rightarrow> bool" where
  "stack_ok rooted st \<longleftrightarrow>
     (\<forall>p \<in> set st. p \<noteq> [] \<and> p \<noteq> ''.'' \<and> slash \<notin> set p) \<and> dots_below st \<and> (rooted \<longrightarrow> ''..'' \<notin> set st)"

lemma clean_step_ok: "stack_ok r st \<Longrightarrow> slash \<notin> set p \<Longrightarrow> stack_ok r (clean_step r st p)"
proof (cases "p = ''..''")
  case True
  assume st: "stack_ok r st"
  have "set st \<subseteq> {''..''}" if "st = [] \<or> hd st = ''..''"
    using st that by (cases st) (auto simp: stack_ok_def)
  with True st show ?thesis
    by (auto simp: stack_ok_def clean_step_def dots_below_tl dest: list.set_sel(2))
qed (auto simp: stack_ok_def clean_step_def)

lemma foldl_ok: "stack_ok r st \<Longrightarrow> (\<And>p. p \<in> set ps \<Longrightarrow> slash \<notin> set p) \<Longrightarrow> stack_ok r (foldl (clean_step r) st ps)"
  by (induction ps arbitrary: st) (simp_all add: clean_step_ok)

lemma clean_comps_ok: "stack_ok (IsAbs s) (rev (clean_comps s))"
  unfolding clean_comps_def rev_rev_ident
  by (rule foldl_ok) (simp_all add: stack_ok_def split_at_no_sep)

lemma clean_comps_no_slash: "p \<in> set (clean_comps s) \<Longrightarrow> slash \<notin> set p \<and> p \<noteq> [] \<and> p \<noteq> ''.''"
  using clean_comps_ok [of s] by (simp add: stack_ok_def)

lemma clean_comps_abs: "IsAbs s \<Longrightarrow> proper (clean_comps s)"
  using clean_comps_ok [of s] by (auto simp: stack_ok_def proper_def plain_def)

lemma clean_comps_rel:
  assumes "clean_comps s \<noteq> []" and "hd (clean_comps s) \<noteq> ''..''"
  shows "proper (clean_comps s)"
proof -
  have st: "stack_ok (IsAbs s) (rev (clean_comps s))" by (rule clean_comps_ok)
  then have "''..'' \<notin> set (clean_comps s)"
    using dots_below_last [of "rev (clean_comps s)"] assms by (simp add: stack_ok_def last_rev)
  with st show ?thesis by (auto simp: stack_ok_def proper_def plain_def)
qed

lemma IsAbs_simps [simp]: "IsAbs (x # s) \<longleftrightarrow> x = slash" "\<not> IsAbs []"
  by (simp_all add: IsAbs_def)

lemma proper_Cons [simp]: "proper (p # ps) \<longleftrightarrow> plain p \<and> slash \<notin> set p \<and> proper ps"
  by (auto simp: proper_def)

lemma proper_Nil [simp]: "proper []"
  by (simp add: proper_def)

lemma proper_append [simp]: "proper (ps @ qs) \<longleftrightarrow> proper ps \<and> proper qs"
  by (auto simp: proper_def)

lemma proper_subset: "proper ps \<Longrightarrow> set qs \<subseteq> set ps \<Longrightarrow> proper qs"
  by (auto simp: proper_def)

lemma proper_split: "proper ps \<Longrightarrow> ps \<noteq> [] \<Longrightarrow> split_at slash (join_with slash ps) = ps"
  by (rule split_join) (auto simp: proper_def)

lemma proper_butlast: "proper ps \<Longrightarrow> proper (butlast ps)"
  by (rule proper_subset) (auto dest: in_set_butlastD)

lemma proper_list_all: "proper ps \<Longrightarrow> list_all plain ps"
  by (simp add: proper_def list_all_iff)

lemma proper_relative: "proper ps \<Longrightarrow> \<not> IsAbs (join_with slash ps)"
proof (induction slash ps rule: join_with.induct)
  case (2 p)
  then show ?case by (cases p) (auto simp: plain_def)
next
  case (3 p q ps)
  then show ?case by (cases p) (auto simp: plain_def)
qed simp

lemma comps_proper:
  assumes "proper ps"
  shows "clean_comps (join_with slash ps) = ps"
proof (cases "ps = []")
  case False
  with assms show ?thesis
    by (simp add: clean_comps_def proper_split foldl_plain proper_list_all)
qed (simp add: clean_comps_def clean_step_def)

lemma split_abs: "split_at slash (slash # s) = [] # split_at slash s"
  by simp

lemma clean_step_empty [simp]: "clean_step r st [] = st"
  by (simp add: clean_step_def)

lemma comps_abs_path:
  assumes "proper ps"
  shows "clean_comps (abs_path ps) = ps"
proof (cases "ps = []")
  case False
  with assms show ?thesis
    by (simp add: clean_comps_def abs_path_def proper_split foldl_plain proper_list_all)
qed (simp add: clean_comps_def abs_path_def)

lemma clean_abs_path: "proper ps \<Longrightarrow> path_Clean (abs_path ps) = abs_path ps"
  by (simp add: path_Clean_def comps_abs_path abs_path_def) (simp add: comps_abs_path [unfolded abs_path_def])

lemma IsAbs_abs_path [simp]: "IsAbs (abs_path ps)"
  by (simp add: abs_path_def)

lemma clean_abs_eq: "IsAbs s \<Longrightarrow> path_Clean s = abs_path (clean_comps s)"
  by (simp add: path_Clean_def abs_path_def)

text \<open>A clean absolute path is its components.\<close>

lemma clean_abs_cases:
  assumes "IsAbs s" and "path_Clean s = s"
  obtains ps where "proper ps" and "s = abs_path ps"
  using that clean_comps_abs [OF assms(1)] clean_abs_eq [OF assms(1)] assms(2) by metis

lemma abs_path_inj: "proper ps \<Longrightarrow> proper qs \<Longrightarrow> abs_path ps = abs_path qs \<Longrightarrow> ps = qs"
  by (metis comps_abs_path)

text \<open>Joining an absolute path and a relative one adds the components.\<close>

lemma join_abs:
  assumes "proper ps" and "proper qs"
  shows "path_Join (abs_path ps) (join_with slash qs) = abs_path (ps @ qs)"
proof (cases "qs = []")
  case True
  then show ?thesis using assms(1) by (simp add: path_Join_def clean_abs_path)
next
  case False
  have ne: "join_with slash qs \<noteq> []"
    using proper_split [OF assms(2) False] assms(2) False by (cases qs) (auto simp: plain_def)
  have "clean_comps (abs_path ps @ slash # join_with slash qs) = ps @ qs"
  proof -
    have "split_at slash (abs_path ps @ slash # join_with slash qs) = split_at slash (abs_path ps) @ qs"
      by (simp add: split_at_append proper_split [OF assms(2) False])
    moreover have "foldl (clean_step True) [] (split_at slash (abs_path ps)) = rev ps"
      using comps_abs_path [OF assms(1)] unfolding clean_comps_def by (simp add: rev_swap)
    moreover have "IsAbs (abs_path ps @ slash # join_with slash qs)" by (simp add: abs_path_def)
    ultimately show ?thesis by (simp add: clean_comps_def foldl_plain proper_list_all assms(2))
  qed
  then show ?thesis
    using ne by (simp add: path_Join_def clean_abs_eq abs_path_def)
qed

section \<open>SafeName\<close>

definition SafeName :: "string \<Rightarrow> bool" where
  "SafeName name \<longleftrightarrow>
     name \<noteq> [] \<and> name \<noteq> ''.'' \<and>
     \<not> list_ex (\<lambda>c. c = CHR 0x5C \<or> c = CHR '':'' \<or> c = CHR 0x00) name \<and>
     \<not> IsAbs name \<and> path_Clean name = name \<and> name \<noteq> ''..'' \<and> \<not> prefix ''../'' name"

lemma safe_proper:
  assumes "SafeName s"
  shows "proper (split_at slash s)" and "clean_comps s = split_at slash s"
proof -
  have clean: "path_Clean s = s" and "s \<noteq> ''.''" and dd: "s \<noteq> ''..''" "\<not> prefix ''../'' s" and rel: "\<not> IsAbs s"
    using assms by (simp_all add: SafeName_def)
  then have ne: "clean_comps s \<noteq> []" and s: "join_with slash (clean_comps s) = s"
    by (auto simp: path_Clean_def split: if_splits)
  have "hd (clean_comps s) \<noteq> ''..''"
  proof
    assume "hd (clean_comps s) = ''..''"
    then obtain rest where c: "clean_comps s = ''..'' # rest" using ne by (cases "clean_comps s") simp_all
    with s dd show False by (cases rest) auto
  qed
  with ne have p: "proper (clean_comps s)" by (rule clean_comps_rel)
  from proper_split [OF this ne] s show "clean_comps s = split_at slash s" by simp
  with p show "proper (split_at slash s)" by simp
qed

text \<open>The reference: every component names something, and no byte is special to some system.\<close>

definition safe_components :: "string \<Rightarrow> bool" where
  "safe_components s \<longleftrightarrow>
     list_all plain (split_at slash s) \<and>
     \<not> list_ex (\<lambda>c. c = CHR 0x5C \<or> c = CHR '':'' \<or> c = CHR 0x00) s"

lemma safe_name_spec: "SafeName s \<longleftrightarrow> safe_components s"
proof
  assume "SafeName s"
  then show "safe_components s"
    using safe_proper(1) [of s] by (simp add: safe_components_def SafeName_def proper_list_all)
next
  assume s: "safe_components s"
  then have p: "proper (split_at slash s)"
    by (auto simp: safe_components_def proper_def list_all_iff split_at_no_sep)
  have rel: "\<not> IsAbs s" using proper_relative [OF p] by (simp add: join_split)
  have "path_Clean s = s"
    using comps_proper [OF p] rel by (simp add: path_Clean_def join_split)
  moreover have "\<not> prefix ''../'' s"
  proof
    assume "prefix ''../'' s"
    then obtain t where "s = ''..'' @ slash # t" by (auto simp: prefix_def)
    with p show False by (simp add: plain_def)
  qed
  ultimately show "SafeName s"
    using s rel by (auto simp: SafeName_def safe_components_def plain_def)
qed

text \<open>A name is accepted exactly when each of its slash-separated components is neither empty nor
  \<^verbatim>\<open>.\<close> nor \<^verbatim>\<open>..\<close> and no byte is a backslash, a colon or NUL: the test through \<^verbatim>\<open>path.Clean\<close> and
  the prefix checks is the component-wise one.\<close>

theorem safe_name_iff: "SafeName s \<longleftrightarrow> safe_components s"
  by (rule safe_name_spec)

lemma safe_obtain:
  assumes "SafeName s"
  obtains ps where "ps \<noteq> []" and "proper ps" and "s = join_with slash ps" and "split_at slash s = ps"
  using that [of "split_at slash s"] safe_proper(1) [OF assms] by (simp add: join_split)

text \<open>The parent of a safe name drops its last component.\<close>

lemma dir_join:
  assumes "proper ps" and "ps \<noteq> []"
  shows "path_Dir (join_with slash ps) = (if length ps = 1 then ''.'' else join_with slash (butlast ps))"
proof -
  have last_part: "dropWhile (\<lambda>c. c \<noteq> slash) (rev (a @ p)) = dropWhile (\<lambda>c. c \<noteq> slash) (rev a)"
    if "slash \<notin> set p" for a p :: string
    using that by (induction p rule: rev_induct) (auto simp flip: append_assoc)
  obtain qs q where ps: "ps = qs @ [q]" using assms(2) by (cases ps rule: rev_cases) simp_all
  have q: "slash \<notin> set q" and qs: "proper qs" using assms(1) by (simp_all add: ps)
  show ?thesis
  proof (cases "qs = []")
    case True
    have "dropWhile (\<lambda>c. c \<noteq> slash) (rev q) = []" using q by auto
    then have "path_Dir q = path_Clean []" by (simp only: path_Dir_def rev.simps)
    with True show ?thesis by (simp add: ps path_Clean_def clean_comps_def)
  next
    case False
    have j: "join_with slash (qs @ [q]) = join_with slash qs @ slash # q"
      using False by (induction slash qs rule: join_with.induct) auto
    have "rev (dropWhile (\<lambda>c. c \<noteq> slash) (rev (join_with slash qs @ slash # q))) = join_with slash qs @ [slash]"
      using last_part [OF q, of "join_with slash qs @ [slash]"] by simp
    moreover have "path_Clean (join_with slash qs @ [slash]) = join_with slash qs"
    proof -
      have ne: "join_with slash qs \<noteq> []" using False qs by (cases qs; cases "hd qs") (auto simp: plain_def join_with_Cons_char)
      then have "\<not> IsAbs (join_with slash qs @ [slash])"
        using proper_relative [OF qs] by (cases "join_with slash qs") simp_all
      moreover have "clean_comps (join_with slash qs @ [slash]) = qs"
        using calculation split_at_append [of slash "join_with slash qs" "[]"] qs False
        by (simp add: clean_comps_def proper_split foldl_plain proper_list_all)
      ultimately show ?thesis using False by (simp add: path_Clean_def)
    qed
    ultimately show ?thesis using False by (simp add: ps j path_Dir_def)
  qed
qed

section \<open>ValidateEntries\<close>

record entry =
  enName :: string
  enSize :: int
  enDir :: bool
  enMode :: int

datatype manifest_error = BadCount | BadItem string | TooLarge | FileAsParent

definition MaxEntries :: nat where
  "MaxEntries = 10000"

definition max_bytes :: int where
  "max_bytes = 2 ^ 50"

text \<open>The first loop: every item on its own, against the names seen and the running total.\<close>

definition item_ok :: "entry \<Rightarrow> bool" where
  "item_ok e \<longleftrightarrow>
     SafeName (enName e) \<and> 0 \<le> enSize e \<and> enSize e \<le> max_bytes \<and> (enDir e \<longrightarrow> enSize e = 0)"

fun check_items :: "entry list \<Rightarrow> (string, entry) gomap \<Rightarrow> int \<Rightarrow> manifest_error + (string, entry) gomap" where
  "check_items [] seen tot = Inr seen"
| "check_items (e # es) seen tot =
     (if \<not> item_ok e \<or> mget seen (enName e) \<noteq> None then Inl (BadItem (enName e))
      else if max_bytes < wrap64 (tot + enSize e) then Inl TooLarge
      else check_items es (mput (enName e) e seen) (wrap64 (tot + enSize e)))"

text \<open>The second loop, for one item: its parents up to \<^verbatim>\<open>.\<close>.\<close>

partial_function (option) parent_conflict :: "(string, entry) gomap \<Rightarrow> string \<Rightarrow> bool option" where
  "parent_conflict seen parent =
     (if parent = ''.'' then Some False
      else
        (case mget seen parent of
           Some p \<Rightarrow> if \<not> enDir p then Some True else parent_conflict seen (path_Dir parent)
         | None \<Rightarrow> parent_conflict seen (path_Dir parent)))"

fun check_parents :: "(string, entry) gomap \<Rightarrow> entry list \<Rightarrow> bool option" where
  "check_parents seen [] = Some False"
| "check_parents seen (e # es) =
     (case parent_conflict seen (path_Dir (enName e)) of
        None \<Rightarrow> None
      | Some True \<Rightarrow> Some True
      | Some False \<Rightarrow> check_parents seen es)"

text \<open>The outer option: whether the check returns at all.\<close>

definition ValidateEntries :: "entry list \<Rightarrow> manifest_error option option" where
  "ValidateEntries es =
     (if es = [] \<or> MaxEntries < length es then Some (Some BadCount)
      else
        (case check_items es [] 0 of
           Inl e \<Rightarrow> Some (Some e)
         | Inr seen \<Rightarrow>
             (case check_parents seen es of
                None \<Rightarrow> None
              | Some True \<Rightarrow> Some (Some FileAsParent)
              | Some False \<Rightarrow> Some None)))"

text \<open>What a manifest has to be.\<close>

definition manifest_ok :: "entry list \<Rightarrow> bool" where
  "manifest_ok es \<longleftrightarrow>
     es \<noteq> [] \<and> length es \<le> MaxEntries \<and> list_all item_ok es \<and> distinct (map enName es) \<and>
     sum_list (map enSize es) \<le> max_bytes \<and>
     (\<forall>e \<in> set es. \<forall>p \<in> set es.
        strict_prefix (split_at slash (enName p)) (split_at slash (enName e)) \<longrightarrow> enDir p)"

lemma wrap64_small: "0 \<le> a \<Longrightarrow> a \<le> max_bytes \<Longrightarrow> 0 \<le> b \<Longrightarrow> b \<le> max_bytes \<Longrightarrow> wrap64 (a + b) = a + b"
  by (rule wrap64_id) (simp add: is_int64_def max_bytes_def max_int64_def)

lemma check_items_iff:
  assumes "0 \<le> t" and "t \<le> max_bytes"
  shows "check_items es seen t = Inr seen' \<longleftrightarrow>
    list_all item_ok es \<and> distinct (map enName es) \<and> set (map enName es) \<inter> fst ` set seen = {} \<and>
    t + sum_list (map enSize es) \<le> max_bytes \<and> seen' = seen @ map (\<lambda>e. (enName e, e)) es"
  using assms
proof (induction es arbitrary: seen t)
  case Nil
  then show ?case by auto
next
  case (Cons e es)
  show ?case
  proof (cases "item_ok e \<and> mget seen (enName e) = None")
    case False
    then show ?thesis using mget_None [of seen "enName e"] by auto
  next
    case True
    then have e: "0 \<le> enSize e" "enSize e \<le> max_bytes" "enName e \<notin> fst ` set seen"
      by (simp_all add: item_ok_def mget_None)
    have w: "wrap64 (t + enSize e) = t + enSize e"
      using Cons.prems e by (intro wrap64_small)
    show ?thesis
    proof (cases "t + enSize e \<le> max_bytes")
      case False
      have "0 \<le> sum_list (map enSize es)" if "list_all item_ok es"
        using that by (intro sum_list_nonneg) (auto simp: list_all_iff item_ok_def)
      with True False w show ?thesis by auto
    next
      case small: True
      then have "check_items (e # es) seen t = check_items es (seen @ [(enName e, e)]) (t + enSize e)"
        using True w mput_fresh [OF e(3), of e] by simp
      with Cons.IH [of "t + enSize e" "seen @ [(enName e, e)]"] small Cons.prems e True show ?thesis by auto
    qed
  qed
qed

text \<open>The parents of a safe name are the proper prefixes of its components.\<close>

lemma parents_of:
  assumes "proper ps" and "ps \<noteq> []"
  shows "parent_conflict seen (path_Dir (join_with slash ps)) =
    Some (\<exists>k p. 0 < k \<and> k < length ps \<and> mget seen (join_with slash (take k ps)) = Some p \<and> \<not> enDir p)"
  using assms
proof (induction ps rule: rev_induct)
  case (snoc q ps)
  show ?case
  proof (cases "ps = []")
    case True
    then show ?thesis using dir_join [OF snoc.prems] by (subst parent_conflict.simps) simp
  next
    case False
    have ps: "proper ps" using snoc.prems by simp
    have d: "path_Dir (join_with slash (ps @ [q])) = join_with slash ps"
      using dir_join [OF snoc.prems] False by simp
    have nd: "join_with slash ps \<noteq> ''.''"
      using comps_proper [OF ps] False by (auto simp: clean_comps_def clean_step_def)
    have k: "(\<exists>k p. 0 < k \<and> k < length (ps @ [q]) \<and> mget seen (join_with slash (take k (ps @ [q]))) = Some p \<and> \<not> enDir p) \<longleftrightarrow>
        (\<exists>p. mget seen (join_with slash ps) = Some p \<and> \<not> enDir p) \<or>
        (\<exists>k p. 0 < k \<and> k < length ps \<and> mget seen (join_with slash (take k ps)) = Some p \<and> \<not> enDir p)"
      (is "?l \<longleftrightarrow> ?r")
    proof
      assume ?l
      then obtain k p where kp: "0 < k" "k \<le> length ps" "mget seen (join_with slash (take k ps)) = Some p" "\<not> enDir p"
        by auto
      then show ?r by (cases "k = length ps") auto
    next
      assume ?r
      then show ?l
      proof
        assume "\<exists>p. mget seen (join_with slash ps) = Some p \<and> \<not> enDir p"
        then show ?l using False by (intro exI [of _ "length ps"]) auto
      qed fastforce
    qed
    show ?thesis
      unfolding k d using snoc.IH [OF ps False] nd
      by (subst parent_conflict.simps) (auto split: option.splits)
  qed
qed simp

lemma names_seen:
  assumes "distinct (map enName es)"
  shows "mget (map (\<lambda>e. (enName e, e)) es) n = Some p \<longleftrightarrow> p \<in> set es \<and> enName p = n"
proof -
  have "distinct (map fst (map (\<lambda>e. (enName e, e)) es))" using assms by (simp add: comp_def)
  then show ?thesis by (auto simp: map_of_eq_Some_iff)
qed

lemma strict_prefix_take: "strict_prefix xs ys \<longleftrightarrow> (\<exists>k < length ys. xs = take k ys)"
proof
  assume "strict_prefix xs ys"
  then show "\<exists>k < length ys. xs = take k ys"
    by (intro exI [of _ "length xs"]) (auto simp: strict_prefix_def prefix_def)
qed (auto simp: strict_prefix_def take_is_prefix dest: arg_cong [where f = length])

lemma conflict_iff:
  assumes safe: "\<And>e. e \<in> set es \<Longrightarrow> SafeName (enName e)" and "distinct (map enName es)" and "SafeName s"
  shows "parent_conflict (map (\<lambda>e. (enName e, e)) es) (path_Dir s) =
    Some (\<exists>p \<in> set es. strict_prefix (split_at slash (enName p)) (split_at slash s) \<and> \<not> enDir p)"
proof -
  obtain ps where ps: "ps \<noteq> []" "proper ps" "s = join_with slash ps" "split_at slash s = ps"
    using safe_obtain [OF assms(3)] .
  have "(\<exists>k p. 0 < k \<and> k < length ps \<and> mget (map (\<lambda>e. (enName e, e)) es) (join_with slash (take k ps)) = Some p \<and> \<not> enDir p) \<longleftrightarrow>
      (\<exists>p \<in> set es. strict_prefix (split_at slash (enName p)) ps \<and> \<not> enDir p)" (is "?l \<longleftrightarrow> ?r")
  proof
    assume ?l
    then obtain k p where k: "0 < k" "k < length ps" and p: "p \<in> set es" "enName p = join_with slash (take k ps)" "\<not> enDir p"
      by (auto simp: names_seen [OF assms(2)])
    have "split_at slash (enName p) = take k ps"
      unfolding p(2) using k ps(2) by (intro proper_split) (auto simp: proper_def dest: in_set_takeD)
    with k(2) have "strict_prefix (split_at slash (enName p)) ps" by (auto simp: strict_prefix_take)
    with p show ?r by blast
  next
    assume ?r
    then obtain p k where p: "p \<in> set es" "\<not> enDir p" and k: "k < length ps" "split_at slash (enName p) = take k ps"
      by (auto simp: strict_prefix_take)
    have "enName p = join_with slash (take k ps)" using join_split [of slash "enName p"] k(2) by simp
    moreover have "0 < k" using k(2) split_at_nonempty [of slash "enName p"] by (cases k) auto
    ultimately show ?l using p k by (auto simp: names_seen [OF assms(2)])
  qed
  then show ?thesis using parents_of [OF ps(2,1)] ps(3,4) by simp
qed

lemma check_parents_ex:
  "(\<And>e. e \<in> set fs \<Longrightarrow> parent_conflict seen (path_Dir (enName e)) = Some (P e)) \<Longrightarrow>
   check_parents seen fs = Some (\<exists>e \<in> set fs. P e)"
  by (induction fs) (auto split: bool.splits)

lemma validate_spec: "ValidateEntries es \<noteq> None \<and> (ValidateEntries es = Some None \<longleftrightarrow> manifest_ok es)"
proof (cases "es = [] \<or> MaxEntries < length es")
  case True
  then show ?thesis by (auto simp: ValidateEntries_def manifest_ok_def)
next
  case False
  let ?seen = "map (\<lambda>e. (enName e, e)) es"
  have ci: "check_items es [] 0 = Inr seen \<longleftrightarrow>
      list_all item_ok es \<and> distinct (map enName es) \<and> sum_list (map enSize es) \<le> max_bytes \<and> seen = ?seen" for seen
    using check_items_iff [of 0 es "[]" seen] by (simp add: max_bytes_def)
  show ?thesis
  proof (cases "check_items es [] 0")
    case (Inl e)
    with ci [of ?seen] False show ?thesis by (auto simp: ValidateEntries_def manifest_ok_def)
  next
    case (Inr seen)
    with ci have ok: "list_all item_ok es" "distinct (map enName es)" "sum_list (map enSize es) \<le> max_bytes" "seen = ?seen"
      by auto
    have "SafeName (enName e)" if "e \<in> set es" for e using ok(1) that by (auto simp: list_all_iff item_ok_def)
    then have "check_parents ?seen es =
        Some (\<exists>e \<in> set es. \<exists>p \<in> set es. strict_prefix (split_at slash (enName p)) (split_at slash (enName e)) \<and> \<not> enDir p)"
      by (intro check_parents_ex conflict_iff [OF _ ok(2)])
    with False ok Inr show ?thesis
      by (auto simp: ValidateEntries_def manifest_ok_def split: bool.splits)
  qed
qed

text \<open>C26: the check of a manifest always ends, for every list of entries, and it accepts exactly the
  manifests it should: one to 10000 entries with safe, distinct names and sizes in range whose sum
  does not pass 1 PiB, in which no file is the parent of another entry.\<close>

theorem validate_iff: "ValidateEntries es \<noteq> None \<and> (ValidateEntries es = Some None \<longleftrightarrow> manifest_ok es)"
  by (rule validate_spec)

section \<open>Resolve\<close>

datatype file_kind = RegularFile | Directory | SymLink | OtherFile

datatype stat_result = NotExist | StatRefused | Found file_kind

text \<open>What the operating system answers: \<^verbatim>\<open>filepath.Abs\<close>, \<^verbatim>\<open>filepath.EvalSymlinks\<close> and \<^verbatim>\<open>os.Lstat\<close>.\<close>

record os_paths =
  osAbs :: "string \<Rightarrow> string option"
  osEval :: "string \<Rightarrow> string option"
  osLstat :: "string \<Rightarrow> stat_result"

datatype resolve_error = AbsFailed | EvalFailed | OutsideRoot | LstatError | LinkInPath

text \<open>The walk down from the root looks at every component that exists.\<close>

fun walk_down :: "(string \<Rightarrow> stat_result) \<Rightarrow> string \<Rightarrow> string list \<Rightarrow> resolve_error option" where
  "walk_down lstat walk [] = None"
| "walk_down lstat walk (part # parts) =
     (case lstat (path_Join walk part) of
        NotExist \<Rightarrow> walk_down lstat (path_Join walk part) parts
      | StatRefused \<Rightarrow> Some LstatError
      | Found k \<Rightarrow> if k = SymLink then Some LinkInPath else walk_down lstat (path_Join walk part) parts)"

text \<open>On Unix the volume name is empty, so an empty root stands for the whole file system.\<close>

definition resolve_root :: "os_paths \<Rightarrow> string \<Rightarrow> string \<Rightarrow> (string \<times> string) option" where
  "resolve_root w root dir =
     (if root = [] then (case osAbs w dir of None \<Rightarrow> None | Some a \<Rightarrow> Some (''/'', a)) else Some (root, dir))"

definition resolve_target :: "string \<Rightarrow> string \<Rightarrow> string" where
  "resolve_target root dir =
     (let dir1 = if dir = [] then root else dir
      in path_Clean (if IsAbs dir1 then dir1 else path_Join root dir1))"

definition resolve_walk :: "(string \<Rightarrow> stat_result) \<Rightarrow> string \<Rightarrow> string \<Rightarrow> resolve_error + string" where
  "resolve_walk lstat root dir =
     (case path_Rel root dir of
        None \<Rightarrow> Inl OutsideRoot
      | Some rel \<Rightarrow>
          if rel = ''..'' \<or> prefix ''../'' rel then Inl OutsideRoot
          else
            (case if rel = ''.'' then None else walk_down lstat root (split_at slash rel) of
               Some e \<Rightarrow> Inl e
             | None \<Rightarrow> Inr dir))"

definition Resolve :: "os_paths \<Rightarrow> string \<Rightarrow> string \<Rightarrow> resolve_error + string" where
  "Resolve w root dir =
     (case resolve_root w root dir of
        None \<Rightarrow> Inl AbsFailed
      | Some (root1, dir1) \<Rightarrow>
          (case osAbs w root1 of
             None \<Rightarrow> Inl AbsFailed
           | Some root2 \<Rightarrow>
               (case osEval w root2 of
                  None \<Rightarrow> Inl EvalFailed
                | Some root3 \<Rightarrow> resolve_walk (osLstat w) root3 (resolve_target root3 dir1))))"

text \<open>What the Go library promises of \<^verbatim>\<open>Abs\<close> and \<^verbatim>\<open>EvalSymlinks\<close>: clean absolute paths.\<close>

definition clean_answers :: "os_paths \<Rightarrow> bool" where
  "clean_answers w \<longleftrightarrow>
     (\<forall>s r. osAbs w s = Some r \<or> osEval w s = Some r \<longrightarrow> IsAbs r \<and> path_Clean r = r)"

lemma strip_common_prefix: "strip_common ps (ps @ qs) = ([], qs)"
proof (induction ps)
  case Nil
  then show ?case by (cases qs) simp_all
qed simp

lemma strip_common_split: "strip_common bs ts = (b, t) \<Longrightarrow> \<exists>c. bs = c @ b \<and> ts = c @ t"
proof (induction bs ts rule: strip_common.induct)
  case (1 b' bs t' ts)
  show ?case
  proof (cases "b' = t'")
    case True
    with 1 obtain c where "bs = c @ b \<and> ts = c @ t" by auto
    with True show ?thesis by (intro exI [of _ "b' # c"]) simp
  qed (use 1 in auto)
qed auto

lemma proper_rel:
  assumes "proper ps" and "ps \<noteq> []"
  shows "join_with slash ps \<noteq> ''..''" and "\<not> prefix ''../'' (join_with slash ps)" and "join_with slash ps \<noteq> ''.''"
proof -
  have s: "split_at slash (join_with slash ps) = ps" using assms by (rule proper_split)
  have pl: "list_all plain ps" using assms(1) by (rule proper_list_all)
  show "join_with slash ps \<noteq> ''..''" "join_with slash ps \<noteq> ''.''" using s pl by (auto simp: plain_def)
  show "\<not> prefix ''../'' (join_with slash ps)"
  proof
    assume "prefix ''../'' (join_with slash ps)"
    then obtain t where "join_with slash ps = ''..'' @ slash # t" by (auto simp: prefix_def)
    with s pl show False by (auto simp: plain_def)
  qed
qed

text \<open>The relative path between clean absolute paths climbs exactly when the target is not below.\<close>

lemma rel_below:
  assumes "proper ps" and "proper qs"
  shows "path_Rel (abs_path ps) (abs_path (ps @ qs)) = Some (if qs = [] then ''.'' else join_with slash qs)"
  using assms by (simp add: path_Rel_def comps_abs_path strip_common_prefix)

lemma rel_climbs:
  assumes "proper ps" and "proper ts" and "\<not> prefix ps ts"
  obtains s where "path_Rel (abs_path ps) (abs_path ts) = Some s" and "s = ''..'' \<or> prefix ''../'' s"
proof -
  obtain b t where bt: "strip_common ps ts = (b, t)" by fastforce
  then obtain c where c: "ps = c @ b" "ts = c @ t" using strip_common_split by blast
  then obtain b0 bs where b: "b = b0 # bs" using assms(3) by (cases b) auto
  have "b0 \<noteq> ''..''" using assms(1) by (simp add: c b plain_def)
  then have "path_Rel (abs_path ps) (abs_path ts) = Some (join_with slash (''..'' # replicate (length bs) ''..'' @ t))"
    using bt assms(1,2) by (simp add: path_Rel_def comps_abs_path b)
  then show ?thesis
    by (rule that) (cases "replicate (length bs) ''..'' @ t"; simp)
qed

lemma walk_down_iff:
  assumes "proper ps" and "proper qs"
  shows "walk_down lstat (abs_path ps) qs = None \<longleftrightarrow>
    (\<forall>k. 0 < k \<longrightarrow> k \<le> length qs \<longrightarrow> lstat (abs_path (ps @ take k qs)) \<notin> {StatRefused, Found SymLink})"
  using assms
proof (induction qs arbitrary: ps)
  case (Cons q qs)
  have j: "path_Join (abs_path ps) q = abs_path (ps @ [q])"
    using join_abs [of ps "[q]"] Cons.prems by simp
  have "(\<forall>k. 0 < k \<longrightarrow> k \<le> length (q # qs) \<longrightarrow> lstat (abs_path (ps @ take k (q # qs))) \<notin> {StatRefused, Found SymLink}) \<longleftrightarrow>
      lstat (abs_path (ps @ [q])) \<notin> {StatRefused, Found SymLink} \<and>
      (\<forall>k. 0 < k \<longrightarrow> k \<le> length qs \<longrightarrow> lstat (abs_path ((ps @ [q]) @ take k qs)) \<notin> {StatRefused, Found SymLink})"
    (is "?l \<longleftrightarrow> ?r")
  proof
    assume l: ?l
    have "lstat (abs_path (ps @ [q])) \<notin> {StatRefused, Found SymLink}" using l [rule_format, of 1] by simp
    moreover have "lstat (abs_path ((ps @ [q]) @ take k qs)) \<notin> {StatRefused, Found SymLink}" if "k \<le> length qs" for k
      using l [rule_format, of "Suc k"] that by simp
    ultimately show ?r by blast
  next
    assume r: ?r
    show ?l
    proof (intro allI impI)
      fix k :: nat assume k: "0 < k" "k \<le> length (q # qs)"
      then obtain m where "k = Suc m" by (cases k) simp_all
      with k r show "lstat (abs_path (ps @ take k (q # qs))) \<notin> {StatRefused, Found SymLink}" by (cases "m = 0") auto
    qed
  qed
  then show ?case
    using Cons.IH [of "ps @ [q]"] Cons.prems by (simp add: j split: stat_result.splits)
qed simp

lemma clean_is_abs: "IsAbs s \<Longrightarrow> \<exists>ts. proper ts \<and> path_Clean s = abs_path ts"
  using clean_abs_eq clean_comps_abs by blast

lemma join_is_abs:
  assumes "IsAbs a"
  shows "\<exists>ts. proper ts \<and> path_Join a b = abs_path ts"
proof -
  have "IsAbs (a @ slash # b)" "a \<noteq> []" using assms by (auto simp: IsAbs_def)
  then show ?thesis using clean_is_abs assms by (simp add: path_Join_def)
qed

lemma resolve_target_abs:
  assumes "IsAbs base"
  shows "\<exists>ts. proper ts \<and> resolve_target base dir = abs_path ts"
proof -
  have "IsAbs (if IsAbs d then d else path_Join base d)" for d
    using join_is_abs [OF assms, of d] by auto
  then show ?thesis using clean_is_abs by (simp add: resolve_target_def Let_def)
qed

lemma resolve_walk_iff:
  assumes "proper ps" and "proper ts"
  shows "resolve_walk lstat (abs_path ps) (abs_path ts) = Inr d \<longleftrightarrow>
    d = abs_path ts \<and> prefix ps ts \<and>
    (\<forall>k. length ps < k \<longrightarrow> k \<le> length ts \<longrightarrow> lstat (abs_path (take k ts)) \<notin> {StatRefused, Found SymLink})"
proof (cases "prefix ps ts")
  case False
  obtain s where "path_Rel (abs_path ps) (abs_path ts) = Some s" "s = ''..'' \<or> prefix ''../'' s"
    using rel_climbs [OF assms False] .
  with False show ?thesis by (auto simp: resolve_walk_def)
next
  case True
  then obtain qs where ts: "ts = ps @ qs" by (auto simp: prefix_def)
  have qs: "proper qs" using assms(2) by (simp add: ts)
  have shift: "(\<forall>k. length ps < k \<longrightarrow> k \<le> length ts \<longrightarrow> P (take k ts)) \<longleftrightarrow>
      (\<forall>k. 0 < k \<longrightarrow> k \<le> length qs \<longrightarrow> P (ps @ take k qs))" for P
  proof
    assume l: "\<forall>k. length ps < k \<longrightarrow> k \<le> length ts \<longrightarrow> P (take k ts)"
    show "\<forall>k. 0 < k \<longrightarrow> k \<le> length qs \<longrightarrow> P (ps @ take k qs)"
      using l [rule_format, of "length ps + k" for k] by (simp add: ts)
  next
    assume r: "\<forall>k. 0 < k \<longrightarrow> k \<le> length qs \<longrightarrow> P (ps @ take k qs)"
    show "\<forall>k. length ps < k \<longrightarrow> k \<le> length ts \<longrightarrow> P (take k ts)"
    proof (intro allI impI)
      fix k assume "length ps < k" "k \<le> length ts"
      then show "P (take k ts)" using r [rule_format, of "k - length ps"] by (simp add: ts)
    qed
  qed
  have "resolve_walk lstat (abs_path ps) (abs_path ts) = Inr d \<longleftrightarrow>
      d = abs_path ts \<and> (\<forall>k. 0 < k \<longrightarrow> k \<le> length qs \<longrightarrow> lstat (abs_path (ps @ take k qs)) \<notin> {StatRefused, Found SymLink})"
  proof (cases "qs = []")
    case True
    with rel_below [OF assms(1) qs] show ?thesis by (auto simp: resolve_walk_def ts)
  next
    case False
    then show ?thesis
      using rel_below [OF assms(1) qs] proper_rel [OF qs False] walk_down_iff [OF assms(1) qs, of lstat]
      by (auto simp: resolve_walk_def ts proper_split [OF qs False] split: option.splits)
  qed
  with True show ?thesis using shift [of "\<lambda>x. lstat (abs_path x) \<notin> {StatRefused, Found SymLink}"] by simp
qed

text \<open>C24: \<open>Resolve\<close> keeps a destination inside the root. With \<open>base\<close> the real path of the root, it accepts
  exactly when the target, taken from \<open>base\<close> if it is relative and cleaned, is \<open>base\<close> or below it and
  no component below \<open>base\<close> that exists is a symbolic link; what it returns is that clean absolute
  path.\<close>

theorem resolve_iff:
  assumes "clean_answers w" and "root \<noteq> []" and "osAbs w root = Some full" and "osEval w full = Some base"
  shows "Resolve w root dir = Inr d \<longleftrightarrow>
    (\<exists>ps ts. proper ps \<and> proper ts \<and> base = abs_path ps \<and> d = abs_path ts \<and> d = resolve_target base dir \<and>
       prefix ps ts \<and>
       (\<forall>k. length ps < k \<longrightarrow> k \<le> length ts \<longrightarrow> osLstat w (abs_path (take k ts)) \<notin> {StatRefused, Found SymLink}))"
proof -
  have "IsAbs base" "path_Clean base = base" using assms(1,4) by (auto simp: clean_answers_def)
  then obtain ps where ps: "proper ps" "base = abs_path ps" by (rule clean_abs_cases)
  obtain ts where ts: "proper ts" "resolve_target base dir = abs_path ts"
    using resolve_target_abs [OF \<open>IsAbs base\<close>] by blast
  have "Resolve w root dir = resolve_walk (osLstat w) (abs_path ps) (abs_path ts)"
    using assms(2-4) ts(2) by (simp add: Resolve_def resolve_root_def ps(2))
  with resolve_walk_iff [OF ps(1) ts(1)] have r: "Resolve w root dir = Inr d \<longleftrightarrow> d = abs_path ts \<and> prefix ps ts \<and>
      (\<forall>k. length ps < k \<longrightarrow> k \<le> length ts \<longrightarrow> osLstat w (abs_path (take k ts)) \<notin> {StatRefused, Found SymLink})"
    by simp
  show ?thesis
    unfolding r
  proof
    assume "\<exists>ps ts. proper ps \<and> proper ts \<and> base = abs_path ps \<and> d = abs_path ts \<and> d = resolve_target base dir \<and>
        prefix ps ts \<and>
        (\<forall>k. length ps < k \<longrightarrow> k \<le> length ts \<longrightarrow> osLstat w (abs_path (take k ts)) \<notin> {StatRefused, Found SymLink})"
    then obtain ps' ts' where a: "proper ps'" "proper ts'" "base = abs_path ps'" "d = abs_path ts'"
        "d = resolve_target base dir" "prefix ps' ts'"
        "\<forall>k. length ps' < k \<longrightarrow> k \<le> length ts' \<longrightarrow> osLstat w (abs_path (take k ts')) \<notin> {StatRefused, Found SymLink}"
      by blast
    moreover have "ps' = ps" "ts' = ts" using abs_path_inj a ps ts by metis+
    ultimately show "d = abs_path ts \<and> prefix ps ts \<and>
        (\<forall>k. length ps < k \<longrightarrow> k \<le> length ts \<longrightarrow> osLstat w (abs_path (take k ts)) \<notin> {StatRefused, Found SymLink})"
      by simp
  next
    assume "d = abs_path ts \<and> prefix ps ts \<and>
        (\<forall>k. length ps < k \<longrightarrow> k \<le> length ts \<longrightarrow> osLstat w (abs_path (take k ts)) \<notin> {StatRefused, Found SymLink})"
    with ps ts show "\<exists>ps ts. proper ps \<and> proper ts \<and> base = abs_path ps \<and> d = abs_path ts \<and> d = resolve_target base dir \<and>
        prefix ps ts \<and>
        (\<forall>k. length ps < k \<longrightarrow> k \<le> length ts \<longrightarrow> osLstat w (abs_path (take k ts)) \<notin> {StatRefused, Found SymLink})"
      by (intro exI [of _ ps] exI [of _ ts]) simp
  qed
qed

definition sample_os :: os_paths where
  "sample_os =
     \<lparr>osAbs = \<lambda>s. if s = ''/d'' then Some ''/d'' else None, osEval = \<lambda>s. Some ''/d'',
      osLstat = \<lambda>s. if s = ''/d/l'' then Found SymLink else NotExist\<rparr>"

lemma sample_os_clean: "clean_answers sample_os"
proof -
  have "path_Clean ''/d'' = ''/d''" by (simp add: path_Clean_def clean_comps_def clean_step_def)
  then show ?thesis by (auto simp: clean_answers_def sample_os_def split: if_splits)
qed

theorem resolve_iff_witness: "Resolve sample_os ''/d'' ''a/../b'' = Inr ''/d/b''"
proof -
  have t: "resolve_target ''/d'' ''a/../b'' = ''/d/b''"
    by (simp add: resolve_target_def path_Join_def path_Clean_def clean_comps_def clean_step_def)
  have "osAbs sample_os ''/d'' = Some ''/d''" "osEval sample_os ''/d'' = Some ''/d''"
    by (simp_all add: sample_os_def)
  note r = resolve_iff [OF sample_os_clean _ this, of "''a/../b''" "''/d/b''"]
  have links: "osLstat sample_os (abs_path (take k [''d'', ''b''])) \<notin> {StatRefused, Found SymLink}" for k
    by (cases k; cases "k - 1") (simp_all add: sample_os_def abs_path_def)
  show ?thesis
    unfolding r [OF list.distinct(2)] t
    by (intro exI [of _ "[''d'']"] exI [of _ "[''d'', ''b'']"] conjI allI impI links)
      (simp_all add: plain_def abs_path_def)
qed

section \<open>Destinations\<close>

text \<open>The facts a client of \<open>Resolve\<close> needs, for an empty root too. On Unix \<^verbatim>\<open>Abs\<close> of an absolute path is
  its \<^verbatim>\<open>Clean\<close>.\<close>

definition honest :: "os_paths \<Rightarrow> bool" where
  "honest w \<longleftrightarrow> clean_answers w \<and> (\<forall>s. IsAbs s \<longrightarrow> osAbs w s = Some (path_Clean s))"

definition real_root :: "os_paths \<Rightarrow> string \<Rightarrow> string option" where
  "real_root w root = (case osAbs w (if root = [] then ''/'' else root) of None \<Rightarrow> None | Some r \<Rightarrow> osEval w r)"

lemma resolve_cases:
  assumes "Resolve w root dir = Inr d"
  obtains base dir1 where "real_root w root = Some base"
    and "dir1 = dir \<and> root \<noteq> [] \<or> root = [] \<and> osAbs w dir = Some dir1"
    and "resolve_walk (osLstat w) base (resolve_target base dir1) = Inr d"
  using assms by (auto simp: Resolve_def resolve_root_def real_root_def split: option.splits if_splits)

lemma resolve_ok:
  assumes "honest w" and "Resolve w root dir = Inr d"
  obtains ps ts where "proper ps" and "proper ts" and "real_root w root = Some (abs_path ps)" and "d = abs_path ts"
    and "prefix ps ts"
    and "\<And>k. length ps < k \<Longrightarrow> k \<le> length ts \<Longrightarrow> osLstat w (abs_path (take k ts)) \<notin> {StatRefused, Found SymLink}"
proof -
  obtain base dir1 where b: "real_root w root = Some base"
      and r: "resolve_walk (osLstat w) base (resolve_target base dir1) = Inr d"
    using resolve_cases [OF assms(2)] by metis
  have "IsAbs base \<and> path_Clean base = base"
    using assms(1) b by (auto simp: honest_def clean_answers_def real_root_def split: option.splits)
  then obtain ps where ps: "proper ps" "base = abs_path ps" using clean_abs_cases by blast
  obtain ts where ts: "proper ts" "resolve_target base dir1 = abs_path ts"
    using resolve_target_abs [of base dir1] ps by auto
  have "resolve_walk (osLstat w) (abs_path ps) (abs_path ts) = Inr d" using r ts(2) by (simp only: ps(2))
  then have "d = abs_path ts \<and> prefix ps ts \<and>
      (\<forall>k. length ps < k \<longrightarrow> k \<le> length ts \<longrightarrow> osLstat w (abs_path (take k ts)) \<notin> {StatRefused, Found SymLink})"
    by (rule resolve_walk_iff [OF ps(1) ts(1), THEN iffD1])
  then have k: "d = abs_path ts" "prefix ps ts"
      "\<forall>k. length ps < k \<longrightarrow> k \<le> length ts \<longrightarrow> osLstat w (abs_path (take k ts)) \<notin> {StatRefused, Found SymLink}"
    by blast+
  show ?thesis
    by (rule that [OF ps(1) ts(1) b [unfolded ps(2)] k(1,2) k(3) [rule_format]])
qed

lemma resolve_fixes:
  assumes "honest w" and "proper ts" and "Resolve w root (abs_path ts) = Inr d"
  shows "d = abs_path ts"
proof -
  obtain base dir1 where d1: "dir1 = abs_path ts \<and> root \<noteq> [] \<or> root = [] \<and> osAbs w (abs_path ts) = Some dir1"
      and b: "real_root w root = Some base"
      and r: "resolve_walk (osLstat w) base (resolve_target base dir1) = Inr d"
    using resolve_cases [OF assms(3)] .
  have "dir1 = abs_path ts" using d1 assms(1) clean_abs_path [OF assms(2)] by (auto simp: honest_def)
  then have t: "resolve_target base dir1 = abs_path ts"
    using clean_abs_path [OF assms(2)] by (simp add: resolve_target_def abs_path_def)
  have "IsAbs base \<and> path_Clean base = base"
    using assms(1) b by (auto simp: honest_def clean_answers_def real_root_def split: option.splits)
  then obtain ps where ps: "proper ps" "base = abs_path ps" using clean_abs_cases by blast
  have "resolve_walk (osLstat w) (abs_path ps) (abs_path ts) = Inr d" using r t by (simp only: ps(2))
  then show ?thesis by (simp only: resolve_walk_iff [OF ps(1) assms(2)])
qed

text \<open>The destination of a manifest entry below a resolved target.\<close>

lemma join_safe:
  assumes "proper ts" and "SafeName n"
  shows "path_Join (abs_path ts) n = abs_path (ts @ split_at slash n)" and "proper (ts @ split_at slash n)"
proof -
  have p: "proper (split_at slash n)" using assms(2) by (rule safe_proper(1))
  then show "path_Join (abs_path ts) n = abs_path (ts @ split_at slash n)"
    using join_abs [OF assms(1) p] by (simp add: join_split)
  show "proper (ts @ split_at slash n)" using assms(1) p by simp
qed

lemma dir_abs:
  assumes "proper ts"
  shows "path_Dir (abs_path ts) = abs_path (butlast ts)"
proof (cases ts rule: rev_cases)
  case Nil
  then show ?thesis by (simp add: path_Dir_def abs_path_def path_Clean_def clean_comps_def)
next
  case (snoc qs q)
  have q: "slash \<notin> set q" and qs: "proper qs" using assms by (simp_all add: snoc)
  have s: "abs_path ts = (if qs = [] then [slash] else abs_path qs @ [slash]) @ q"
  proof (cases "qs = []")
    case False
    then have "join_with slash (qs @ [q]) = join_with slash qs @ slash # q"
      by (induction slash qs rule: join_with.induct) auto
    with False show ?thesis by (simp add: snoc abs_path_def)
  qed (simp add: snoc abs_path_def)
  have "dropWhile (\<lambda>c. c \<noteq> slash) (rev q @ slash # b) = slash # b" for b
    using q by (subst dropWhile_append2) auto
  then have "rev (dropWhile (\<lambda>c. c \<noteq> slash) (rev (a @ [slash] @ q))) = a @ [slash]" for a
    by simp
  from this [of "if qs = [] then [] else abs_path qs"]
  have "path_Dir (abs_path ts) = path_Clean ((if qs = [] then [] else abs_path qs) @ [slash])"
    by (cases "qs = []") (simp_all add: path_Dir_def s)
  also have "\<dots> = abs_path qs"
  proof (cases "qs = []")
    case False
    have "clean_comps (abs_path qs @ [slash]) = qs"
    proof -
      have "split_at slash (abs_path qs @ [slash]) = split_at slash (abs_path qs) @ [[]]"
        using split_at_append [of slash "abs_path qs" "[]"] by simp
      moreover have "foldl (clean_step True) [] (split_at slash (abs_path qs)) = rev qs"
        using comps_abs_path [OF qs] unfolding clean_comps_def by (simp add: rev_swap)
      moreover have "IsAbs (abs_path qs @ [slash])" by (simp add: abs_path_def)
      ultimately show ?thesis by (simp add: clean_comps_def)
    qed
    with False show ?thesis by (simp add: clean_abs_eq) (simp add: abs_path_def path_Clean_def)
  qed (simp add: path_Clean_def clean_comps_def abs_path_def)
  finally show ?thesis by (simp add: snoc)
qed

end
