(* ===== verification/Bundle.thy ===== *)
theory Bundle
  imports SafePath Wire
begin

text \<open>
  Directory bundles (\<^verbatim>\<open>internal/transfer/files.go\<close>): probing a destination, copying, extracting an archive.
  The file system is a map from clean absolute paths to nodes; \<open>sys\<close> holds what else the operating
  system decides (what a link leads to, which calls are refused, how much space is free). An archive
  is the list of what \<^verbatim>\<open>tar.Reader.Next\<close> returns, each with the outcome of the calls made for it.
\<close>

section \<open>The file system\<close>

datatype node = NFile "byte list" | NDir | NLink | NOther

type_synonym nodes = "(string, node) gomap"

fun kind_of :: "node \<Rightarrow> file_kind" where
  "kind_of (NFile bs) = RegularFile"
| "kind_of NDir = Directory"
| "kind_of NLink = SymLink"
| "kind_of NOther = OtherFile"

record sys =
  syAbs :: "string \<Rightarrow> string option"
  syEval :: "string \<Rightarrow> string option"
  syRefuses :: "string \<Rightarrow> bool"
  syFollow :: "string \<Rightarrow> stat_result"
  syWritable :: "string \<Rightarrow> bool"
  syCreates :: "string \<Rightarrow> bool"
  syRemoves :: bool
  syFree :: "string \<Rightarrow> int option"

definition sys_lstat :: "sys \<Rightarrow> nodes \<Rightarrow> string \<Rightarrow> stat_result" where
  "sys_lstat w ns p =
     (if syRefuses w p then StatRefused
      else (case mget ns p of None \<Rightarrow> NotExist | Some n \<Rightarrow> Found (kind_of n)))"

definition sys_stat :: "sys \<Rightarrow> nodes \<Rightarrow> string \<Rightarrow> stat_result" where
  "sys_stat w ns p = (if sys_lstat w ns p = Found SymLink then syFollow w p else sys_lstat w ns p)"

definition paths_of :: "sys \<Rightarrow> nodes \<Rightarrow> os_paths" where
  "paths_of w ns = \<lparr>osAbs = syAbs w, osEval = syEval w, osLstat = sys_lstat w ns\<rparr>"

section \<open>ProbeTarget\<close>

datatype probe_error =
    BadManifest manifest_error
  | Unresolved resolve_error
  | KindConflict
  | NotAllowed
  | NotWritable
  | StatError
  | ParentNotDir
  | CannotCreate
  | CannotRemove
  | NoSpace

record probe =
  pbReady :: bool
  pbTarget :: string
  pbWarnings :: "string list"
  pbBytes :: int

text \<open>The loop up to the first parent that exists.\<close>

partial_function (option) existing_parent :: "(string \<Rightarrow> stat_result) \<Rightarrow> string \<Rightarrow> (probe_error + string) option" where
  "existing_parent stat parent =
     (case stat parent of
        Found k \<Rightarrow> Some (if k = Directory then Inr parent else Inl ParentNotDir)
      | StatRefused \<Rightarrow> Some (Inl StatError)
      | NotExist \<Rightarrow>
          if path_Dir parent = parent then Some (Inl StatError)
          else existing_parent stat (path_Dir parent))"

text \<open>The loop before the space check: up to the first path that can be examined at all.\<close>

partial_function (option) statable_parent :: "(string \<Rightarrow> stat_result) \<Rightarrow> string \<Rightarrow> string option" where
  "statable_parent stat parent =
     (case stat parent of Found k \<Rightarrow> Some parent | _ \<Rightarrow> statable_parent stat (path_Dir parent))"

text \<open>The destination of one entry: its kind, the permission to overwrite it, the permission to write.\<close>

definition probe_dest :: "sys \<Rightarrow> nodes \<Rightarrow> bool \<Rightarrow> entry \<Rightarrow> string \<Rightarrow> string list \<Rightarrow> probe_error + string list" where
  "probe_dest w ns overwrite e dest warns =
     (case sys_lstat w ns dest of
        Found k \<Rightarrow>
          if (k = Directory) \<noteq> enDir e then Inl KindConflict
          else if enDir e then Inr warns
          else if \<not> overwrite then Inl NotAllowed
          else if \<not> syWritable w dest then Inl NotWritable
          else Inr (warns @ [dest])
      | NotExist \<Rightarrow> Inr warns
      | StatRefused \<Rightarrow> Inl StatError)"

text \<open>The probe file in the first existing parent, once per parent.\<close>

definition probe_parent :: "sys \<Rightarrow> nodes \<Rightarrow> string list \<Rightarrow> string \<Rightarrow> (probe_error + string list) option" where
  "probe_parent w ns checked start =
     (case existing_parent (sys_stat w ns) start of
        None \<Rightarrow> None
      | Some (Inl x) \<Rightarrow> Some (Inl x)
      | Some (Inr parent) \<Rightarrow>
          Some (if parent \<in> set checked then Inr checked
                else if \<not> syCreates w parent then Inl CannotCreate
                else if \<not> syRemoves w then Inl CannotRemove
                else Inr (parent # checked)))"

fun probe_items ::
  "sys \<Rightarrow> nodes \<Rightarrow> string \<Rightarrow> string \<Rightarrow> bool \<Rightarrow> entry list \<Rightarrow> int \<Rightarrow> string list \<Rightarrow> string list \<Rightarrow>
   (probe_error + int \<times> string list) option" where
  "probe_items w ns root target overwrite [] bytes warns checked = Some (Inr (bytes, warns))"
| "probe_items w ns root target overwrite (e # es) bytes warns checked =
     (case Resolve (paths_of w ns) root (path_Join target (enName e)) of
        Inl x \<Rightarrow> Some (Inl (Unresolved x))
      | Inr dest \<Rightarrow>
          (case probe_dest w ns overwrite e dest warns of
             Inl x \<Rightarrow> Some (Inl x)
           | Inr warns' \<Rightarrow>
               (case probe_parent w ns checked (if enDir e then dest else path_Dir dest) of
                  None \<Rightarrow> None
                | Some (Inl x) \<Rightarrow> Some (Inl x)
                | Some (Inr checked') \<Rightarrow>
                    probe_items w ns root target overwrite es
                      (if enDir e then bytes else wrap64 (bytes + enSize e)) warns' checked')))"

definition ProbeTarget ::
  "sys \<Rightarrow> nodes \<Rightarrow> string \<Rightarrow> string \<Rightarrow> entry list \<Rightarrow> bool \<Rightarrow> int \<Rightarrow> (probe_error + probe) option" where
  "ProbeTarget w ns root dir es overwrite extra =
     (case ValidateEntries es of
        None \<Rightarrow> None
      | Some (Some x) \<Rightarrow> Some (Inl (BadManifest x))
      | Some None \<Rightarrow>
          (case Resolve (paths_of w ns) root dir of
             Inl x \<Rightarrow> Some (Inl (Unresolved x))
           | Inr target \<Rightarrow>
               (case probe_items w ns root target overwrite es 0 [] [] of
                  None \<Rightarrow> None
                | Some (Inl x) \<Rightarrow> Some (Inl x)
                | Some (Inr (bytes, warns)) \<Rightarrow>
                    (case statable_parent (sys_stat w ns) target of
                       None \<Rightarrow> None
                     | Some parent \<Rightarrow>
                         Some (case syFree w parent of
                                 Some free \<Rightarrow>
                                   if free < wrap64 (bytes + extra) mod 2 ^ 64 then Inl NoSpace
                                   else Inr \<lparr>pbReady = True, pbTarget = target, pbWarnings = warns, pbBytes = bytes\<rparr>
                               | None \<Rightarrow>
                                   Inr \<lparr>pbReady = True, pbTarget = target, pbWarnings = warns, pbBytes = bytes\<rparr>)))))"

section \<open>Extract\<close>

datatype tar_kind = TypeReg | TypeRegA | TypeDir | TypeOther

text \<open>A header and its content, \<open>None\<close> when reading the content fails.\<close>

record tar_item =
  tiName :: string
  tiSize :: int
  tiKind :: tar_kind
  tiBody :: "byte list option"

text \<open>The outcome of the calls made for one item: cancellation, how many directories could be made, the
  name of the temporary file, writing (\<^verbatim>\<open>Write\<close>, \<^verbatim>\<open>Chmod\<close>, \<^verbatim>\<open>Sync\<close> and \<^verbatim>\<open>Close\<close>) and \<^verbatim>\<open>Rename\<close>.\<close>

record calls =
  caCancelled :: bool
  caMkdir :: "nat \<Rightarrow> bool"
  caTemp :: "string option"
  caWrite :: bool
  caRename :: bool

datatype extract_error =
    ProbeFailed probe_error
  | Interrupted
  | OpenFailed
  | BadArchive
  | Mismatch string
  | Escapes resolve_error
  | MkdirFailed
  | TempFailed
  | CopyFailed
  | Exists
  | LstatRefused
  | RenameRefused
  | Missing

text \<open>\<^verbatim>\<open>MkdirAll\<close>, one component after the other.\<close>

fun mkdir_all :: "sys \<Rightarrow> (nat \<Rightarrow> bool) \<Rightarrow> string list \<Rightarrow> string list \<Rightarrow> nodes \<Rightarrow> bool \<times> nodes" where
  "mkdir_all w can done [] ns = (True, ns)"
| "mkdir_all w can done (p # ps) ns =
     (let here = done @ [p]
      in case sys_stat w ns (abs_path here) of
           Found k \<Rightarrow> if k = Directory then mkdir_all w can here ps ns else (False, ns)
         | StatRefused \<Rightarrow> (False, ns)
         | NotExist \<Rightarrow>
             if can (length done) \<and> mget ns (abs_path here) = None
             then mkdir_all w can here ps (mput (abs_path here) NDir ns)
             else (False, ns))"

definition MkdirAll :: "sys \<Rightarrow> (nat \<Rightarrow> bool) \<Rightarrow> string \<Rightarrow> nodes \<Rightarrow> bool \<times> nodes" where
  "MkdirAll w can path ns = mkdir_all w can [] (clean_comps path) ns"

definition trim_slash :: "string \<Rightarrow> string" where
  "trim_slash s = (if s \<noteq> [] \<and> last s = slash then butlast s else s)"

text \<open>The check of an item against the manifest entries still expected.\<close>

definition item_matches :: "tar_item \<Rightarrow> entry \<Rightarrow> bool" where
  "item_matches t e \<longleftrightarrow>
     SafeName (trim_slash (tiName t)) \<and> tiSize t = enSize e \<and> tiKind t \<noteq> TypeOther \<and>
     (tiKind t = TypeDir) = enDir e"

text \<open>A file is written under a temporary name in its directory (a name \<^verbatim>\<open>CreateTemp\<close> found free) and
  renamed. \<^verbatim>\<open>Rename\<close> never replaces a directory by a file.\<close>

definition place_check :: "sys \<Rightarrow> calls \<Rightarrow> string \<Rightarrow> bool \<Rightarrow> string \<Rightarrow> byte list option \<Rightarrow> nodes \<Rightarrow> extract_error option" where
  "place_check w ca root overwrite dest body ns =
     (if \<not> caWrite ca \<or> body = None then Some CopyFailed
      else if \<not> overwrite \<and> sys_lstat w ns dest = StatRefused then Some LstatRefused
      else if \<not> overwrite \<and> sys_lstat w ns dest \<noteq> NotExist then Some Exists
      else
        (case Resolve (paths_of w ns) root dest of
           Inl x \<Rightarrow> Some (Escapes x)
         | Inr _ \<Rightarrow> if \<not> caRename ca \<or> mget ns dest = Some NDir then Some RenameRefused else None))"

definition place_file ::
  "sys \<Rightarrow> calls \<Rightarrow> string \<Rightarrow> bool \<Rightarrow> string \<Rightarrow> byte list option \<Rightarrow> nodes \<Rightarrow> extract_error option \<times> nodes" where
  "place_file w ca root overwrite dest body ns =
     (case caTemp ca of
        None \<Rightarrow> (Some TempFailed, ns)
      | Some name \<Rightarrow>
          (let tmp = path_Join (path_Dir dest) name
           in if mget ns tmp \<noteq> None then (Some TempFailed, ns)
              else
                (let bs = (case body of None \<Rightarrow> [] | Some b \<Rightarrow> b);
                     ns1 = mput tmp (NFile bs) ns
                 in case place_check w ca root overwrite dest body ns1 of
                      Some x \<Rightarrow> (Some x, mdel tmp ns1)
                    | None \<Rightarrow> (None, mput dest (NFile bs) (mdel tmp ns1)))))"

definition extract_item ::
  "sys \<Rightarrow> calls \<Rightarrow> string \<Rightarrow> string \<Rightarrow> bool \<Rightarrow> tar_item \<Rightarrow> (string, entry) gomap \<Rightarrow> nodes \<Rightarrow>
   (extract_error + (string, entry) gomap) \<times> nodes" where
  "extract_item w ca root target overwrite t expected ns =
     (let name = trim_slash (tiName t)
      in case mget expected name of
           None \<Rightarrow> (Inl (Mismatch (tiName t)), ns)
         | Some e \<Rightarrow>
             if \<not> item_matches t e then (Inl (Mismatch (tiName t)), ns)
             else
               (case Resolve (paths_of w ns) root (path_Join target name) of
                  Inl x \<Rightarrow> (Inl (Escapes x), ns)
                | Inr dest \<Rightarrow>
                    (case MkdirAll w (caMkdir ca) (if enDir e then dest else path_Dir dest) ns of
                       (False, ns1) \<Rightarrow> (Inl MkdirFailed, ns1)
                     | (True, ns1) \<Rightarrow>
                         if enDir e then (Inr (mdel name expected), ns1)
                         else
                           (case place_file w ca root overwrite dest (tiBody t) ns1 of
                              (Some x, ns2) \<Rightarrow> (Inl x, ns2)
                            | (None, ns2) \<Rightarrow> (Inr (mdel name expected), ns2)))))"

text \<open>\<open>None\<close> in the list is an error of \<^verbatim>\<open>Next\<close>; \<open>fin\<close>: cancelled when the end of the archive is reached.\<close>

fun extract_loop ::
  "sys \<Rightarrow> string \<Rightarrow> string \<Rightarrow> bool \<Rightarrow> bool \<Rightarrow> (calls \<times> tar_item option) list \<Rightarrow> (string, entry) gomap \<Rightarrow> nodes \<Rightarrow>
   extract_error option \<times> nodes" where
  "extract_loop w root target overwrite fin [] expected ns =
     (if fin then Some Interrupted else if expected \<noteq> [] then Some Missing else None, ns)"
| "extract_loop w root target overwrite fin ((ca, item) # items) expected ns =
     (if caCancelled ca then (Some Interrupted, ns)
      else
        (case item of
           None \<Rightarrow> (Some BadArchive, ns)
         | Some t \<Rightarrow>
             (case extract_item w ca root target overwrite t expected ns of
                (Inl x, ns1) \<Rightarrow> (Some x, ns1)
              | (Inr expected1, ns1) \<Rightarrow> extract_loop w root target overwrite fin items expected1 ns1)))"

definition Extract ::
  "sys \<Rightarrow> nodes \<Rightarrow> string \<Rightarrow> string \<Rightarrow> entry list \<Rightarrow> bool \<Rightarrow> bool \<Rightarrow> (calls \<times> tar_item option) list \<Rightarrow> bool \<Rightarrow>
   (extract_error option \<times> nodes) option" where
  "Extract w ns root dir es overwrite opened items fin =
     (case ProbeTarget w ns root dir es overwrite 0 of
        None \<Rightarrow> None
      | Some (Inl x) \<Rightarrow> Some (Some (ProbeFailed x), ns)
      | Some (Inr _) \<Rightarrow>
          (case Resolve (paths_of w ns) root dir of
             Inl x \<Rightarrow> Some (Some (Escapes x), ns)
           | Inr target \<Rightarrow>
               if \<not> opened then Some (Some OpenFailed, ns)
               else Some (extract_loop w root target overwrite fin items
                            (fold (\<lambda>e. mput (enName e) e) es []) ns)))"

section \<open>What extraction may change\<close>

lemma mkdir_all_effect:
  assumes "mkdir_all w can pre ps ns = (ok, ns')"
  shows "(\<forall>p. mget ns' p = mget ns p \<or>
      mget ns p = None \<and> mget ns' p = Some NDir \<and> (\<exists>k. 0 < k \<and> k \<le> length ps \<and> p = abs_path (pre @ take k ps)))"
  using assms
proof (induction ps arbitrary: pre ns)
  case (Cons q ps)
    let ?here = "pre @ [q]"
    have shift: "\<exists>k. 0 < k \<and> k \<le> length (q # ps) \<and> p = abs_path (pre @ take k (q # ps))"
      if "\<exists>k. 0 < k \<and> k \<le> length ps \<and> p = abs_path (?here @ take k ps)" for p
    proof -
      from that obtain k where "0 < k" "k \<le> length ps" "p = abs_path (?here @ take k ps)" by blast
      then show ?thesis by (intro exI [of _ "Suc k"]) simp
    qed
    have first: "\<exists>k. 0 < k \<and> k \<le> length (q # ps) \<and> abs_path ?here = abs_path (pre @ take k (q # ps))"
      by (intro exI [of _ 1]) simp
    show ?case
    proof (cases "sys_stat w ns (abs_path ?here)")
      case NotExist
      show ?thesis
      proof (cases "can (length pre) \<and> mget ns (abs_path ?here) = None")
        case True
        let ?ns = "mput (abs_path ?here) NDir ns"
        have r: "mkdir_all w can ?here ps ?ns = (ok, ns')"
          using Cons.prems NotExist True by (simp add: Let_def)
        show ?thesis
        proof
          fix p
          have "mget ns' p = mget ?ns p \<or> mget ?ns p = None \<and> mget ns' p = Some NDir \<and>
              (\<exists>k. 0 < k \<and> k \<le> length ps \<and> p = abs_path (?here @ take k ps))"
            using Cons.IH [OF r] by blast
          then show "mget ns' p = mget ns p \<or> mget ns p = None \<and> mget ns' p = Some NDir \<and>
              (\<exists>k. 0 < k \<and> k \<le> length (q # ps) \<and> p = abs_path (pre @ take k (q # ps)))"
            using True shift [of p] first by (cases "p = abs_path ?here") (auto simp: gomap_simps)
        qed
      qed (use Cons.prems NotExist in \<open>simp add: Let_def split: if_splits\<close>)
    next
      case (Found k)
      show ?thesis
      proof (cases "k = Directory")
        case True
        then have "mkdir_all w can ?here ps ns = (ok, ns')" using Cons.prems Found by (simp add: Let_def)
        from Cons.IH [OF this] shift show ?thesis by blast
      qed (use Cons.prems Found in \<open>simp add: Let_def\<close>)
    qed (use Cons.prems in \<open>simp add: Let_def\<close>)
qed auto

lemma stat_made: "sys_stat w ns p = NotExist \<Longrightarrow> mget ns p = None \<Longrightarrow> sys_stat w (mput p NDir ns) p = Found Directory"
  by (simp add: sys_stat_def sys_lstat_def gomap_simps split: if_splits)

lemma mkdir_all_last:
  "mkdir_all w can pre ps ns = (True, ns') \<Longrightarrow> ps \<noteq> [] \<Longrightarrow> sys_stat w ns' (abs_path (pre @ ps)) = Found Directory"
proof (induction ps arbitrary: pre ns)
  case (Cons q ps)
  then show ?case
    using Cons.IH [of "pre @ [q]"]
    by (cases "ps = []") (auto simp: Let_def stat_made split: stat_result.splits if_splits)
qed simp

definition honest_sys :: "sys \<Rightarrow> bool" where
  "honest_sys w \<longleftrightarrow> honest (paths_of w [])"

lemma honest_paths: "honest_sys w \<Longrightarrow> honest (paths_of w ns)"
  by (simp add: honest_sys_def honest_def clean_answers_def paths_of_def)

lemma root_paths: "real_root (paths_of w ns) root = real_root (paths_of w []) root"
  by (simp add: real_root_def paths_of_def cong: option.case_cong)

definition dest_of :: "string list \<Rightarrow> entry \<Rightarrow> string" where
  "dest_of ts e = abs_path (ts @ split_at slash (enName e))"

lemma dest_inj:
  assumes "proper ts" and "SafeName (enName e)" and "SafeName (enName f)" and "dest_of ts e = dest_of ts f"
  shows "enName e = enName f"
proof -
  have "ts @ split_at slash (enName e) = ts @ split_at slash (enName f)"
    using assms(4) unfolding dest_of_def
    by (rule abs_path_inj [OF join_safe(2) [OF assms(1,2)] join_safe(2) [OF assms(1,3)]])
  then show ?thesis by (metis join_split same_append_eq)
qed

lemma item_dest:
  assumes w: "honest_sys w" and root: "real_root (paths_of w []) root = Some (abs_path ps)" and p: "proper ps" "proper ts"
    and "length ps \<le> length ts" and n: "SafeName n"
    and r: "Resolve (paths_of w ns) root (path_Join (abs_path ts) n) = Inr d"
  shows "d = abs_path (ts @ split_at slash n)" and "sys_lstat w ns d \<notin> {StatRefused, Found SymLink}"
proof -
  have j: "path_Join (abs_path ts) n = abs_path (ts @ split_at slash n)" and pn: "proper (ts @ split_at slash n)"
    using join_safe [OF p(2) n] by simp_all
  show d: "d = abs_path (ts @ split_at slash n)"
    using resolve_fixes [OF honest_paths [OF w] pn] r by (simp add: j)
  obtain ps' ts' where k: "proper ps'" "proper ts'" "real_root (paths_of w ns) root = Some (abs_path ps')" "d = abs_path ts'"
      and links: "\<And>k. length ps' < k \<Longrightarrow> k \<le> length ts' \<Longrightarrow> osLstat (paths_of w ns) (abs_path (take k ts')) \<notin> {StatRefused, Found SymLink}"
    using resolve_ok [OF honest_paths [OF w] r] by metis
  have "ps' = ps" using k(1,3) root p(1) abs_path_inj by (simp add: root_paths [of w ns])
  moreover have "ts' = ts @ split_at slash n" using d unfolding k(4) by (rule abs_path_inj [OF k(2) pn])
  ultimately have "osLstat (paths_of w ns) (abs_path (take (length ts') ts')) \<notin> {StatRefused, Found SymLink}"
    using assms(5) split_at_nonempty [of slash n] by (intro links) (cases "split_at slash n"; simp)+
  then show "sys_lstat w ns d \<notin> {StatRefused, Found SymLink}" by (simp add: paths_of_def k(4))
qed

text \<open>The invariant of the loop: \<open>ns0\<close> is the file system before, \<open>done_items\<close> what was extracted.\<close>

definition on_way :: "string list \<Rightarrow> entry list \<Rightarrow> string \<Rightarrow> bool" where
  "on_way ts es p \<longleftrightarrow> (\<exists>e \<in> set es. \<exists>k. p = abs_path (take k (ts @ split_at slash (enName e))))"

definition written :: "string list \<Rightarrow> entry list \<Rightarrow> (string, entry) gomap \<Rightarrow> string \<Rightarrow> bool" where
  "written ts es expected p \<longleftrightarrow>
     (\<exists>e \<in> set es. \<not> enDir e \<and> mget expected (enName e) = None \<and> p = dest_of ts e)"

definition frame_ok :: "string list \<Rightarrow> entry list \<Rightarrow> bool \<Rightarrow> nodes \<Rightarrow> (string, entry) gomap \<Rightarrow> nodes \<Rightarrow> bool" where
  "frame_ok ts es ow ns0 expected ns \<longleftrightarrow>
     (\<forall>p. mget ns p = mget ns0 p \<or> (mget ns0 p = None \<and> mget ns p = Some NDir \<and> on_way ts es p) \<or>
        (written ts es expected p \<and> (ow \<or> mget ns0 p = None)))"

definition entry_done :: "string list \<Rightarrow> tar_item list \<Rightarrow> nodes \<Rightarrow> entry \<Rightarrow> bool" where
  "entry_done ts items ns e \<longleftrightarrow>
     (if enDir e then mget ns (dest_of ts e) = Some NDir
      else (\<exists>t \<in> set items. \<exists>bs. trim_slash (tiName t) = enName e \<and> tiBody t = Some bs \<and>
              mget ns (dest_of ts e) = Some (NFile bs)))"

definition expects :: "entry list \<Rightarrow> (string, entry) gomap \<Rightarrow> bool" where
  "expects es expected \<longleftrightarrow> (\<forall>n e. mget expected n = Some e \<longrightarrow> e \<in> set es \<and> enName e = n)"

definition extract_inv ::
  "string list \<Rightarrow> entry list \<Rightarrow> bool \<Rightarrow> nodes \<Rightarrow> tar_item list \<Rightarrow> (string, entry) gomap \<Rightarrow> nodes \<Rightarrow> bool" where
  "extract_inv ts es overwrite ns0 items expected ns \<longleftrightarrow>
     expects es expected \<and> frame_ok ts es overwrite ns0 expected ns \<and>
     (\<forall>e \<in> set es. mget expected (enName e) = None \<longrightarrow> entry_done ts items ns e)"

lemma MkdirAll_effect:
  assumes "MkdirAll w can (abs_path xs) ns = (ok, ns')" and "proper xs"
  shows "mget ns' p = mget ns p \<or> mget ns p = None \<and> mget ns' p = Some NDir \<and> (\<exists>k \<le> length xs. p = abs_path (take k xs))"
  using mkdir_all_effect [of w can "[]" xs ns ok ns'] assms by (auto simp: MkdirAll_def comps_abs_path)

lemma place_file_effect:
  assumes "place_file w ca root overwrite dest body ns = (err, ns')"
  shows "err \<noteq> None \<Longrightarrow> mget ns' p = mget ns p"
    and "err = None \<Longrightarrow> mget ns' p = (if p = dest then Some (NFile (the body)) else mget ns p) \<and> body \<noteq> None \<and>
      (overwrite \<or> mget ns dest = None) \<and> mget ns dest \<noteq> Some NDir"
  using assms
  by (auto simp: place_file_def place_check_def Let_def gomap_simps sys_lstat_def split: option.splits if_splits sum.splits)

lemma frame_okD:
  "frame_ok ts es ow ns0 expected ns \<Longrightarrow>
   mget ns p = mget ns0 p \<or> (mget ns0 p = None \<and> mget ns p = Some NDir \<and> on_way ts es p) \<or>
   (written ts es expected p \<and> (ow \<or> mget ns0 p = None))"
  by (simp add: frame_ok_def)

lemma frame_mkdir:
  assumes f: "frame_ok ts es ow ns0 expected ns"
    and n: "\<And>p. mget ns1 p = mget ns p \<or> mget ns p = None \<and> mget ns1 p = Some NDir \<and> on_way ts es p"
  shows "frame_ok ts es ow ns0 expected ns1"
  unfolding frame_ok_def
proof
  fix p
  show "mget ns1 p = mget ns0 p \<or> (mget ns0 p = None \<and> mget ns1 p = Some NDir \<and> on_way ts es p) \<or>
      (written ts es expected p \<and> (ow \<or> mget ns0 p = None))"
    using frame_okD [OF f, of p] n [of p] by (elim disjE) simp_all
qed

lemma written_drop: "written ts es expected p \<Longrightarrow> written ts es (mdel n expected) p"
  by (auto simp: written_def gomap_simps)

lemma frame_drop: "frame_ok ts es ow ns0 expected ns \<Longrightarrow> frame_ok ts es ow ns0 (mdel n expected) ns"
  unfolding frame_ok_def
proof
  fix p
  assume "\<forall>p. mget ns p = mget ns0 p \<or> (mget ns0 p = None \<and> mget ns p = Some NDir \<and> on_way ts es p) \<or>
      (written ts es expected p \<and> (ow \<or> mget ns0 p = None))"
  from this [rule_format, of p]
  show "mget ns p = mget ns0 p \<or> (mget ns0 p = None \<and> mget ns p = Some NDir \<and> on_way ts es p) \<or>
      (written ts es (mdel n expected) p \<and> (ow \<or> mget ns0 p = None))"
    by (elim disjE) (simp_all add: written_drop)
qed

lemma frame_place:
  assumes f: "frame_ok ts es ow ns0 expected ns" and e: "e \<in> set es" "\<not> enDir e"
    and ns2: "\<And>p. p \<noteq> dest_of ts e \<Longrightarrow> mget ns2 p = mget ns p" and ow: "ow \<or> mget ns (dest_of ts e) = None"
  shows "frame_ok ts es ow ns0 (mdel (enName e) expected) ns2"
  unfolding frame_ok_def
proof
  fix p
  note drop = frame_okD [OF frame_drop [OF f, of "enName e"], of p]
  show "mget ns2 p = mget ns0 p \<or> (mget ns0 p = None \<and> mget ns2 p = Some NDir \<and> on_way ts es p) \<or>
      (written ts es (mdel (enName e) expected) p \<and> (ow \<or> mget ns0 p = None))"
  proof (cases "p = dest_of ts e")
    case False
    with drop ns2 show ?thesis by simp
  next
    case True
    have "written ts es (mdel (enName e) expected) p"
      using e True by (auto simp: written_def gomap_simps)
    moreover have "ow \<or> mget ns0 p = None" using ow drop True by (elim disjE) simp_all
    ultimately show ?thesis by simp
  qed
qed

lemma done_mkdir:
  assumes "entry_done ts items ns e"
    and "\<And>p. mget ns1 p = mget ns p \<or> mget ns p = None \<and> mget ns1 p = Some NDir"
  shows "entry_done ts items ns1 e"
proof -
  have "mget ns1 p = Some x" if "mget ns p = Some x" for p x using assms(2) [of p] that by auto
  with assms(1) show ?thesis by (auto simp: entry_done_def split: if_splits)
qed

lemma done_place:
  assumes "entry_done ts items ns f" and "dest_of ts f \<noteq> d" and "\<And>p. p \<noteq> d \<Longrightarrow> mget ns2 p = mget ns p"
  shows "entry_done ts items ns2 f"
  using assms(1) assms(3) [OF assms(2)] by (simp add: entry_done_def split: if_splits)

lemma done_more: "entry_done ts items ns e \<Longrightarrow> entry_done ts (t # items) ns e"
  unfolding entry_done_def by (auto split: if_splits)

definition setting :: "sys \<Rightarrow> string \<Rightarrow> string list \<Rightarrow> entry list \<Rightarrow> bool" where
  "setting w root ts es \<longleftrightarrow>
     honest_sys w \<and> proper ts \<and>
     (\<exists>ps. real_root (paths_of w []) root = Some (abs_path ps) \<and> proper ps \<and> length ps \<le> length ts) \<and>
     (\<forall>e \<in> set es. SafeName (enName e)) \<and> distinct (map enName es)"

lemma setting_dest:
  assumes "setting w root ts es" and "e \<in> set es"
    and "Resolve (paths_of w ns) root (path_Join (abs_path ts) (enName e)) = Inr d"
  shows "d = dest_of ts e" and "sys_lstat w ns d \<notin> {StatRefused, Found SymLink}"
    and "proper (ts @ split_at slash (enName e))"
proof -
  obtain ps where s: "honest_sys w" "real_root (paths_of w []) root = Some (abs_path ps)" "proper ps" "proper ts"
      "length ps \<le> length ts" "SafeName (enName e)"
    using assms(1,2) by (auto simp: setting_def)
  show "d = dest_of ts e" "sys_lstat w ns d \<notin> {StatRefused, Found SymLink}"
    using item_dest [OF s assms(3)] by (simp_all add: dest_of_def)
  show "proper (ts @ split_at slash (enName e))" using join_safe(2) [OF s(4,6)] .
qed

lemma setting_proper: "setting w root ts es \<Longrightarrow> e \<in> set es \<Longrightarrow> proper (ts @ split_at slash (enName e))"
  using join_safe(2) [of ts "enName e"] by (simp add: setting_def)

lemma take_of_butlast: "take k (butlast xs) = take (min k (length xs - 1)) xs"
  by (simp add: butlast_conv_take)

text \<open>\<^verbatim>\<open>MkdirAll\<close> of an entry's directory only makes missing directories on the way to it.\<close>

lemma mkdir_on_way:
  assumes s: "setting w root ts es" and e: "e \<in> set es"
    and m: "MkdirAll w can (if enDir e then dest_of ts e else path_Dir (dest_of ts e)) ns = (ok, ns1)"
  shows "mget ns1 p = mget ns p \<or> mget ns p = None \<and> mget ns1 p = Some NDir \<and> on_way ts es p"
proof -
  let ?xs = "ts @ split_at slash (enName e)"
  have p: "proper ?xs" using setting_proper [OF s] e by simp
  let ?ys = "if enDir e then ?xs else butlast ?xs"
  have ys: "proper ?ys" using p by (auto dest: in_set_butlastD intro: proper_subset [OF p])
  have m': "MkdirAll w can (abs_path ?ys) ns = (ok, ns1)"
    using m dir_abs [OF p] by (simp add: dest_of_def split: if_splits)
  have way: "on_way ts es (abs_path (take k ?ys))" for k
  proof -
    have "take k ?ys = take (if enDir e then k else min k (length ?xs - 1)) ?xs"
      using take_of_butlast [of k ?xs] by (simp del: take_append)
    then show ?thesis unfolding on_way_def using e by metis
  qed
  show ?thesis using MkdirAll_effect [OF m' ys, of p] way by blast
qed

lemma kind_dir: "kind_of n = Directory \<longleftrightarrow> n = NDir"
  by (cases n) simp_all

lemma mkdir_dest:
  assumes s: "setting w root ts es" and e: "e \<in> set es" "enDir e"
    and m: "MkdirAll w can (dest_of ts e) ns = (True, ns1)" and l: "sys_lstat w ns (dest_of ts e) \<notin> {StatRefused, Found SymLink}"
  shows "mget ns1 (dest_of ts e) = Some NDir"
proof -
  let ?xs = "ts @ split_at slash (enName e)"
  have p: "proper ?xs" using setting_proper [OF s] e by simp
  have "mkdir_all w can [] ?xs ns = (True, ns1)"
    using m p by (simp add: MkdirAll_def dest_of_def comps_abs_path)
  then have d: "sys_stat w ns1 (dest_of ts e) = Found Directory"
    using mkdir_all_last [of w can "[]" ?xs ns ns1] by (simp add: dest_of_def)
  have "mget ns1 (dest_of ts e) = mget ns (dest_of ts e) \<or> mget ns1 (dest_of ts e) = Some NDir"
    using mkdir_on_way [OF s e(1), of can ns True ns1 "dest_of ts e"] m e(2) by auto
  then show ?thesis
  proof
    assume "mget ns1 (dest_of ts e) = mget ns (dest_of ts e)"
    with d l show ?thesis
      by (auto simp: sys_stat_def sys_lstat_def kind_dir split: option.splits if_splits)
  qed
qed

lemma item_step:
  assumes s: "setting w root ts es" and inv: "extract_inv ts es ow ns0 items expected ns"
    and run: "extract_item w ca root (abs_path ts) ow t expected ns = (r, ns')"
  shows "case r of Inl x \<Rightarrow> frame_ok ts es ow ns0 expected ns'
    | Inr expected' \<Rightarrow> extract_inv ts es ow ns0 (t # items) expected' ns'"
proof -
  have frame: "frame_ok ts es ow ns0 expected ns" and exp: "expects es expected"
    and fin: "\<And>e. e \<in> set es \<Longrightarrow> mget expected (enName e) = None \<Longrightarrow> entry_done ts items ns e"
    using inv by (simp_all add: extract_inv_def)
  show ?thesis
  proof (cases "mget expected (trim_slash (tiName t))")
    case None
    then show ?thesis using run frame by (auto simp: extract_item_def Let_def)
  next
    case (Some e)
    then have e: "e \<in> set es" and name: "trim_slash (tiName t) = enName e" using exp by (auto simp: expects_def)
    show ?thesis
    proof (cases "item_matches t e")
      case False
      then show ?thesis using run frame Some by (auto simp: extract_item_def Let_def)
    next
      case match: True
      show ?thesis
      proof (cases "Resolve (paths_of w ns) root (path_Join (abs_path ts) (enName e))")
        case (Inl x)
        then show ?thesis using run frame Some match name by (auto simp: extract_item_def Let_def)
      next
        case (Inr d)
        note d = setting_dest [OF s e Inr]
        obtain ok ns1 where m: "MkdirAll w (caMkdir ca) (if enDir e then dest_of ts e else path_Dir (dest_of ts e)) ns = (ok, ns1)"
          by fastforce
        have way: "mget ns1 p = mget ns p \<or> mget ns p = None \<and> mget ns1 p = Some NDir \<and> on_way ts es p" for p
          using mkdir_on_way [OF s e m] .
        have frame1: "frame_ok ts es ow ns0 expected ns1" using frame_mkdir [OF frame way] .
        have done1: "entry_done ts items ns1 f" if "f \<in> set es" "mget expected (enName f) = None" for f
          using done_mkdir [OF fin [OF that]] way by blast
        have exp1: "expects es (mdel (enName e) expected)" using exp by (auto simp: expects_def gomap_simps)
        have rest: "f \<in> set es \<Longrightarrow> mget (mdel (enName e) expected) (enName f) = None \<Longrightarrow> f = e \<or> mget expected (enName f) = None \<and> enName f \<noteq> enName e" for f
          using s e by (cases "enName f = enName e") (auto simp: gomap_simps setting_def distinct_map inj_on_def)
        show ?thesis
        proof (cases ok)
          case False
          then have "r = Inl MkdirFailed" "ns' = ns1"
            using run Some match name Inr m d(1) by (auto simp: extract_item_def Let_def)
          with frame1 show ?thesis by simp
        next
          case ok: True
          show ?thesis
          proof (cases "enDir e")
            case True
            then have r: "r = Inr (mdel (enName e) expected)" "ns' = ns1"
              using run Some match name Inr m d(1) ok by (auto simp: extract_item_def Let_def)
            have "entry_done ts (t # items) ns1 e"
              using mkdir_dest [OF s e True _ d(2) [unfolded d(1)]] m True ok by (simp add: entry_done_def)
            then show ?thesis
              using r exp1 frame_drop [OF frame1] rest done1 by (auto simp: extract_inv_def intro: done_more)
          next
            case False
            obtain err ns2 where p: "place_file w ca root ow (dest_of ts e) (tiBody t) ns1 = (err, ns2)" by fastforce
            have run': "(r, ns') = (case err of Some x \<Rightarrow> (Inl x, ns2) | None \<Rightarrow> (Inr (mdel (enName e) expected), ns2))"
              using run Some match name Inr m d(1) ok False p by (simp add: extract_item_def Let_def split: option.splits)
            show ?thesis
            proof (cases err)
              case (Some x)
              then have "mget ns2 p = mget ns1 p" for p using place_file_effect(1) [OF p] by simp
              then have "frame_ok ts es ow ns0 expected ns2" using frame1 by (simp add: frame_ok_def)
              with run' Some show ?thesis by simp
            next
              case None
              have n2: "mget ns2 p = (if p = dest_of ts e then Some (NFile (the (tiBody t))) else mget ns1 p)" for p
                using place_file_effect(2) [OF p None] by simp
              have b: "tiBody t \<noteq> None" "ow \<or> mget ns1 (dest_of ts e) = None"
                using place_file_effect(2) [OF p None] by simp_all
              have "frame_ok ts es ow ns0 (mdel (enName e) expected) ns2"
                using frame_place [OF frame1 e False _ b(2)] n2 by simp
              moreover have "entry_done ts (t # items) ns2 e"
                using False b(1) name n2 by (auto simp: entry_done_def)
              moreover have "entry_done ts (t # items) ns2 f"
                if f: "f \<in> set es" "mget expected (enName f) = None" "enName f \<noteq> enName e" for f
              proof -
                have "dest_of ts f \<noteq> dest_of ts e" using dest_inj s e f by (auto simp: setting_def)
                with done_place [OF done1 [OF f(1,2)] this] n2 show ?thesis by (simp add: done_more)
              qed
              ultimately show ?thesis
                using run' None exp1 rest by (auto simp: extract_inv_def)
            qed
          qed
        qed
      qed
    qed
  qed
qed

lemma loop_effect:
  assumes "setting w root ts es" and "extract_inv ts es ow ns0 items0 expected ns"
    and "extract_loop w root (abs_path ts) ow fin items expected ns = (err, ns')"
  shows "(\<exists>expected'. frame_ok ts es ow ns0 expected' ns') \<and>
    (err = None \<longrightarrow> (\<forall>e \<in> set es. entry_done ts (rev (List.map_filter snd items) @ items0) ns' e))"
  using assms(2,3)
proof (induction items arbitrary: expected ns items0)
  case Nil
  then show ?case by (auto simp: extract_inv_def List.map_filter_simps split: if_splits)
next
  case (Cons i items)
  obtain ca item where i: "i = (ca, item)" by fastforce
  have frame: "frame_ok ts es ow ns0 expected ns" using Cons.prems(1) by (simp add: extract_inv_def)
  show ?case
  proof (cases "caCancelled ca \<or> item = None")
    case True
    then show ?thesis using Cons.prems(2) frame by (auto simp: i split: if_splits)
  next
    case False
    then obtain t where t: "item = Some t" by blast
    obtain r ns1 where x: "extract_item w ca root (abs_path ts) ow t expected ns = (r, ns1)" by fastforce
    note step = item_step [OF assms(1) Cons.prems(1) x]
    show ?thesis
    proof (cases r)
      case (Inl e)
      then show ?thesis using Cons.prems(2) False x t step by (auto simp: i)
    next
      case (Inr expected1)
      then have inv1: "extract_inv ts es ow ns0 (t # items0) expected1 ns1" using step by simp
      have "extract_loop w root (abs_path ts) ow fin items expected1 ns1 = (err, ns')"
        using Cons.prems(2) False x t Inr by (simp add: i)
      from Cons.IH [OF inv1 this] show ?thesis by (simp add: i t List.map_filter_simps)
    qed
  qed
qed

lemma expected_map:
  "mget (fold (\<lambda>e. mput (enName e) e) es m) n = Some e \<Longrightarrow> e \<in> set es \<and> enName e = n \<or> mget m n = Some e"
  "mget m n \<noteq> None \<or> (\<exists>e \<in> set es. enName e = n) \<Longrightarrow> mget (fold (\<lambda>e. mput (enName e) e) es m) n \<noteq> None"
proof (induction es arbitrary: m)
  case (Cons f es)
  {
    case 1
    then show ?case using Cons.IH(1) [of "mput (enName f) f m"] by (auto simp: gomap_simps split: if_splits)
  next
    case 2
    then show ?case using Cons.IH(2) [of "mput (enName f) f m"] by (auto simp: gomap_simps)
  }
qed auto

lemma Extract_cases:
  assumes "honest_sys w" and "Extract w ns root dir es ow opened items fin = Some (err, ns')"
  obtains "err \<noteq> None" and "ns' = ns"
  | ts where "Resolve (paths_of w ns) root dir = Inr (abs_path ts)" and "setting w root ts es"
      and "extract_loop w root (abs_path ts) ow fin items (fold (\<lambda>e. mput (enName e) e) es []) ns = (err, ns')"
proof -
  obtain pr where pr: "ProbeTarget w ns root dir es ow 0 = Some pr"
    using assms(2) by (auto simp: Extract_def split: option.splits)
  show ?thesis
  proof (cases "opened \<and> (\<exists>p. pr = Inr p) \<and> (\<exists>t. Resolve (paths_of w ns) root dir = Inr t)")
    case False
    then show ?thesis
      using that(1) assms(2) pr by (auto simp: Extract_def split: sum.splits if_splits)
  next
    case True
    then obtain p target where p: "pr = Inr p" and t: "Resolve (paths_of w ns) root dir = Inr target" by blast
    have "ValidateEntries es = Some None"
      using pr p by (auto simp: ProbeTarget_def split: option.splits)
    then have "manifest_ok es" using validate_spec by blast
    then have es: "\<forall>e \<in> set es. SafeName (enName e)" "distinct (map enName es)"
      by (auto simp: manifest_ok_def list_all_iff item_ok_def)
    obtain ps ts where k: "proper ps" "proper ts" "real_root (paths_of w ns) root = Some (abs_path ps)"
        "target = abs_path ts" "prefix ps ts"
      using resolve_ok [OF honest_paths [OF assms(1)] t] by metis
    have "setting w root ts es"
      unfolding setting_def using assms(1) es k(1-3) prefix_length_le [OF k(5)]
      by (simp only: simp_thms root_paths [of w ns]) (intro conjI exI [of _ ps]; simp)
    moreover have "extract_loop w root (abs_path ts) ow fin items (fold (\<lambda>e. mput (enName e) e) es []) ns = (err, ns')"
      using assms(2) pr p t True by (simp add: Extract_def k(4))
    ultimately show ?thesis using that(2) t k(4) by blast
  qed
qed

lemma extract_inv_start: "extract_inv ts es ow ns [] (fold (\<lambda>e. mput (enName e) e) es []) ns"
proof -
  have "expects es (fold (\<lambda>e. mput (enName e) e) es [])"
    unfolding expects_def by (intro allI impI) (drule expected_map(1), simp)
  moreover have "mget (fold (\<lambda>e. mput (enName e) e) es []) (enName e) \<noteq> None" if "e \<in> set es" for e
    using expected_map(2) [of "[]" "enName e" es] that by blast
  ultimately show ?thesis unfolding extract_inv_def frame_ok_def by blast
qed

section \<open>Properties\<close>


text \<open>C25: a successful extraction is complete: every directory of the manifest is there, and every file of
  the manifest is there with exactly the content an archive item of its name had.\<close>

theorem extract_complete:
  assumes "honest_sys w" and "Extract w ns root dir es ow opened items fin = Some (None, ns')" and "e \<in> set es"
  shows "\<exists>target. Resolve (paths_of w ns) root dir = Inr target \<and>
    (if enDir e then mget ns' (path_Join target (enName e)) = Some NDir
     else (\<exists>t bs. Some t \<in> snd ` set items \<and> trim_slash (tiName t) = enName e \<and> tiBody t = Some bs \<and>
             mget ns' (path_Join target (enName e)) = Some (NFile bs)))"
  using assms(1,2)
proof (cases rule: Extract_cases)
  case (2 ts)
  have d: "entry_done ts (rev (List.map_filter snd items) @ []) ns' e"
    using loop_effect [OF 2(2) extract_inv_start 2(3)] assms(3) by blast
  have j: "path_Join (abs_path ts) (enName e) = dest_of ts e"
    using 2(2) join_safe [of ts "enName e"] assms(3) by (simp_all add: setting_def dest_of_def)
  have item: "Some t \<in> snd ` set items" if "t \<in> set (rev (List.map_filter snd items) @ [])" for t
    using that by (force simp: List.map_filter_def)
  show ?thesis
  proof (intro exI [of _ "abs_path ts"] conjI 2(1), cases "enDir e")
    case True
    with d show "if enDir e then mget ns' (path_Join (abs_path ts) (enName e)) = Some NDir
        else (\<exists>t bs. Some t \<in> snd ` set items \<and> trim_slash (tiName t) = enName e \<and> tiBody t = Some bs \<and>
          mget ns' (path_Join (abs_path ts) (enName e)) = Some (NFile bs))"
      by (simp add: entry_done_def j)
  next
    case False
    with d obtain t bs where "t \<in> set (rev (List.map_filter snd items) @ [])" "trim_slash (tiName t) = enName e"
        "tiBody t = Some bs" "mget ns' (dest_of ts e) = Some (NFile bs)"
      unfolding entry_done_def by (simp only: if_False) blast
    with False item show "if enDir e then mget ns' (path_Join (abs_path ts) (enName e)) = Some NDir
        else (\<exists>t bs. Some t \<in> snd ` set items \<and> trim_slash (tiName t) = enName e \<and> tiBody t = Some bs \<and>
          mget ns' (path_Join (abs_path ts) (enName e)) = Some (NFile bs))"
      unfolding j by (simp only: if_False) blast
  qed
qed simp

definition sample_sys :: sys where
  "sample_sys =
     \<lparr>syAbs = \<lambda>s. if IsAbs s then Some (path_Clean s) else None, syEval = \<lambda>s. Some ''/'', syRefuses = \<lambda>_. False,
      syFollow = \<lambda>_. NotExist, syWritable = \<lambda>_. True, syCreates = \<lambda>_. True, syRemoves = True,
      syFree = \<lambda>_. None\<rparr>"

definition sample_calls :: calls where
  "sample_calls = \<lparr>caCancelled = False, caMkdir = \<lambda>_. True, caTemp = Some ''x'', caWrite = True, caRename = True\<rparr>"

definition sample_entry :: entry where
  "sample_entry = \<lparr>enName = ''a'', enSize = 1, enDir = False, enMode = 0\<rparr>"

definition sample_item :: tar_item where
  "sample_item = \<lparr>tiName = ''a'', tiSize = 1, tiKind = TypeReg, tiBody = Some [7]\<rparr>"

lemma clean_clean: "IsAbs s \<Longrightarrow> IsAbs (path_Clean s) \<and> path_Clean (path_Clean s) = path_Clean s"
  by (metis IsAbs_abs_path clean_abs_eq clean_abs_path clean_comps_abs)

lemma sample_sys_honest: "honest_sys sample_sys"
proof -
  have "IsAbs ''/''" "path_Clean ''/'' = ''/''" by (simp_all add: path_Clean_def clean_comps_def)
  then show ?thesis
    using clean_clean by (auto simp: honest_sys_def honest_def clean_answers_def paths_of_def sample_sys_def split: if_splits)
qed

abbreviation root_only :: nodes where
  "root_only \<equiv> [(''/'', NDir)]"

lemma sample_valid: "ValidateEntries [sample_entry] = Some None"
proof -
  have "SafeName ''a''" by (simp add: safe_name_spec safe_components_def plain_def)
  then have "manifest_ok [sample_entry]"
    by (simp add: manifest_ok_def sample_entry_def MaxEntries_def item_ok_def max_bytes_def)
  then show ?thesis using validate_spec by blast
qed

lemma sample_resolves:
  "Resolve (paths_of sample_sys root_only) [] ''/t'' = Inr ''/t''"
  "Resolve (paths_of sample_sys root_only) [] ''/t/a'' = Inr ''/t/a''"
  "Resolve (paths_of sample_sys [(''/'', NDir), (''/t'', NDir)]) [] ''/t/a'' = Inr ''/t/a''"
  "Resolve (paths_of sample_sys [(''/'', NDir), (''/t'', NDir), (''/t/x'', NFile [7])]) [] ''/t/a'' = Inr ''/t/a''"
  by code_simp+

lemma sample_parents:
  "existing_parent (sys_stat sample_sys root_only) ''/t'' = Some (Inr ''/'')"
  "statable_parent (sys_stat sample_sys root_only) ''/t'' = Some ''/''"
proof -
  have d: "path_Dir ''/t'' = ''/''" "sys_stat sample_sys root_only ''/t'' = NotExist"
    "sys_stat sample_sys root_only ''/'' = Found Directory"
    by code_simp+
  show "existing_parent (sys_stat sample_sys root_only) ''/t'' = Some (Inr ''/'')"
    by (subst existing_parent.simps, subst existing_parent.simps) (simp add: d)
  show "statable_parent (sys_stat sample_sys root_only) ''/t'' = Some ''/''"
    by (subst statable_parent.simps, subst statable_parent.simps) (simp add: d)
qed

lemma sample_probe:
  "ProbeTarget sample_sys root_only [] ''/t'' [sample_entry] ow 0 =
   Some (Inr \<lparr>pbReady = True, pbTarget = ''/t'', pbWarnings = [], pbBytes = 1\<rparr>)"
proof -
  have j: "path_Join ''/t'' ''a'' = ''/t/a''" "path_Dir ''/t/a'' = ''/t''"
    "sys_lstat sample_sys root_only ''/t/a'' = NotExist" "wrap64 1 = 1"
    by code_simp+
  show ?thesis
    by (simp add: ProbeTarget_def sample_valid sample_resolves probe_dest_def probe_parent_def sample_parents j
        sample_entry_def [THEN arg_cong, of enName] sample_entry_def [THEN arg_cong, of enDir]
        sample_entry_def [THEN arg_cong, of enSize])
      (simp add: sample_sys_def)
qed

lemma sample_extract:
  "Extract sample_sys root_only [] ''/t'' [sample_entry] False True [(sample_calls, Some sample_item)] False =
   Some (None, [(''/'', NDir), (''/t'', NDir), (''/t/a'', NFile [7])])"
proof -
  have "extract_loop sample_sys [] ''/t'' False False [(sample_calls, Some sample_item)] [(''a'', sample_entry)] root_only =
      (None, [(''/'', NDir), (''/t'', NDir), (''/t/a'', NFile [7])])"
    by code_simp
  moreover have "fold (\<lambda>e. mput (enName e) e) [sample_entry] [] = [(''a'', sample_entry)]"
    by (simp add: sample_entry_def)
  ultimately show ?thesis
    by (simp add: Extract_def sample_probe sample_resolves del: extract_loop.simps fold_simps)
qed


theorem extract_complete_witness:
  "mget [(''/'', NDir), (''/t'', NDir), (''/t/a'', NFile [7])] (path_Join ''/t'' ''a'') = Some (NFile [7])"
  using extract_complete [OF sample_sys_honest sample_extract, of sample_entry] sample_resolves(1)
  by (auto simp: sample_entry_def sample_item_def)

section \<open>The probe\<close>

text \<open>Both searches for a parent end, at the latest at the root directory.\<close>

lemma existing_parent_returns: "proper xs \<Longrightarrow> existing_parent stat (abs_path xs) \<noteq> None"
proof (induction xs rule: rev_induct)
  case Nil
  have "path_Dir (abs_path []) = abs_path []" using dir_abs [of "[]"] by simp
  then show ?case by (subst existing_parent.simps) (simp split: stat_result.splits)
next
  case (snoc x xs)
  then show ?case
    using dir_abs [of "xs @ [x]"] by (subst existing_parent.simps) (simp split: stat_result.splits)
qed

lemma statable_parent_returns:
  "proper xs \<Longrightarrow> stat ''/'' = Found k \<Longrightarrow>
   \<exists>q k. statable_parent stat (abs_path xs) = Some q \<and> stat q = Found k"
proof (induction xs rule: rev_induct)
  case Nil
  then show ?case by (subst statable_parent.simps) (simp add: abs_path_def)
next
  case (snoc x xs)
  then show ?case
    using dir_abs [of "xs @ [x]"] by (subst statable_parent.simps) (simp split: stat_result.splits)
qed

text \<open>What the probe promises of one destination.\<close>

definition dest_clear :: "sys \<Rightarrow> nodes \<Rightarrow> bool \<Rightarrow> entry \<Rightarrow> string \<Rightarrow> bool" where
  "dest_clear w ns ow e d \<longleftrightarrow>
     (case sys_lstat w ns d of
        NotExist \<Rightarrow> True
      | StatRefused \<Rightarrow> False
      | Found k \<Rightarrow> if enDir e then k = Directory else k \<noteq> Directory \<and> ow \<and> syWritable w d)"

lemma probe_dest_clear: "probe_dest w ns ow e d warns = Inr warns' \<Longrightarrow> dest_clear w ns ow e d"
  by (auto simp: probe_dest_def dest_clear_def split: stat_result.splits if_splits)

lemma probe_items_spec:
  assumes s: "setting w root ts es0" and "set es \<subseteq> set es0" and "list_all item_ok es"
    and "0 \<le> bytes" and "bytes + sum_list (map enSize es) \<le> max_bytes"
  shows "\<exists>r. probe_items w ns root (abs_path ts) ow es bytes warns checked = Some r \<and>
    (\<forall>b warns'. r = Inr (b, warns') \<longrightarrow> b = bytes + sum_list (map enSize es) \<and>
       (\<forall>e \<in> set es. dest_clear w ns ow e (dest_of ts e)))"
  using assms(2-)
proof (induction es arbitrary: bytes warns checked)
  case (Cons e es)
  have e: "e \<in> set es0" "item_ok e" using Cons.prems by simp_all
  have rest: "0 \<le> sum_list (map enSize es)"
    using Cons.prems(2) by (intro sum_list_nonneg) (auto simp: list_all_iff item_ok_def)
  show ?case
  proof (cases "Resolve (paths_of w ns) root (path_Join (abs_path ts) (enName e))")
    case (Inr d)
    note d = setting_dest [OF s e(1) Inr]
    show ?thesis
    proof (cases "probe_dest w ns ow e d warns")
      case warns: (Inr warns')
      have "(if enDir e then d else path_Dir d) =
          abs_path (if enDir e then ts @ split_at slash (enName e) else butlast (ts @ split_at slash (enName e)))"
        using d(1) dir_abs [OF d(3)] by (simp add: dest_of_def)
      then have "\<exists>xs. proper xs \<and> (if enDir e then d else path_Dir d) = abs_path xs"
        using d(3) proper_butlast [OF d(3)] by metis
      then obtain r where r: "existing_parent (sys_stat w ns) (if enDir e then d else path_Dir d) = Some r"
        using existing_parent_returns by (metis not_None_eq)
      show ?thesis
      proof (cases "probe_parent w ns checked (if enDir e then d else path_Dir d)")
        case None
        with r show ?thesis by (auto simp: probe_parent_def split: sum.splits)
      next
        case (Some q)
        show ?thesis
        proof (cases q)
          case (Inl x)
          then show ?thesis using Inr warns Some by simp
        next
          case checked: (Inr checked')
          let ?b = "if enDir e then bytes else wrap64 (bytes + enSize e)"
          have b: "?b = bytes + enSize e"
            using Cons.prems e(2) rest wrap64_small [of bytes "enSize e"] by (auto simp: item_ok_def)
          have "\<exists>r. probe_items w ns root (abs_path ts) ow es ?b warns' checked' = Some r \<and>
              (\<forall>b warns'. r = Inr (b, warns') \<longrightarrow> b = ?b + sum_list (map enSize es) \<and>
                 (\<forall>e \<in> set es. dest_clear w ns ow e (dest_of ts e)))"
            using Cons.prems e(2) unfolding b by (intro Cons.IH) (auto simp: item_ok_def)
          then show ?thesis
            using Inr warns Some checked b probe_dest_clear [OF warns] d(1) by auto
        qed
      qed
    qed (use Inr in simp)
  qed simp
qed simp

text \<open>The probe of a destination always ends, and it says ready only when extraction has a clear way:
  the manifest is sound, the target resolves inside the root, every destination is free or a directory
  where one is wanted or a writable file that may be overwritten, and the free space, if it is known,
  holds the files and the extra bytes. The bytes reported are the sum of the file sizes.\<close>

theorem probe_sound:
  assumes "honest_sys w" and "sys_stat w ns ''/'' = Found Directory"
  shows "\<exists>r. ProbeTarget w ns root dir es ow extra = Some r \<and>
    (\<forall>p. r = Inr p \<longrightarrow> pbReady p \<and> manifest_ok es \<and> Resolve (paths_of w ns) root dir = Inr (pbTarget p) \<and>
       pbBytes p = sum_list (map enSize es) \<and>
       (\<forall>e \<in> set es. dest_clear w ns ow e (path_Join (pbTarget p) (enName e))) \<and>
       (\<exists>parent k. sys_stat w ns parent = Found k \<and>
          (\<forall>free. syFree w parent = Some free \<longrightarrow> wrap64 (pbBytes p + extra) mod 2 ^ 64 \<le> free)))"
proof (cases "ValidateEntries es")
  case None
  then show ?thesis using validate_spec by blast
next
  case (Some v)
  show ?thesis
  proof (cases "v = None \<and> (\<exists>t. Resolve (paths_of w ns) root dir = Inr t)")
    case False
    then have "\<exists>x. ProbeTarget w ns root dir es ow extra = Some (Inl x)"
      using Some by (auto simp: ProbeTarget_def split: sum.splits option.splits)
    then show ?thesis by auto
  next
    case True
    then obtain target where v: "v = None" and t: "Resolve (paths_of w ns) root dir = Inr target" by blast
    have m: "manifest_ok es" using Some v validate_spec by blast
    then have ok: "list_all item_ok es" "sum_list (map enSize es) \<le> max_bytes"
      and es: "\<forall>e \<in> set es. SafeName (enName e)" "distinct (map enName es)"
      by (auto simp: manifest_ok_def list_all_iff item_ok_def)
    obtain ps ts where k: "proper ps" "proper ts" "real_root (paths_of w ns) root = Some (abs_path ps)"
        "target = abs_path ts" "prefix ps ts"
      using resolve_ok [OF honest_paths [OF assms(1)] t] by metis
    have s: "setting w root ts es"
      unfolding setting_def using assms(1) es k(1-3) prefix_length_le [OF k(5)]
      by (simp only: simp_thms root_paths [of w ns]) (intro conjI exI [of _ ps]; simp)
    obtain r where r: "probe_items w ns root target ow es 0 [] [] = Some r"
        and spec: "\<And>b warns. r = Inr (b, warns) \<Longrightarrow> b = sum_list (map enSize es) \<and>
          (\<forall>e \<in> set es. dest_clear w ns ow e (dest_of ts e))"
      using probe_items_spec [OF s order_refl ok(1), of 0 ns ow "[]" "[]"] ok(2) k(4) by auto
    obtain q kq where q: "statable_parent (sys_stat w ns) target = Some q" "sys_stat w ns q = Found kq"
      using statable_parent_returns [of ts "sys_stat w ns", OF k(2) assms(2)] k(4) by blast
    have dest: "path_Join target (enName e) = dest_of ts e" if "e \<in> set es" for e
      using join_safe [of ts "enName e"] k(2,4) es(1) that by (simp add: dest_of_def)
    show ?thesis
    proof (cases r)
      case (Inl x)
      then have "ProbeTarget w ns root dir es ow extra = Some (Inl x)"
        using Some v t r by (simp add: ProbeTarget_def)
      then show ?thesis by simp
    next
      case (Inr bw)
      then obtain b warns where b: "r = Inr (b, warns)" by (cases bw) simp
      note sp = spec [OF b]
      have p: "ProbeTarget w ns root dir es ow extra =
          Some (case syFree w q of
             Some free \<Rightarrow> if free < wrap64 (b + extra) mod 2 ^ 64 then Inl NoSpace
               else Inr \<lparr>pbReady = True, pbTarget = target, pbWarnings = warns, pbBytes = b\<rparr>
           | None \<Rightarrow> Inr \<lparr>pbReady = True, pbTarget = target, pbWarnings = warns, pbBytes = b\<rparr>)"
        using Some v t r b q(1) by (simp add: ProbeTarget_def)
      show ?thesis
        unfolding p using m t sp dest q(2) by (auto split: option.splits)
    qed
  qed
qed

theorem probe_sound_witness:
  "manifest_ok [sample_entry] \<and> dest_clear sample_sys root_only False sample_entry ''/t/a''"
proof -
  have "sys_stat sample_sys root_only ''/'' = Found Directory" "path_Join ''/t'' ''a'' = ''/t/a''"
    by code_simp+
  then show ?thesis
    using probe_sound [OF sample_sys_honest, of root_only "[]" "''/t''" "[sample_entry]" False 0]
    by (auto simp: sample_probe) (simp add: sample_entry_def)
qed

section \<open>CopyContext\<close>

text \<open>One round: cancelled before it, the bytes read and how the read ended, the bytes written and whether
  the write failed. The outcome is the total, the bytes written and why the loop ended.\<close>

datatype read_end = ReadMore | ReadEOF | ReadFailed

datatype copy_end = CopyDone | CopyCancelled | CopyWriteError | CopyShort | CopyReadError

record copy_round =
  crCancelled :: bool
  crBytes :: "byte list"
  crEnd :: read_end
  crWritten :: nat
  crWriteErr :: bool

fun CopyContext :: "copy_round list \<Rightarrow> byte list \<Rightarrow> (copy_end \<times> byte list) option" where
  "CopyContext [] out = None"
| "CopyContext (c # cs) out =
     (if crCancelled c then Some (CopyCancelled, out)
      else
        (let out1 = (if crBytes c = [] then out else out @ take (crWritten c) (crBytes c))
         in if crBytes c \<noteq> [] \<and> crWriteErr c then Some (CopyWriteError, out1)
            else if crBytes c \<noteq> [] \<and> crWritten c \<noteq> length (crBytes c) then Some (CopyShort, out1)
            else
              (case crEnd c of
                 ReadEOF \<Rightarrow> Some (CopyDone, out1)
               | ReadFailed \<Rightarrow> Some (CopyReadError, out1)
               | ReadMore \<Rightarrow> CopyContext cs out1)))"

text \<open>A copy that reports success wrote every byte it read, in order.\<close>

lemma copy_whole:
  "CopyContext cs out = Some (CopyDone, out') \<Longrightarrow> \<exists>n. out' = out @ concat (map crBytes (take n cs))"
proof (induction cs arbitrary: out)
  case (Cons c cs)
  let ?out = "if crBytes c = [] then out else out @ take (crWritten c) (crBytes c)"
  have whole: "?out = out @ crBytes c" if "crBytes c \<noteq> [] \<longrightarrow> crWritten c = length (crBytes c)"
    using that by simp
  show ?case
  proof (cases "crEnd c = ReadMore")
    case True
    have "CopyContext cs (out @ crBytes c) = Some (CopyDone, out')"
      using Cons.prems True whole by (auto simp: Let_def split: if_splits)
    then obtain n where "out' = (out @ crBytes c) @ concat (map crBytes (take n cs))" using Cons.IH by blast
    then show ?thesis by (intro exI [of _ "Suc n"]) simp
  next
    case False
    then have "out' = out @ crBytes c"
      using Cons.prems by (auto simp: Let_def split: if_splits read_end.splits)
    then show ?thesis by (intro exI [of _ 1]) simp
  qed
qed simp

section \<open>Prepare\<close>

text \<open>What \<^verbatim>\<open>filepath.WalkDir\<close> and the calls made for one visited path return.\<close>

record visit =
  viWalkErr :: bool
  viCancelled :: bool
  viInfoErr :: bool
  viKind :: file_kind
  viRel :: string
  viSize :: int
  viMode :: int
  viHeader :: bool
  viBody :: "byte list option"

datatype prepare_error =
    PrepAbs | PrepStat | PrepLink | PrepName | PrepKind | PrepTemp | PrepCreate
  | PrepWalk | PrepCancelled | PrepSpecial | PrepPath | PrepCount | PrepWrite | PrepClose

definition entry_of :: "visit \<Rightarrow> entry" where
  "entry_of v =
     \<lparr>enName = viRel v, enSize = (if viKind v = Directory then 0 else viSize v), enDir = (viKind v = Directory),
      enMode = viMode v\<rparr>"

text \<open>\<^verbatim>\<open>tar.FileInfoHeader\<close> sets the size of regular files only; the name is the relative path.\<close>

definition item_of :: "visit \<Rightarrow> tar_item" where
  "item_of v =
     \<lparr>tiName = viRel v, tiSize = (if viKind v = Directory then 0 else viSize v),
      tiKind = (if viKind v = Directory then TypeDir else TypeReg),
      tiBody = (if viKind v = Directory then Some [] else viBody v)\<rparr>"

definition prepare_visit :: "visit \<Rightarrow> entry list \<times> tar_item list \<Rightarrow> prepare_error + entry list \<times> tar_item list" where
  "prepare_visit v st =
     (if viWalkErr v then Inl PrepWalk
      else if viCancelled v then Inl PrepCancelled
      else if viInfoErr v then Inl PrepWalk
      else if viKind v \<noteq> Directory \<and> viKind v \<noteq> RegularFile then Inl PrepSpecial
      else if \<not> SafeName (viRel v) then Inl PrepPath
      else if MaxEntries \<le> length (fst st) then Inl PrepCount
      else if \<not> viHeader v then Inl PrepWrite
      else if viKind v \<noteq> Directory \<and> viBody v = None then Inl PrepWrite
      else Inr (fst st @ [entry_of v], snd st @ [item_of v]))"

fun prepare_walk :: "visit list \<Rightarrow> entry list \<times> tar_item list \<Rightarrow> prepare_error + entry list \<times> tar_item list" where
  "prepare_walk [] st = Inr st"
| "prepare_walk (v # vs) st = (case prepare_visit v st of Inl x \<Rightarrow> Inl x | Inr st1 \<Rightarrow> prepare_walk vs st1)"

record prepared =
  ppName :: string
  ppArchive :: bool
  ppEntries :: "entry list"
  ppItems :: "tar_item list"
  ppCleanup :: bool

text \<open>\<open>info\<close>: what \<^verbatim>\<open>Lstat\<close> said of the source (name, kind, size, mode). The second result says whether a
  temporary directory is left behind.\<close>

definition Prepare ::
  "bool \<Rightarrow> (string \<times> file_kind \<times> int \<times> int) option \<Rightarrow> bool \<Rightarrow> bool \<Rightarrow> visit list \<Rightarrow> bool \<Rightarrow> (prepare_error + prepared) \<times> bool" where
  "Prepare abs_ok info mkdir_ok create_ok visits close_ok =
     (if \<not> abs_ok then (Inl PrepAbs, False)
      else
        (case info of
           None \<Rightarrow> (Inl PrepStat, False)
         | Some (name, kind, sz, mode) \<Rightarrow>
             if kind = SymLink then (Inl PrepLink, False)
             else if \<not> SafeName name then (Inl PrepName, False)
             else if kind = RegularFile then
               (Inr \<lparr>ppName = name, ppArchive = False,
                     ppEntries = [\<lparr>enName = name, enSize = sz, enDir = False, enMode = mode\<rparr>], ppItems = [],
                     ppCleanup = False\<rparr>, False)
             else if kind \<noteq> Directory then (Inl PrepKind, False)
             else if \<not> mkdir_ok then (Inl PrepTemp, False)
             else if \<not> create_ok then (Inl PrepCreate, False)
             else
               (case prepare_walk visits ([], []) of
                  Inl x \<Rightarrow> (Inl x, False)
                | Inr (es, items) \<Rightarrow>
                    if \<not> close_ok then (Inl PrepClose, False)
                    else (Inr \<lparr>ppName = name, ppArchive = True, ppEntries = es, ppItems = items, ppCleanup = True\<rparr>, True))))"

lemma prepare_walk_result:
  "prepare_walk vs (es, ar) = Inr (es', ar') \<Longrightarrow> length es \<le> MaxEntries \<Longrightarrow>
   es' = es @ map entry_of vs \<and> ar' = ar @ map item_of vs \<and> length es' \<le> MaxEntries \<and>
   list_all (\<lambda>v. SafeName (viRel v) \<and> (viKind v = Directory \<or> viBody v \<noteq> None)) vs"
proof (induction vs arbitrary: es ar)
  case (Cons v vs)
  from Cons.prems have step: "prepare_visit v (es, ar) = Inr (es @ [entry_of v], ar @ [item_of v])"
    and walk: "prepare_walk vs (es @ [entry_of v], ar @ [item_of v]) = Inr (es', ar')"
    and ok: "length es < MaxEntries" "SafeName (viRel v)" "viKind v = Directory \<or> viBody v \<noteq> None"
    by (auto simp: prepare_visit_def split: if_splits)
  have "length (es @ [entry_of v]) \<le> MaxEntries" using ok(1) by simp
  from Cons.IH [OF walk this] ok(2,3) show ?case by auto
qed simp

text \<open>What \<^verbatim>\<open>WalkDir\<close> promises of the visited paths: each once, and only directories have paths below.\<close>

definition walk_order :: "visit list \<Rightarrow> bool" where
  "walk_order vs \<longleftrightarrow>
     distinct (map viRel vs) \<and>
     (\<forall>v \<in> set vs. \<forall>u \<in> set vs.
        strict_prefix (split_at slash (viRel u)) (split_at slash (viRel v)) \<longrightarrow> viKind u = Directory)"

lemma no_trailing_slash: "SafeName n \<Longrightarrow> trim_slash n = n"
proof -
  assume n: "SafeName n"
  have "last n \<noteq> slash" if "n \<noteq> []"
  proof
    assume "last n = slash"
    then have "n = butlast n @ slash # []" using that by (metis append_butlast_last_id)
    then have "split_at slash n = split_at slash (butlast n) @ [[]]"
      using split_at_append [of slash "butlast n" "[]"] by simp
    with n show False by (simp add: safe_name_spec safe_components_def plain_def)
  qed
  then show "trim_slash n = n" by (auto simp: trim_slash_def)
qed

text \<open>C27: what the sender packs, the receiver accepts: if a directory was prepared and its files are within
  the size limits, the manifest passes the receiver's check, it lists every visited path once, and the
  archive has for each entry, in order, an item that matches it.\<close>

theorem prepare_accepted:
  assumes "Prepare abs_ok info mkdir_ok create_ok vs close_ok = (Inr p, left)" and "ppArchive p"
    and "vs \<noteq> []" and "walk_order vs"
    and "\<forall>v \<in> set vs. 0 \<le> viSize v \<and> viSize v \<le> max_bytes" and "sum_list (map enSize (ppEntries p)) \<le> max_bytes"
  shows "ValidateEntries (ppEntries p) = Some None \<and> map enName (ppEntries p) = map viRel vs \<and>
    list_all2 (\<lambda>t e. item_matches t e \<and> trim_slash (tiName t) = enName e \<and> tiBody t \<noteq> None) (ppItems p) (ppEntries p)"
proof -
  have "prepare_walk vs ([], []) = Inr (ppEntries p, ppItems p)"
    using assms(1,2) by (auto simp: Prepare_def split: if_splits option.splits sum.splits)
  from prepare_walk_result [OF this]
  have es: "ppEntries p = map entry_of vs" "ppItems p = map item_of vs" "length vs \<le> MaxEntries"
    and safe: "list_all (\<lambda>v. SafeName (viRel v) \<and> (viKind v = Directory \<or> viBody v \<noteq> None)) vs"
    by auto
  have nm: "enName (entry_of v) = viRel v" "enDir (entry_of v) \<longleftrightarrow> viKind v = Directory" for v
    by (simp_all add: entry_of_def)
  have "list_all item_ok (ppEntries p)"
    using safe assms(5) by (auto simp: es(1) list_all_iff item_ok_def entry_of_def max_bytes_def)
  moreover have "distinct (map enName (ppEntries p))"
    using assms(4) by (simp add: es(1) walk_order_def comp_def nm)
  moreover have "\<forall>e \<in> set (ppEntries p). \<forall>f \<in> set (ppEntries p).
      strict_prefix (split_at slash (enName f)) (split_at slash (enName e)) \<longrightarrow> enDir f"
    using assms(4) by (simp add: es(1) walk_order_def nm)
  ultimately have "manifest_ok (ppEntries p)"
    using assms(3,6) es(3) by (simp only: manifest_ok_def simp_thms) (simp add: es(1))
  then have "ValidateEntries (ppEntries p) = Some None" using validate_spec by blast
  moreover have "list_all2 (\<lambda>t e. item_matches t e \<and> trim_slash (tiName t) = enName e \<and> tiBody t \<noteq> None) (ppItems p) (ppEntries p)"
    using safe
    by (auto simp: es list_all2_map1 list_all2_map2 list_all_iff item_matches_def item_of_def entry_of_def no_trailing_slash
        intro!: list.rel_refl_strong)
  ultimately show ?thesis by (simp add: es(1) comp_def nm)
qed

definition sample_visit :: visit where
  "sample_visit =
     \<lparr>viWalkErr = False, viCancelled = False, viInfoErr = False, viKind = Directory, viRel = ''a'', viSize = 0,
      viMode = 0, viHeader = True, viBody = None\<rparr>"

theorem prepare_accepted_witness: "ValidateEntries [entry_of sample_visit] = Some None"
proof -
  have "SafeName ''a''" by (simp add: safe_name_spec safe_components_def plain_def)
  then have "Prepare True (Some (''a'', Directory, 0, 0)) True True [sample_visit] True =
      (Inr \<lparr>ppName = ''a'', ppArchive = True, ppEntries = [entry_of sample_visit], ppItems = [item_of sample_visit],
        ppCleanup = True\<rparr>, True)"
    by (simp add: Prepare_def prepare_visit_def sample_visit_def MaxEntries_def)
  from prepare_accepted [OF this] show ?thesis
    by (simp add: walk_order_def sample_visit_def entry_of_def max_bytes_def)
qed

end
