(* ===== verification/FileName.thy ===== *)
theory FileName
  imports SafePath
begin

text \<open>
  File names received from a sender (\<^verbatim>\<open>pkg/gosilver/path.go\<close>): the cleaning that makes a name valid on
  every system, and the path a library client saves to. Names are the bytes of valid UTF-8 text, on
  which \<^verbatim>\<open>strings.Map\<close> and \<^verbatim>\<open>TrimRight\<close> only touch ASCII; \<^verbatim>\<open>ToUpper\<close> is written for ASCII, because no
  other letter has an upper case that occurs in a reserved name.
\<close>

definition forbidden_char :: "char \<Rightarrow> bool" where
  "forbidden_char c \<longleftrightarrow>
     c \<in> {CHR 0x5C, CHR ''/'', CHR '':'', CHR ''*'', CHR ''?'', CHR 0x22, CHR ''<'', CHR ''>'', CHR ''|''} \<or>
     (of_char c :: nat) < 0x20"

definition trim_end :: "string \<Rightarrow> string" where
  "trim_end s = rev (dropWhile (\<lambda>c. c = CHR '' '' \<or> c = CHR ''.'') (rev s))"

definition to_upper :: "char \<Rightarrow> char" where
  "to_upper c = (if 97 \<le> (of_char c :: nat) \<and> (of_char c :: nat) \<le> 122 then char_of (of_char c - 32 :: nat) else c)"

definition reserved_names :: "string list" where
  "reserved_names =
     [''CON'', ''PRN'', ''AUX'', ''NUL'',
      ''COM1'', ''COM2'', ''COM3'', ''COM4'', ''COM5'', ''COM6'', ''COM7'', ''COM8'', ''COM9'',
      ''LPT1'', ''LPT2'', ''LPT3'', ''LPT4'', ''LPT5'', ''LPT6'', ''LPT7'', ''LPT8'', ''LPT9'']"

text \<open>The part before the first dot, the whole name without one.\<close>

definition stem :: "string \<Rightarrow> string" where
  "stem s = takeWhile (\<lambda>c. c \<noteq> CHR ''.'') s"

definition reserved :: "string \<Rightarrow> bool" where
  "reserved s \<longleftrightarrow> map to_upper (stem s) \<in> set reserved_names"

definition SanitizeFileName :: "string \<Rightarrow> string" where
  "SanitizeFileName raw =
     (let name = trim_end (map (\<lambda>c. if forbidden_char c then CHR ''_'' else c) raw)
      in if name = [] then ''download'' else if reserved name then CHR ''_'' # name else name)"

text \<open>\<open>exe\<close>: where the program lies, if the system says.\<close>

definition defaultSaveDir :: "string option \<Rightarrow> string" where
  "defaultSaveDir exe =
     (case exe of Some e \<Rightarrow> path_Join (path_Dir e) ''GoSilverDownloads'' | None \<Rightarrow> ''GoSilverDownloads'')"

definition resolveSavePath :: "string option \<Rightarrow> (string \<Rightarrow> bool) \<Rightarrow> string \<Rightarrow> string \<Rightarrow> string option" where
  "resolveSavePath exe mkdir saveDir rawName =
     (let dir = if saveDir = [] then defaultSaveDir exe else saveDir
      in if \<not> mkdir dir then None else Some (path_Join dir (SanitizeFileName rawName)))"

section \<open>A name every system takes\<close>

definition file_name_ok :: "string \<Rightarrow> bool" where
  "file_name_ok s \<longleftrightarrow>
     s \<noteq> [] \<and> list_all (\<lambda>c. \<not> forbidden_char c) s \<and> last s \<noteq> CHR '' '' \<and> last s \<noteq> CHR ''.'' \<and> \<not> reserved s"

lemma trim_end_id: "s \<noteq> [] \<Longrightarrow> last s \<noteq> CHR '' '' \<Longrightarrow> last s \<noteq> CHR ''.'' \<Longrightarrow> trim_end s = s"
  by (cases s rule: rev_cases) (simp_all add: trim_end_def)

lemma trim_end_last:
  assumes "trim_end s \<noteq> []"
  shows "last (trim_end s) \<noteq> CHR '' '' \<and> last (trim_end s) \<noteq> CHR ''.''"
proof -
  have "dropWhile (\<lambda>c. c = CHR '' '' \<or> c = CHR ''.'') (rev s) \<noteq> []" using assms by (simp add: trim_end_def)
  from hd_dropWhile [OF this] show ?thesis using assms by (simp add: trim_end_def last_rev)
qed

lemma trim_end_set: "set (trim_end s) \<subseteq> set s"
  by (auto simp: trim_end_def dest: set_dropWhileD)

lemma underscore: "\<not> forbidden_char CHR ''_''" "to_upper CHR ''_'' = CHR ''_''"
  by (simp_all add: forbidden_char_def to_upper_def)

lemma underscore_not_reserved: "\<not> reserved (CHR ''_'' # s)"
  by (simp add: reserved_def stem_def underscore reserved_names_def)

lemma map_id_allowed: "list_all (\<lambda>c. \<not> forbidden_char c) s \<Longrightarrow> map (\<lambda>c. if forbidden_char c then CHR ''_'' else c) s = s"
  by (induction s) auto

lemma sanitize_ok: "file_name_ok (SanitizeFileName raw)"
proof -
  let ?name = "trim_end (map (\<lambda>c. if forbidden_char c then CHR ''_'' else c) raw)"
  have allowed: "list_all (\<lambda>c. \<not> forbidden_char c) ?name"
    using trim_end_set [of "map (\<lambda>c. if forbidden_char c then CHR ''_'' else c) raw"]
    by (auto simp: list_all_iff underscore dest!: subsetD)
  have d: "file_name_ok ''download''"
    by (simp add: file_name_ok_def forbidden_char_def reserved_def stem_def to_upper_def reserved_names_def)
  show ?thesis
    using allowed trim_end_last [of "map (\<lambda>c. if forbidden_char c then CHR ''_'' else c) raw"] d
    by (auto simp: SanitizeFileName_def Let_def file_name_ok_def underscore underscore_not_reserved)
qed

lemma sanitize_fixed: "file_name_ok s \<Longrightarrow> SanitizeFileName s = s"
  by (auto simp: SanitizeFileName_def Let_def file_name_ok_def map_id_allowed trim_end_id)

lemma ok_is_safe:
  assumes "file_name_ok s"
  shows "SafeName s" and "split_at slash s = [s]"
proof -
  have c: "\<not> forbidden_char c" if "c \<in> set s" for c using assms that by (simp add: file_name_ok_def list_all_iff)
  then have "slash \<notin> set s" by (auto simp: forbidden_char_def)
  then show split: "split_at slash s = [s]" by (rule split_at_single)
  have "plain s" using assms by (auto simp: file_name_ok_def plain_def)
  moreover have "\<not> list_ex (\<lambda>c. c = CHR 0x5C \<or> c = CHR '':'' \<or> c = CHR 0x00) s"
    using c [of "CHR 0x5C"] c [of "CHR '':''"] c [of "CHR 0x00"] by (auto simp: list_ex_iff forbidden_char_def)
  ultimately show "SafeName s" by (simp add: safe_name_spec safe_components_def split)
qed

text \<open>Cleaning a received name always gives a name that is valid on Windows, macOS and Linux: not
  empty, without path separators, forbidden or control characters, not ending in a dot or a space and
  not a reserved device name. It passes the manifest's own name check, and a name is left as it is
  exactly when it was already valid, so cleaning twice changes nothing more.\<close>

theorem sanitize_safe:
  "file_name_ok (SanitizeFileName raw) \<and> SafeName (SanitizeFileName raw) \<and>
   SanitizeFileName (SanitizeFileName raw) = SanitizeFileName raw \<and> (SanitizeFileName raw = raw \<longleftrightarrow> file_name_ok raw)"
  using sanitize_ok [of raw] sanitize_fixed [of raw] sanitize_fixed [OF sanitize_ok] ok_is_safe(1) [OF sanitize_ok] by auto

text \<open>Whatever name a sender announces, a library client saves into the directory it chose: the path
  has exactly one component more than the directory.\<close>

theorem save_path_inside:
  assumes "saveDir = abs_path ds" and "proper ds" and "resolveSavePath exe mkdir saveDir rawName = Some p"
  shows "p = abs_path (ds @ [SanitizeFileName rawName]) \<and> clean_comps p = ds @ [SanitizeFileName rawName] \<and> path_Clean p = p"
proof -
  let ?n = "SanitizeFileName rawName"
  have ne: "saveDir \<noteq> []" by (simp add: assms(1) abs_path_def)
  have n: "SafeName ?n" "split_at slash ?n = [?n]" using ok_is_safe [OF sanitize_ok] by simp_all
  have "p = abs_path (ds @ [?n])" "proper (ds @ [?n])"
    using assms(3) ne join_safe [OF assms(2) n(1)] n(2) by (auto simp: resolveSavePath_def Let_def assms(1) split: if_splits)
  then show ?thesis using comps_abs_path clean_abs_path by simp
qed

theorem save_path_inside_witness: "resolveSavePath None (\<lambda>_. True) ''/d'' ''../x'' = Some ''/d/.._x''"
  using save_path_inside [of "''/d''" "[''d'']" None "\<lambda>_. True" "''../x''" "''/d/.._x''"]
  by (simp add: abs_path_def plain_def resolveSavePath_def) code_simp

end
