(* ===== verification/Library.thy ===== *)
theory Library
  imports GoPrelude "HOL-Library.Sublist"
begin

text \<open>
  The embeddable library (\<^verbatim>\<open>pkg/gosilver/gosilver.go\<close>): the life of a \<^verbatim>\<open>Server\<close> with its file and session,
  and of a \<^verbatim>\<open>Client\<close>, whose goroutine reports progress over a channel of capacity 16 while the caller
  reads it, asks for the status or cancels. The download itself is \<open>Download.RunTo_finish\<close>; here it is a
  sequence of progress reports ended by a result.
\<close>

section \<open>Server\<close>

datatype server_error = AlreadyStarted | CannotOpen | CannotServe

text \<open>Besides the two fields, how many files and sessions are open altogether.\<close>

record lib_server =
  lsSession :: bool
  lsFile :: bool
  lsOpenFiles :: nat
  lsLiveSessions :: nat

definition NewServer :: lib_server where
  "NewServer = \<lparr>lsSession = False, lsFile = False, lsOpenFiles = 0, lsLiveSessions = 0\<rparr>"

definition Server_Start :: "bool \<Rightarrow> bool \<Rightarrow> bool \<Rightarrow> lib_server \<Rightarrow> lib_server \<times> server_error option" where
  "Server_Start open_ok main_ok start_ok s =
     (if lsSession s then (s, Some AlreadyStarted)
      else if \<not> open_ok then (s, Some CannotOpen)
      else
        (let s1 = s\<lparr>lsOpenFiles := lsOpenFiles s + 1, lsLiveSessions := lsLiveSessions s + 1\<rparr>
         in if \<not> (main_ok \<and> start_ok)
            then (s1\<lparr>lsOpenFiles := lsOpenFiles s1 - 1, lsLiveSessions := lsLiveSessions s1 - 1\<rparr>, Some CannotServe)
            else (s1\<lparr>lsSession := True, lsFile := True\<rparr>, None)))"

definition Server_Stop :: "lib_server \<Rightarrow> lib_server" where
  "Server_Stop s =
     (let s1 = if lsSession s then s\<lparr>lsSession := False, lsLiveSessions := lsLiveSessions s - 1\<rparr> else s
      in if lsFile s1 then s1\<lparr>lsFile := False, lsOpenFiles := lsOpenFiles s1 - 1\<rparr> else s1)"

inductive server_step :: "lib_server \<Rightarrow> lib_server \<Rightarrow> bool" where
  srv_start: "server_step s (fst (Server_Start open_ok main_ok start_ok s))"
| srv_stop: "server_step s (Server_Stop s)"

definition server_inv :: "lib_server \<Rightarrow> bool" where
  "server_inv s \<longleftrightarrow> lsOpenFiles s = of_bool (lsFile s) \<and> lsLiveSessions s = of_bool (lsSession s) \<and> (lsFile s \<longleftrightarrow> lsSession s)"

interpretation srv: invariant_system "\<lambda>s. s = NewServer" server_step server_inv
proof
  show "server_inv s" if "s = NewServer" for s using that by (simp add: server_inv_def NewServer_def)
  show "server_inv t" if "server_step s t" "server_inv s" for s t
    using that by cases (auto simp: server_inv_def Server_Start_def Server_Stop_def Let_def)
qed

text \<open>Starting and stopping leak nothing, in any order and whatever fails.\<close>

lemma server_owns:
  "reachable (\<lambda>s. s = NewServer) server_step s \<Longrightarrow> lsOpenFiles s \<le> 1 \<and> lsOpenFiles (Server_Stop s) = 0 \<and>
     lsLiveSessions (Server_Stop s) = 0"
  using srv.reach_inv [of s] by (simp add: server_inv_def Server_Stop_def Let_def)

section \<open>Client\<close>

datatype lib_status = Idle | Downloading | Completed | Failed | WasCancelled

record progress_info =
  piStatus :: lib_status
  piTotal :: int
  piDone :: int

text \<open>\<open>RunDone\<close>: the last report was the finished one, \<open>RunTo\<close> is about to return nil. \<open>lcSeen\<close> is what the
  caller has read from the channel; \<open>lcSent\<close> all that was ever reported.\<close>

datatype run_phase = NotRun | Running | RunDone | RunOver

record lib_client =
  lcStatus :: progress_info
  lcBuf :: "progress_info list"
  lcPhase :: run_phase
  lcCancelled :: bool
  lcSeen :: "progress_info list"
  lcSent :: "progress_info list"

definition progress_cap :: nat where
  "progress_cap = 16"

definition NewClient :: lib_client where
  "NewClient =
     \<lparr>lcStatus = \<lparr>piStatus = Idle, piTotal = 0, piDone = 0\<rparr>, lcBuf = [], lcPhase = NotRun, lcCancelled = False,
      lcSeen = [], lcSent = []\<rparr>"

definition StartDownload :: "lib_client \<Rightarrow> lib_client option" where
  "StartDownload c =
     (if piStatus (lcStatus c) \<noteq> Idle then None
      else Some (c\<lparr>lcStatus := \<lparr>piStatus = Downloading, piTotal = 0, piDone = 0\<rparr>, lcPhase := Running\<rparr>))"

text \<open>The cancel function exists once a download was started.\<close>

definition cancel_download :: "lib_client \<Rightarrow> lib_client" where
  "cancel_download c = (if lcPhase c = NotRun then c else c\<lparr>lcCancelled := True\<rparr>)"

text \<open>Reading takes the oldest report.\<close>

definition read_progress :: "lib_client \<Rightarrow> lib_client" where
  "read_progress c =
     (case lcBuf c of [] \<Rightarrow> c | p # ps \<Rightarrow> c\<lparr>lcBuf := ps, lcSeen := lcSeen c @ [p]\<rparr>)"

text \<open>\<open>emit\<close> finds the channel full, then the reader may take \<open>n\<close> reports, then one is dropped if there is
  one, and the new report is sent; a full channel would block it.\<close>

definition emit :: "nat \<Rightarrow> progress_info \<Rightarrow> lib_client \<Rightarrow> lib_client option" where
  "emit n p c =
     (let c0 = c\<lparr>lcStatus := p, lcSent := lcSent c @ [p]\<rparr>
      in if length (lcBuf c0) < progress_cap then Some (c0\<lparr>lcBuf := lcBuf c0 @ [p]\<rparr>)
         else
           (let c1 = (read_progress ^^ n) c0;
                c2 = c1\<lparr>lcBuf := tl (lcBuf c1)\<rparr>
            in if length (lcBuf c2) < progress_cap then Some (c2\<lparr>lcBuf := lcBuf c2 @ [p]\<rparr>) else None))"

text \<open>The end of \<open>run\<close> with an error: the last status with a new state.\<close>

definition final_report :: "lib_client \<Rightarrow> progress_info" where
  "final_report c = (lcStatus c)\<lparr>piStatus := (if lcCancelled c then WasCancelled else Failed)\<rparr>"

definition progress_state :: "bool \<Rightarrow> lib_status" where
  "progress_state finished = (if finished then Completed else Downloading)"

inductive client_step :: "lib_client \<Rightarrow> lib_client \<Rightarrow> bool" where
  cl_start: "StartDownload c = Some c' \<Longrightarrow> client_step c c'"
| cl_cancel: "client_step c (cancel_download c)"
| cl_read: "client_step c (read_progress c)"
| cl_report: "lcPhase c = Running \<Longrightarrow> piStatus p = progress_state fin \<Longrightarrow> emit n p c = Some c' \<Longrightarrow>
    client_step c (c'\<lparr>lcPhase := (if fin then RunDone else Running)\<rparr>)"
| cl_done: "lcPhase c = RunDone \<Longrightarrow> client_step c (c\<lparr>lcPhase := RunOver\<rparr>)"
| cl_fail: "lcPhase c = Running \<Longrightarrow> emit n (final_report c) c = Some c' \<Longrightarrow>
    client_step c (c'\<lparr>lcPhase := RunOver\<rparr>)"

text \<open>Over the reader's view: the order is kept, only old reports are dropped, the newest never.\<close>

definition stream_ok :: "lib_client \<Rightarrow> bool" where
  "stream_ok c \<longleftrightarrow>
     length (lcBuf c) \<le> progress_cap \<and> subseq (lcSeen c @ lcBuf c) (lcSent c) \<and>
     (lcSent c \<noteq> [] \<longrightarrow> lcSeen c @ lcBuf c \<noteq> [] \<and> last (lcSeen c @ lcBuf c) = last (lcSent c))"

definition phase_ok :: "lib_client \<Rightarrow> bool" where
  "phase_ok c \<longleftrightarrow>
     (lcPhase c = NotRun \<longleftrightarrow> piStatus (lcStatus c) = Idle) \<and> (lcPhase c = NotRun \<longrightarrow> lcSent c = [] \<and> \<not> lcCancelled c) \<and>
     (lcPhase c = Running \<longrightarrow> piStatus (lcStatus c) = Downloading) \<and>
     (lcPhase c = RunDone \<longrightarrow> piStatus (lcStatus c) = Completed) \<and>
     (lcPhase c = RunOver \<longrightarrow> piStatus (lcStatus c) \<in> {Completed, Failed, WasCancelled}) \<and>
     (lcPhase c \<in> {RunDone, RunOver} \<longrightarrow> lcSent c \<noteq> []) \<and> (lcSent c \<noteq> [] \<longrightarrow> last (lcSent c) = lcStatus c)"

lemma read_fields [simp]:
  "lcStatus (read_progress c) = lcStatus c" "lcPhase (read_progress c) = lcPhase c"
  "lcCancelled (read_progress c) = lcCancelled c" "lcSent (read_progress c) = lcSent c"
  "lcSeen (read_progress c) @ lcBuf (read_progress c) = lcSeen c @ lcBuf c"
  "length (lcBuf (read_progress c)) = length (lcBuf c) - 1"
  by (simp_all add: read_progress_def split: list.splits)

lemma reads_fields:
  "lcStatus ((read_progress ^^ n) c) = lcStatus c \<and> lcPhase ((read_progress ^^ n) c) = lcPhase c \<and>
   lcCancelled ((read_progress ^^ n) c) = lcCancelled c \<and> lcSent ((read_progress ^^ n) c) = lcSent c \<and>
   lcSeen ((read_progress ^^ n) c) @ lcBuf ((read_progress ^^ n) c) = lcSeen c @ lcBuf c \<and>
   length (lcBuf ((read_progress ^^ n) c)) = length (lcBuf c) - n"
  by (induction n) simp_all

text \<open>\<open>emit\<close> never blocks, sets the status and keeps the reader's view sound.\<close>

lemma emit_ok:
  assumes "stream_ok c"
  shows "\<exists>c'. emit n p c = Some c' \<and> stream_ok c' \<and> lcStatus c' = p \<and> lcSent c' = lcSent c @ [p] \<and>
    lcPhase c' = lcPhase c \<and> lcCancelled c' = lcCancelled c"
proof (cases "length (lcBuf c) < progress_cap")
  case True
  have "subseq (lcSeen c @ lcBuf c @ [p]) (lcSent c @ [p])"
    using assms list_emb_append_mono [of "(=)" "lcSeen c @ lcBuf c" "lcSent c" "[p]" "[p]"] by (simp add: stream_ok_def)
  with True show ?thesis by (simp add: emit_def Let_def stream_ok_def)
next
  case False
  let ?c0 = "c\<lparr>lcStatus := p, lcSent := lcSent c @ [p]\<rparr>"
  let ?c1 = "(read_progress ^^ n) ?c0"
  have r: "lcStatus ?c1 = p" "lcPhase ?c1 = lcPhase c" "lcCancelled ?c1 = lcCancelled c" "lcSent ?c1 = lcSent c @ [p]"
    "lcSeen ?c1 @ lcBuf ?c1 = lcSeen c @ lcBuf c" "length (lcBuf ?c1) = length (lcBuf c) - n"
    using reads_fields [of n ?c0] by simp_all
  have "length (lcBuf c) = progress_cap" using False assms by (simp add: stream_ok_def)
  then have small: "length (tl (lcBuf ?c1)) < progress_cap" using r(6) by (simp add: progress_cap_def)
  have "subseq (lcSeen ?c1 @ tl (lcBuf ?c1)) (lcSeen ?c1 @ lcBuf ?c1)"
    by (cases "lcBuf ?c1") (auto intro: list_emb_append_mono)
  then have "subseq (lcSeen ?c1 @ tl (lcBuf ?c1)) (lcSent c)"
    using assms r(5) by (auto simp: stream_ok_def intro: subseq_order.trans)
  then have "subseq (lcSeen ?c1 @ tl (lcBuf ?c1) @ [p]) (lcSent c @ [p])"
    using list_emb_append_mono [of "(=)" "lcSeen ?c1 @ tl (lcBuf ?c1)" "lcSent c" "[p]" "[p]"] by simp
  then show ?thesis
    using False small r(1-4) by (simp add: emit_def Let_def stream_ok_def)
qed

lemma read_ok: "stream_ok c \<Longrightarrow> stream_ok (read_progress c)"
  by (cases "lcBuf c") (auto simp: stream_ok_def read_progress_def)

definition client_inv :: "lib_client \<Rightarrow> bool" where
  "client_inv c \<longleftrightarrow> stream_ok c \<and> phase_ok c"

interpretation cl: invariant_system "\<lambda>c. c = NewClient" client_step client_inv
proof
  show "client_inv c" if "c = NewClient" for c
    using that by (simp add: client_inv_def stream_ok_def phase_ok_def NewClient_def)
  show "client_inv c'" if "client_step c c'" "client_inv c" for c c'
    using that
  proof cases
    case cl_start
    then show ?thesis using that(2) by (auto simp: client_inv_def stream_ok_def phase_ok_def StartDownload_def split: if_splits)
  next
    case cl_cancel
    then show ?thesis using that(2) by (auto simp: client_inv_def stream_ok_def phase_ok_def cancel_download_def)
  next
    case cl_read
    then show ?thesis using that(2) by (simp add: client_inv_def read_ok) (simp add: phase_ok_def)
  next
    case (cl_report p fin n c1)
    then show ?thesis
      using that(2) emit_ok [of c n p] by (auto simp: client_inv_def stream_ok_def phase_ok_def progress_state_def)
  next
    case cl_done
    then show ?thesis using that(2) by (auto simp: client_inv_def stream_ok_def phase_ok_def)
  next
    case (cl_fail n c1)
    then show ?thesis
      using that(2) emit_ok [of c n "final_report c"] by (auto simp: client_inv_def stream_ok_def phase_ok_def final_report_def)
  qed
qed

text \<open>The progress channel never blocks the download and never loses its end. At most 16 reports wait,
  the reader gets reports in the order they were made, what is dropped is old, and the newest report is
  always still to be read or was read last; when the goroutine has ended, that report is the final
  status: completed, failed or cancelled, the same \<^verbatim>\<open>GetStatus\<close> returns.\<close>

theorem progress_stream:
  assumes "reachable (\<lambda>c. c = NewClient) client_step c"
  shows "(\<forall>n p. emit n p c \<noteq> None) \<and> length (lcBuf c) \<le> 16 \<and> subseq (lcSeen c @ lcBuf c) (lcSent c) \<and>
    (lcPhase c = RunOver \<longrightarrow> lcSeen c @ lcBuf c \<noteq> [] \<and> last (lcSeen c @ lcBuf c) = lcStatus c \<and>
       piStatus (lcStatus c) \<in> {Completed, Failed, WasCancelled})"
proof -
  have "stream_ok c" "phase_ok c" using cl.reach_inv [OF assms] by (simp_all add: client_inv_def)
  have "emit n p c \<noteq> None" for n p using emit_ok [OF \<open>stream_ok c\<close>, of n p] by auto
  moreover have "lcSent c \<noteq> [] \<and> last (lcSent c) = lcStatus c \<and> piStatus (lcStatus c) \<in> {Completed, Failed, WasCancelled}"
    if "lcPhase c = RunOver"
    using \<open>phase_ok c\<close> that by (simp add: phase_ok_def)
  ultimately show ?thesis using \<open>stream_ok c\<close> by (simp add: stream_ok_def progress_cap_def)
qed

text \<open>A client is for one download: once started it cannot be started again, even after a failure.\<close>

lemma one_download:
  "reachable (\<lambda>c. c = NewClient) client_step c \<Longrightarrow> StartDownload c \<noteq> None \<longleftrightarrow> lcPhase c = NotRun"
  using cl.reach_inv [of c] by (auto simp: client_inv_def phase_ok_def StartDownload_def)

definition sample_running :: lib_client where
  "sample_running = the (StartDownload NewClient)"

theorem progress_stream_witness: "length (lcBuf sample_running) \<le> 16"
proof -
  have "client_step NewClient sample_running"
    by (rule cl_start) (simp add: sample_running_def StartDownload_def NewClient_def)
  then have "reachable (\<lambda>c. c = NewClient) client_step sample_running"
    by (auto intro: reachable.intros)
  from progress_stream [OF this] show ?thesis by simp
qed

end
