(* ===== verification/Agent.thy ===== *)
theory Agent
  imports Bundle Client Download
begin

text \<open>
  The receiver's agent (\<^verbatim>\<open>internal/webui/agent.go\<close>): one download task and one command at a time, each run
  by a goroutine of its own, the control requests of the sender, the bounded output of a command and
  the directory a request names. Fields that are only shown to the user (messages, progress figures)
  are left out of the task state.
\<close>

section \<open>One task at a time\<close>

text \<open>Four places of the program start a goroutine unless one is running and let it write its outcome
  when it ends: \<open>'s\<close> is the state, \<open>launch\<close> may refuse, \<open>gs\<close> are the goroutines alive, \<open>other\<close> is
  whatever else changes the state.\<close>

inductive slot_step ::
  "('x \<Rightarrow> 's \<Rightarrow> 's option) \<Rightarrow> ('o \<Rightarrow> 's \<Rightarrow> 's) \<Rightarrow> ('s \<Rightarrow> 's \<Rightarrow> bool) \<Rightarrow> 's \<times> 'x list \<Rightarrow> 's \<times> 'x list \<Rightarrow> bool"
  for launch finish other where
  slot_launch: "launch x s = Some t \<Longrightarrow> slot_step launch finish other (s, gs) (t, x # gs)"
| slot_finish: "x \<in> set gs \<Longrightarrow> slot_step launch finish other (s, gs) (finish out s, remove1 x gs)"
| slot_other: "other s t \<Longrightarrow> slot_step launch finish other (s, gs) (t, gs)"

locale task_slot =
  fixes launch :: "'x \<Rightarrow> 's \<Rightarrow> 's option" and finish :: "'o \<Rightarrow> 's \<Rightarrow> 's" and other :: "'s \<Rightarrow> 's \<Rightarrow> bool"
    and running :: "'s \<Rightarrow> bool" and holder :: "'s \<Rightarrow> 'x"
  assumes launch_free: "launch x s = Some t \<Longrightarrow> \<not> running s"
    and launch_holds: "launch x s = Some t \<Longrightarrow> running t \<and> holder t = x"
    and finish_frees: "running s \<Longrightarrow> \<not> running (finish out s)"
    and other_keeps: "other s t \<Longrightarrow> running t = running s \<and> (running s \<longrightarrow> holder t = holder s)"
begin

lemma step_inv:
  assumes "slot_step launch finish other (s, gs) (t, hs)" and "gs = (if running s then [holder s] else [])"
  shows "hs = (if running t then [holder t] else [])"
  using assms
proof cases
  case (slot_launch x)
  then show ?thesis using launch_free launch_holds assms(2) by auto
next
  case (slot_finish x out)
  then show ?thesis using finish_frees assms(2) by (auto split: if_splits)
next
  case slot_other
  then show ?thesis using other_keeps assms(2) by auto
qed

lemma one_alive:
  assumes "reachable (\<lambda>p. \<not> running (fst p) \<and> snd p = []) (slot_step launch finish other) p"
  shows "snd p = (if running (fst p) then [holder (fst p)] else [])"
  using assms
proof induction
  case (reach_step p q)
  have "slot_step launch finish other (fst p, snd p) (fst q, snd q)" using reach_step(2) by simp
  from step_inv [OF this reach_step.IH] show ?case .
qed simp

end

section \<open>The agent's state\<close>

datatype task_status = TIdle | TRunning | TSeeding | TCompleted | TFailed | TCancelled | TEnded

record task_state =
  tsID :: string
  tsKind :: string
  tsStatus :: task_status
  tsOutput :: string

datatype outcome = Fine | Errored | ContextCancelled

record agent =
  agRoot :: string
  agToken :: string
  agAllow :: bool
  agStopped :: bool
  agDisconnected :: bool
  agTask :: task_state
  agCommand :: task_state
  agTaskCancelled :: bool
  agCommandCancelled :: bool
  agCache :: "string list"

datatype agent_error =
    BadToken | BadPayload | Busy | CommandBusy | Stopped | NoID | BadEntries | BadName | ListMismatch
  | PathUnavailable | ProbeRefused probe_error | NoSender | SourceChanged | CommandsOff | EmptyCommand | UnknownMethod

definition launch :: "string \<Rightarrow> string \<Rightarrow> agent \<Rightarrow> agent_error + agent" where
  "launch kind uid r =
     (if agStopped r then Inl Stopped
      else if tsStatus (agTask r) = TRunning then Inl Busy
      else Inr (r\<lparr>agTask := \<lparr>tsID = uid, tsKind = kind, tsStatus = TRunning, tsOutput = []\<rparr>,
                  agTaskCancelled := False\<rparr>))"

definition launch_end :: "outcome \<Rightarrow> agent \<Rightarrow> agent" where
  "launch_end out r =
     r\<lparr>agTask := (agTask r)\<lparr>tsStatus := (case out of Fine \<Rightarrow> TSeeding | Errored \<Rightarrow> TFailed | ContextCancelled \<Rightarrow> TCancelled)\<rparr>\<rparr>"

definition launchCommand :: "string \<Rightarrow> agent \<Rightarrow> agent_error + agent" where
  "launchCommand uid r =
     (if agStopped r then Inl Stopped
      else if tsStatus (agCommand r) = TRunning then Inl CommandBusy
      else Inr (r\<lparr>agCommand := \<lparr>tsID = uid, tsKind = ''command'', tsStatus = TRunning, tsOutput = []\<rparr>,
                  agCommandCancelled := False\<rparr>))"

definition command_end :: "outcome \<Rightarrow> agent \<Rightarrow> agent" where
  "command_end out r =
     r\<lparr>agCommand := (agCommand r)\<lparr>tsStatus := (case out of Fine \<Rightarrow> TCompleted | Errored \<Rightarrow> TFailed | ContextCancelled \<Rightarrow> TCancelled)\<rparr>\<rparr>"

text \<open>The output is stored before the command's goroutine writes the status.\<close>

definition command_output :: "string \<Rightarrow> agent \<Rightarrow> agent" where
  "command_output text r = r\<lparr>agCommand := (agCommand r)\<lparr>tsOutput := text\<rparr>\<rparr>"

definition cancel_task :: "string \<Rightarrow> agent \<Rightarrow> agent" where
  "cancel_task q r = (if q = [] \<or> q = tsID (agTask r) then r\<lparr>agTaskCancelled := True\<rparr> else r)"

definition cancel_command :: "string \<Rightarrow> agent \<Rightarrow> agent" where
  "cancel_command q r = (if q = [] \<or> q = tsID (agCommand r) then r\<lparr>agCommandCancelled := True\<rparr> else r)"

text \<open>\<^verbatim>\<open>close\<close>: everything is told to stop, the goroutines are joined, then the task is marked.\<close>

definition close_begin :: "agent \<Rightarrow> agent" where
  "close_begin r = cancel_command [] (cancel_task [] (r\<lparr>agStopped := True\<rparr>))"

definition close_end :: "agent \<Rightarrow> agent" where
  "close_end r =
     (if tsID (agTask r) \<noteq> [] then r\<lparr>agTask := (agTask r)\<lparr>tsStatus := TEnded\<rparr>\<rparr> else r)"

definition removeCache :: "string \<Rightarrow> agent \<Rightarrow> agent \<times> string list" where
  "removeCache path r = (r\<lparr>agCache := filter (\<lambda>p. p \<noteq> path) (agCache r)\<rparr>, [path])"

definition pruneCaches :: "string \<Rightarrow> agent \<Rightarrow> agent \<times> string list" where
  "pruneCaches cur r =
     (r\<lparr>agCache := filter (\<lambda>p. p = cur) (agCache r)\<rparr>, filter (\<lambda>p. p \<noteq> cur) (agCache r))"

definition add_cache :: "string \<Rightarrow> agent \<Rightarrow> agent" where
  "add_cache path r = r\<lparr>agCache := agCache r @ [path]\<rparr>"

text \<open>The goroutine of a task and that of a command do not touch each other's slot.\<close>

inductive task_other :: "agent \<Rightarrow> agent \<Rightarrow> bool" where
  "launchCommand uid r = Inr t \<Longrightarrow> task_other r t"
| "task_other r (command_end out r)"
| "task_other r (command_output text r)"
| "task_other r (cancel_task q r)"
| "task_other r (cancel_command q r)"
| "task_other r (close_begin r)"
| "task_other r (fst (removeCache path r))"
| "task_other r (fst (pruneCaches path r))"
| "task_other r (add_cache path r)"
| "task_other r (r\<lparr>agDisconnected := b\<rparr>)"

inductive command_other :: "agent \<Rightarrow> agent \<Rightarrow> bool" where
  "launch kind uid r = Inr t \<Longrightarrow> command_other r t"
| "command_other r (launch_end out r)"
| "command_other r (command_output text r)"
| "command_other r (cancel_task q r)"
| "command_other r (cancel_command q r)"
| "command_other r (close_begin r)"
| "command_other r (fst (removeCache path r))"
| "command_other r (fst (pruneCaches path r))"
| "command_other r (add_cache path r)"
| "command_other r (r\<lparr>agDisconnected := b\<rparr>)"

definition sum_option :: "'e + 'a \<Rightarrow> 'a option" where
  "sum_option x = (case x of Inl _ \<Rightarrow> None | Inr y \<Rightarrow> Some y)"

lemma sum_option_Some [simp]: "sum_option x = Some y \<longleftrightarrow> x = Inr y"
  by (cases x) (simp_all add: sum_option_def)

definition task_running :: "agent \<Rightarrow> bool" where
  "task_running r \<longleftrightarrow> tsStatus (agTask r) = TRunning"

definition command_running :: "agent \<Rightarrow> bool" where
  "command_running r \<longleftrightarrow> tsStatus (agCommand r) = TRunning"

lemmas agent_ops = launch_def launch_end_def launchCommand_def command_end_def command_output_def cancel_task_def
  cancel_command_def close_begin_def removeCache_def pruneCaches_def add_cache_def

interpretation task: task_slot "\<lambda>x r. sum_option (launch ''download'' x r)" launch_end task_other task_running "\<lambda>r. tsID (agTask r)"
proof
  show "task_running t = task_running s \<and> (task_running s \<longrightarrow> tsID (agTask t) = tsID (agTask s))" if "task_other s t" for s t
    using that by cases (auto simp: task_running_def agent_ops split: if_splits)
qed (auto simp: task_running_def agent_ops split: if_splits outcome.splits)

interpretation command: task_slot "\<lambda>x r. sum_option (launchCommand x r)" command_end command_other command_running "\<lambda>r. tsID (agCommand r)"
proof
  show "command_running t = command_running s \<and> (command_running s \<longrightarrow> tsID (agCommand t) = tsID (agCommand s))"
    if "command_other s t" for s t
    using that by cases (auto simp: command_running_def agent_ops split: if_splits)
qed (auto simp: command_running_def agent_ops split: if_splits outcome.splits)

section \<open>The directory a request names\<close>

text \<open>\<^verbatim>\<open>filepath.Base\<close>.\<close>

definition path_Base :: "string \<Rightarrow> string" where
  "path_Base s =
     (if s = [] then ''.''
      else
        (let t = rev (dropWhile (\<lambda>c. c = slash) (rev s))
         in if t = [] then ''/'' else rev (takeWhile (\<lambda>c. c \<noteq> slash) (rev t))))"

text \<open>The search for the deepest ancestor that exists; \<open>climbed\<close> grows with the names climbed over.\<close>

partial_function (option) find_ancestor ::
  "(string \<Rightarrow> stat_result) \<Rightarrow> string \<Rightarrow> string list \<Rightarrow> (agent_error + string \<times> string list) option" where
  "find_ancestor lstat ancestor climbed =
     (case lstat ancestor of
        Found k \<Rightarrow> Some (Inr (ancestor, climbed))
      | StatRefused \<Rightarrow> Some (Inl PathUnavailable)
      | NotExist \<Rightarrow>
          if path_Dir ancestor = ancestor then Some (Inl PathUnavailable)
          else find_ancestor lstat (path_Dir ancestor) (climbed @ [path_Base ancestor]))"

definition agent_resolve :: "os_paths \<Rightarrow> string \<Rightarrow> string \<Rightarrow> (agent_error + string) option" where
  "agent_resolve w wdir dir =
     (let dir1 = if dir = [] then ''.'' else dir;
          dir2 = path_Clean (if IsAbs dir1 then dir1 else path_Join wdir dir1)
      in case find_ancestor (osLstat w) dir2 [] of
           None \<Rightarrow> None
         | Some (Inl e) \<Rightarrow> Some (Inl e)
         | Some (Inr (ancestor, climbed)) \<Rightarrow>
             Some (case osEval w ancestor of
                     None \<Rightarrow> Inl PathUnavailable
                   | Some base \<Rightarrow> Inr (foldl path_Join base (rev climbed))))"

lemma base_abs:
  assumes "proper (ps @ [q])"
  shows "path_Base (abs_path (ps @ [q])) = q"
proof -
  have q: "slash \<notin> set q" "q \<noteq> []" using assms by (auto simp: plain_def)
  obtain a where a: "abs_path (ps @ [q]) = a @ slash # q"
  proof (cases "ps = []")
    case True
    then show ?thesis using that [of "[]"] by (simp add: abs_path_def)
  next
    case False
    then have "join_with slash (ps @ [q]) = join_with slash ps @ slash # q"
      by (induction slash ps rule: join_with.induct) auto
    then show ?thesis using that [of "abs_path ps"] by (simp add: abs_path_def)
  qed
  have "last q \<noteq> slash" using q by (metis last_in_set)
  then have "dropWhile (\<lambda>c. c = slash) (rev (a @ slash # q)) = rev (a @ slash # q)"
    using q(2) by (cases q rule: rev_cases) simp_all
  moreover have "takeWhile (\<lambda>c. c \<noteq> slash) (rev q @ slash # rev a) = rev q"
    using q(1) by (subst takeWhile_append2) auto
  ultimately show ?thesis using q(2) by (simp add: path_Base_def a Let_def)
qed

lemma find_ancestor_abs:
  "proper ts \<Longrightarrow> lstat ''/'' = Found k0 \<Longrightarrow>
   (\<exists>e. find_ancestor lstat (abs_path ts) climbed = Some (Inl e)) \<or>
   (\<exists>n \<le> length ts. \<exists>k. find_ancestor lstat (abs_path ts) climbed = Some (Inr (abs_path (take n ts), climbed @ rev (drop n ts))) \<and>
      lstat (abs_path (take n ts)) = Found k \<and> (\<forall>m. n < m \<longrightarrow> m \<le> length ts \<longrightarrow> lstat (abs_path (take m ts)) = NotExist))"
proof (induction ts arbitrary: climbed rule: rev_induct)
  case Nil
  have "find_ancestor lstat (abs_path []) climbed = Some (Inr (abs_path [], climbed))"
    using Nil.prems by (subst find_ancestor.simps) (simp add: abs_path_def)
  with Nil.prems show ?case by (intro disjI2) (simp add: abs_path_def)
next
  case (snoc q ts)
  have ts: "proper ts" using snoc.prems by simp
  show ?case
  proof (cases "lstat (abs_path (ts @ [q]))")
    case (Found k)
    then have "find_ancestor lstat (abs_path (ts @ [q])) climbed = Some (Inr (abs_path (ts @ [q]), climbed))"
      by (subst find_ancestor.simps) simp
    with Found show ?thesis by (intro disjI2 exI [of _ "Suc (length ts)"] conjI exI [of _ k]) simp_all
  next
    case StatRefused
    then have "find_ancestor lstat (abs_path (ts @ [q])) climbed = Some (Inl PathUnavailable)"
      by (subst find_ancestor.simps) simp
    then show ?thesis by blast
  next
    case NotExist
    have d: "path_Dir (abs_path (ts @ [q])) = abs_path ts" using dir_abs [of "ts @ [q]"] snoc.prems(1) by simp
    have "abs_path ts \<noteq> abs_path (ts @ [q])" using abs_path_inj [OF ts snoc.prems(1)] by auto
    then have f: "find_ancestor lstat (abs_path (ts @ [q])) climbed = find_ancestor lstat (abs_path ts) (climbed @ [q])"
      using NotExist by (subst find_ancestor.simps) (simp add: d base_abs [OF snoc.prems(1)])
    from snoc.IH [OF ts snoc.prems(2), of "climbed @ [q]"] show ?thesis
    proof
      assume "\<exists>e. find_ancestor lstat (abs_path ts) (climbed @ [q]) = Some (Inl e)"
      with f show ?thesis by simp
    next
      assume "\<exists>n \<le> length ts. \<exists>k. find_ancestor lstat (abs_path ts) (climbed @ [q]) =
          Some (Inr (abs_path (take n ts), (climbed @ [q]) @ rev (drop n ts))) \<and>
        lstat (abs_path (take n ts)) = Found k \<and> (\<forall>m. n < m \<longrightarrow> m \<le> length ts \<longrightarrow> lstat (abs_path (take m ts)) = NotExist)"
      then obtain n k where n: "n \<le> length ts" "lstat (abs_path (take n ts)) = Found k"
          "find_ancestor lstat (abs_path ts) (climbed @ [q]) = Some (Inr (abs_path (take n ts), (climbed @ [q]) @ rev (drop n ts)))"
          "\<And>m. n < m \<Longrightarrow> m \<le> length ts \<Longrightarrow> lstat (abs_path (take m ts)) = NotExist"
        by blast
      have "lstat (abs_path (take m (ts @ [q]))) = NotExist" if "n < m" "m \<le> length (ts @ [q])" for m
        using n(4) that NotExist by (cases "m = length (ts @ [q])") auto
      with n f show ?thesis by (intro disjI2 exI [of _ n] conjI exI [of _ k]) simp_all
    qed
  qed
qed

lemma foldl_join: "proper ps \<Longrightarrow> proper qs \<Longrightarrow> foldl path_Join (abs_path ps) qs = abs_path (ps @ qs)"
proof (induction qs arbitrary: ps)
  case (Cons q qs)
  then show ?case using join_abs [of ps "[q]"] by simp
qed simp

text \<open>The directory of a request is found without fail: the search for an existing ancestor always
  ends, and the result is the real path of the deepest ancestor that exists followed by exactly the
  components that do not exist yet, so nothing on the way to it is a symbolic link that was not resolved.\<close>

theorem agent_resolve_spec:
  assumes "honest w" and "IsAbs wdir" and "osLstat w ''/'' = Found k0"
  shows "\<exists>r. agent_resolve w wdir dir = Some r \<and>
    (\<forall>d. r = Inr d \<longrightarrow>
       (\<exists>ts n k bs. proper ts \<and> path_Clean (if IsAbs dir then dir else path_Join wdir (if dir = [] then ''.'' else dir)) = abs_path ts \<and>
          n \<le> length ts \<and> osLstat w (abs_path (take n ts)) = Found k \<and>
          (\<forall>m. n < m \<longrightarrow> m \<le> length ts \<longrightarrow> osLstat w (abs_path (take m ts)) = NotExist) \<and>
          proper bs \<and> osEval w (abs_path (take n ts)) = Some (abs_path bs) \<and> d = abs_path (bs @ drop n ts)))"
proof -
  let ?d1 = "if dir = [] then ''.'' else dir"
  let ?d2 = "if IsAbs ?d1 then ?d1 else path_Join wdir ?d1"
  have same: "?d2 = (if IsAbs dir then dir else path_Join wdir ?d1)" by (simp add: IsAbs_def)
  have "IsAbs ?d2" using join_is_abs [OF assms(2), of ?d1] by auto
  then obtain ts where ts: "proper ts" "path_Clean ?d2 = abs_path ts" using clean_is_abs by blast
  have res: "agent_resolve w wdir dir =
      (case find_ancestor (osLstat w) (abs_path ts) [] of
           None \<Rightarrow> None
         | Some (Inl e) \<Rightarrow> Some (Inl e)
         | Some (Inr (ancestor, climbed)) \<Rightarrow>
             Some (case osEval w ancestor of
                     None \<Rightarrow> Inl PathUnavailable
                   | Some base \<Rightarrow> Inr (foldl path_Join base (rev climbed))))"
    unfolding agent_resolve_def Let_def ts(2) ..
  from find_ancestor_abs [of ts "osLstat w", OF ts(1) assms(3), of "[]"] show ?thesis
  proof
    assume "\<exists>e. find_ancestor (osLstat w) (abs_path ts) [] = Some (Inl e)"
    then show ?thesis using res by auto
  next
    assume "\<exists>n \<le> length ts. \<exists>k. find_ancestor (osLstat w) (abs_path ts) [] =
        Some (Inr (abs_path (take n ts), [] @ rev (drop n ts))) \<and>
      osLstat w (abs_path (take n ts)) = Found k \<and> (\<forall>m. n < m \<longrightarrow> m \<le> length ts \<longrightarrow> osLstat w (abs_path (take m ts)) = NotExist)"
    then obtain n k where n: "n \<le> length ts" "osLstat w (abs_path (take n ts)) = Found k"
        "find_ancestor (osLstat w) (abs_path ts) [] = Some (Inr (abs_path (take n ts), rev (drop n ts)))"
        "\<forall>m. n < m \<longrightarrow> m \<le> length ts \<longrightarrow> osLstat w (abs_path (take m ts)) = NotExist"
      by auto
    show ?thesis
    proof (cases "osEval w (abs_path (take n ts))")
      case None
      with n(3) res show ?thesis by simp
    next
      case (Some base)
      have "IsAbs base \<and> path_Clean base = base" using assms(1) Some by (auto simp: honest_def clean_answers_def)
      then obtain bs where bs: "proper bs" "base = abs_path bs" using clean_abs_cases by blast
      have "proper (drop n ts)" using ts(1) by (rule proper_subset) (rule set_drop_subset)
      then have "foldl path_Join base (drop n ts) = abs_path (bs @ drop n ts)"
        using foldl_join bs by simp
      then have "agent_resolve w wdir dir = Some (Inr (abs_path (bs @ drop n ts)))"
        using res n(3) Some by simp
      then show ?thesis
        using ts(2) n bs Some unfolding same
        by (intro exI [of _ "Inr (abs_path (bs @ drop n ts))"] conjI allI impI exI [of _ ts] exI [of _ n] exI [of _ k] exI [of _ bs])
          (simp_all add: ts(1))
    qed
  qed
qed

definition sample_tree :: os_paths where
  "sample_tree =
     \<lparr>osAbs = \<lambda>s. if IsAbs s then Some (path_Clean s) else None,
      osEval = \<lambda>s. if s = ''/l'' then Some ''/r'' else Some ''/'',
      osLstat = \<lambda>s. if s = ''/'' then Found Directory else if s = ''/l'' then Found SymLink else NotExist\<rparr>"

lemma sample_tree_honest: "honest sample_tree"
proof -
  have "IsAbs ''/''" "path_Clean ''/'' = ''/''" "path_Clean ''/r'' = ''/r''"
    by (simp_all add: path_Clean_def clean_comps_def clean_step_def)
  then show ?thesis
    using clean_clean by (auto simp: honest_def clean_answers_def sample_tree_def split: if_splits)
qed

theorem agent_resolve_spec_witness: "agent_resolve sample_tree ''/w'' ''/l/new'' = Some (Inr ''/r/new'')"
proof -
  have d: "path_Clean ''/l/new'' = ''/l/new''" "path_Dir ''/l/new'' = ''/l''" "path_Base ''/l/new'' = ''new''"
    "path_Join ''/r'' ''new'' = ''/r/new''" "osLstat sample_tree ''/l/new'' = NotExist"
    "osLstat sample_tree ''/l'' = Found SymLink" "osEval sample_tree ''/l'' = Some ''/r''"
    "osLstat sample_tree ''/'' = Found Directory"
    by code_simp+
  have "find_ancestor (osLstat sample_tree) ''/l/new'' [] = Some (Inr (''/l'', [''new'']))"
    by (subst find_ancestor.simps, subst find_ancestor.simps) (simp add: d)
  then have "agent_resolve sample_tree ''/w'' ''/l/new'' = Some (Inr ''/r/new'')"
    by (simp add: agent_resolve_def d)
  moreover have "IsAbs ''/w''" by simp
  ultimately show ?thesis
    using agent_resolve_spec [OF sample_tree_honest _ d(8), of "''/w''" "''/l/new''"] by blast
qed

section \<open>The output of a command\<close>

record limited_output =
  loBuf :: "byte list"
  loTruncated :: bool

definition output_limit :: nat where
  "output_limit = 256 * 1024"

text \<open>\<^verbatim>\<open>Write\<close> always claims to have taken everything.\<close>

definition limited_Write :: "byte list \<Rightarrow> limited_output \<Rightarrow> nat \<times> limited_output" where
  "limited_Write p w =
     (let left = int output_limit - int (length (loBuf w))
      in if left < int (length p)
         then (length p, \<lparr>loBuf = loBuf w @ take (nat (max 0 left)) p, loTruncated = True\<rparr>)
         else (length p, w\<lparr>loBuf := loBuf w @ p\<rparr>))"

definition command_text :: "(byte list \<Rightarrow> string) \<Rightarrow> string \<Rightarrow> limited_output \<Rightarrow> string" where
  "command_text render note w = render (loBuf w) @ (if loTruncated w then note else [])"

text \<open>What the buffer stands for: the first 256 KiB of everything written.\<close>

definition limited_abs :: "byte list \<Rightarrow> limited_output" where
  "limited_abs bs = \<lparr>loBuf = take output_limit bs, loTruncated = (output_limit < length bs)\<rparr>"

lemma limited_step: "snd (limited_Write p (limited_abs bs)) = limited_abs (bs @ p)"
proof -
  have "nat (int output_limit - int (min (length bs) output_limit)) = output_limit - length bs"
    by (cases "length bs \<le> output_limit") (simp_all add: min_def nat_diff_distrib')
  then show ?thesis by (auto simp: limited_Write_def limited_abs_def Let_def)
qed

text \<open>The output of a command is the first 256 KiB of what its two streams wrote, in the order of the
  writes, and it is marked truncated exactly when more was written; every write reports success, so a
  talkative command is never stopped by its own output.\<close>

theorem output_bounded:
  "fold (\<lambda>p w. snd (limited_Write p w)) ws \<lparr>loBuf = [], loTruncated = False\<rparr> = limited_abs (concat ws) \<and>
   length (loBuf (limited_abs (concat ws))) \<le> 262144 \<and> fst (limited_Write p w) = length p"
proof -
  have "fold (\<lambda>p w. snd (limited_Write p w)) ws (limited_abs bs) = limited_abs (bs @ concat ws)" for bs
    by (induction ws arbitrary: bs) (simp_all add: limited_step)
  from this [of "[]"] have "fold (\<lambda>p w. snd (limited_Write p w)) ws \<lparr>loBuf = [], loTruncated = False\<rparr> = limited_abs (concat ws)"
    by (simp add: limited_abs_def output_limit_def)
  then show ?thesis by (simp add: limited_abs_def output_limit_def limited_Write_def Let_def)
qed

text \<open>The time a command gets, in seconds.\<close>

definition command_timeout :: "int \<Rightarrow> int" where
  "command_timeout t = (let t1 = if t \<le> 0 then 60 else t in if 300 < t1 then 300 else t1)"

lemma command_timeout_range: "1 \<le> command_timeout t \<and> command_timeout t \<le> 300"
  by (simp add: command_timeout_def Let_def)

text \<open>How \<^verbatim>\<open>execute\<close> ends: \<open>ctx\<close> is the state of its context, \<open>succeeded\<close> whether the process succeeded.\<close>

definition execute_outcome :: "bool \<Rightarrow> outcome option \<Rightarrow> bool \<Rightarrow> outcome" where
  "execute_outcome allowed ctx succeeded =
     (if \<not> allowed then Errored else case ctx of Some e \<Rightarrow> e | None \<Rightarrow> if succeeded then Fine else Errored)"

section \<open>Control requests\<close>

record task_spec =
  spID :: string
  spTarget :: string
  spOverwrite :: bool
  spArchive :: bool
  spEntries :: "entry list"
  spMeta :: file_status

definition validateSpec :: "task_spec \<Rightarrow> agent_error option option" where
  "validateSpec s =
     (if spID s = [] then Some (Some NoID)
      else
        (case ValidateEntries (spEntries s) of
           None \<Rightarrow> None
         | Some (Some e) \<Rightarrow> Some (Some BadEntries)
         | Some None \<Rightarrow>
             if fsrFileName (spMeta s) = [] \<or> path_Base (fsrFileName (spMeta s)) \<noteq> fsrFileName (spMeta s) then Some (Some BadName)
             else if \<not> spArchive s \<and>
               (length (spEntries s) \<noteq> 1 \<or> enDir (hd (spEntries s)) \<or> enSize (hd (spEntries s)) \<noteq> fsrFileSize (spMeta s))
             then Some (Some ListMismatch)
             else Some None))"

text \<open>The probe of a task: the directory it names, then the destinations, anywhere on the system.\<close>

definition agent_probe :: "sys \<Rightarrow> nodes \<Rightarrow> agent \<Rightarrow> task_spec \<Rightarrow> (agent_error + probe) option" where
  "agent_probe w ns r spec =
     (case agent_resolve (paths_of w ns) (agRoot r) (spTarget spec) of
        None \<Rightarrow> None
      | Some (Inl e) \<Rightarrow> Some (Inl e)
      | Some (Inr dir) \<Rightarrow>
          (case ProbeTarget w ns [] dir (spEntries spec) (spOverwrite spec)
                  (if spArchive spec then fsrFileSize (spMeta spec) else 0) of
             None \<Rightarrow> None
           | Some (Inl x) \<Rightarrow> Some (Inl (ProbeRefused x))
           | Some (Inr p) \<Rightarrow> Some (Inr p)))"

text \<open>The first critical section of probe and start.\<close>

datatype first_look = Same task_state | IsBusy | Go

definition start_look :: "bool \<Rightarrow> task_spec \<Rightarrow> agent \<Rightarrow> first_look" where
  "start_look start spec r =
     (if start \<and> tsID (agTask r) = spID spec \<and> tsStatus (agTask r) \<in> {TRunning, TSeeding} then Same (agTask r)
      else if tsStatus (agTask r) = TRunning then IsBusy else Go)"

text \<open>Between the two critical sections of start: the checks, with what the sender now says of its file.\<close>

definition start_checks :: "sys \<Rightarrow> nodes \<Rightarrow> file_status option \<Rightarrow> agent \<Rightarrow> task_spec \<Rightarrow> (agent_error + probe) option" where
  "start_checks w ns meta r spec =
     (case validateSpec spec of
        None \<Rightarrow> None
      | Some (Some e) \<Rightarrow> Some (Inl e)
      | Some None \<Rightarrow>
          (case agent_probe w ns r spec of
             None \<Rightarrow> None
           | Some (Inl e) \<Rightarrow> Some (Inl e)
           | Some (Inr p) \<Rightarrow>
               Some (case meta of
                       None \<Rightarrow> Inl NoSender
                     | Some m \<Rightarrow> if m \<noteq> spMeta spec then Inl SourceChanged else Inr p)))"

datatype control_reply =
    Refused agent_error | ProbeReply probe | TaskReply task_state | Listing string | CancelReply

record command_req =
  cmID :: string
  cmText :: string
  cmDirectory :: string
  cmTimeout :: int

datatype control_req =
    Malformed
  | ReqProbe task_spec
  | ReqStart task_spec
  | ReqBrowse string
  | ReqStatus
  | ReqCommandStatus
  | ReqCommandCancel string
  | ReqCancel string
  | ReqCommand command_req
  | ReqUnknown

definition blank :: "char \<Rightarrow> bool" where
  "blank c \<longleftrightarrow> of_char c \<in> {9, 10, 11, 12, 13, 32 :: nat}"

text \<open>One request handled without interruption; \<open>new_id\<close> is a fresh key. Handlers that do not return are
  \<open>None\<close>.\<close>

definition control ::
  "sys \<Rightarrow> nodes \<Rightarrow> file_status option \<Rightarrow> string \<Rightarrow> string \<Rightarrow> control_req \<Rightarrow> agent \<Rightarrow> (control_reply \<times> agent) option" where
  "control w ns meta new_id token req r =
     (if token \<noteq> agToken r then Some (Refused BadToken, r)
      else
        (case req of
           Malformed \<Rightarrow> Some (Refused BadPayload, r)
         | ReqProbe spec \<Rightarrow>
             (case start_look False spec r of
                Same t \<Rightarrow> Some (TaskReply t, r)
              | IsBusy \<Rightarrow> Some (Refused Busy, r)
              | Go \<Rightarrow>
                  (case validateSpec spec of
                     None \<Rightarrow> None
                   | Some (Some e) \<Rightarrow> Some (Refused e, r)
                   | Some None \<Rightarrow>
                       (case agent_probe w ns r spec of
                          None \<Rightarrow> None
                        | Some (Inl e) \<Rightarrow> Some (Refused e, r)
                        | Some (Inr p) \<Rightarrow> Some (ProbeReply p, r))))
         | ReqStart spec \<Rightarrow>
             (case start_look True spec r of
                Same t \<Rightarrow> Some (TaskReply t, r)
              | IsBusy \<Rightarrow> Some (Refused Busy, r)
              | Go \<Rightarrow>
                  (case start_checks w ns meta r spec of
                     None \<Rightarrow> None
                   | Some (Inl e) \<Rightarrow> Some (Refused e, r)
                   | Some (Inr p) \<Rightarrow>
                       (case launch ''download'' (spID spec) r of
                          Inl e \<Rightarrow> Some (Refused e, r)
                        | Inr r1 \<Rightarrow> Some (TaskReply (agTask r1), r1))))
         | ReqBrowse path \<Rightarrow>
             (case agent_resolve (paths_of w ns) (agRoot r) path of
                None \<Rightarrow> None
              | Some (Inl e) \<Rightarrow> Some (Refused e, r)
              | Some (Inr d) \<Rightarrow> Some (Listing d, r))
         | ReqStatus \<Rightarrow> Some (TaskReply (agTask r), r)
         | ReqCommandStatus \<Rightarrow> Some (TaskReply (agCommand r), r)
         | ReqCommandCancel q \<Rightarrow> Some (CancelReply, cancel_command q r)
         | ReqCancel q \<Rightarrow> Some (CancelReply, cancel_task q r)
         | ReqCommand c \<Rightarrow>
             if \<not> agAllow r then Some (Refused CommandsOff, r)
             else if list_all blank (cmText c) then Some (Refused EmptyCommand, r)
             else
               (case agent_resolve (paths_of w ns) (agRoot r) (cmDirectory c) of
                  None \<Rightarrow> None
                | Some (Inl e) \<Rightarrow> Some (Refused e, r)
                | Some (Inr d) \<Rightarrow>
                    (case launchCommand (if cmID c = [] then new_id else cmID c) r of
                       Inl e \<Rightarrow> Some (Refused e, r)
                     | Inr r1 \<Rightarrow> Some (TaskReply (agCommand r1), r1)))
         | ReqUnknown \<Rightarrow> Some (Refused UnknownMethod, r)))"

section \<open>The download of a task\<close>

datatype download_error =
    DirError agent_error | NoDirectory | NoCache | TargetError resolve_error | RunError run_error | ExtractError extract_error

text \<open>\<open>found\<close> is the resolved directory, \<open>cache\<close> the name of the new cache directory; \<open>runto\<close> and \<open>extract\<close> are
  the outcomes of \<^verbatim>\<open>RunTo\<close> and \<^verbatim>\<open>Extract\<close>. The last result lists the directories deleted.\<close>

definition agent_download ::
  "(agent_error + string) \<Rightarrow> bool \<Rightarrow> string option \<Rightarrow> (string \<Rightarrow> resolve_error + string) \<Rightarrow> (string \<Rightarrow> run_error option) \<Rightarrow>
   (string \<Rightarrow> string \<Rightarrow> extract_error option) \<Rightarrow> task_spec \<Rightarrow> agent \<Rightarrow> download_error option \<times> agent \<times> string list" where
  "agent_download found mkdir_ok cache resolve runto extract spec r =
     (case found of
        Inl e \<Rightarrow> (Some (DirError e), r, [])
      | Inr dir \<Rightarrow>
          if \<not> mkdir_ok then (Some NoDirectory, r, [])
          else if spArchive spec then
            (case cache of
               None \<Rightarrow> (Some NoCache, r, [])
             | Some c \<Rightarrow>
                 (let r1 = add_cache c r;
                      target = path_Join c (fsrFileName (spMeta spec))
                  in case runto target of
                       Some e \<Rightarrow> (let (r2, gone) = removeCache c r1 in (Some (RunError e), r2, gone))
                     | None \<Rightarrow>
                         (let (r2, gone) = pruneCaches c r1
                          in (map_option ExtractError (extract target dir), r2, gone))))
          else
            (case resolve (path_Join dir (enName (hd (spEntries spec)))) of
               Inl e \<Rightarrow> (Some (TargetError e), r, [])
             | Inr target \<Rightarrow>
                 (case runto target of
                    Some e \<Rightarrow> (Some (RunError e), r, [])
                  | None \<Rightarrow> (let (r2, gone) = pruneCaches [] r in (None, r2, gone)))))"

text \<open>Only the agent's own cache directories are ever deleted, and a successful download leaves at most
  its own.\<close>

lemma only_caches_removed:
  assumes "agent_download found mkdir_ok cache resolve runto extract spec r = (err, r', gone)"
  shows "set gone \<subseteq> set (agCache r) \<union> set_option cache" and "set (agCache r') \<inter> set gone = {}"
    and "err = None \<Longrightarrow> set (agCache r') \<subseteq> (if spArchive spec then set_option cache else {[]})"
  using assms
  by (auto simp: agent_download_def removeCache_def pruneCaches_def add_cache_def Let_def
      split: sum.splits option.splits if_splits)

section \<open>Properties\<close>

text \<open>C37: the agent runs one download and one command at a time. However launches, ends, cancellations,
  progress and closing interleave, the goroutines alive for a slot are exactly one while the slot's
  status is running, the one whose task identifier the state shows, and none otherwise; so an ending
  goroutine always writes its own task's outcome.\<close>

theorem one_task:
  assumes "reachable (\<lambda>p. \<not> task_running (fst p) \<and> snd p = [])
      (slot_step (\<lambda>x r. sum_option (launch ''download'' x r)) launch_end task_other) (r, tasks)"
    and "reachable (\<lambda>p. \<not> command_running (fst p) \<and> snd p = [])
      (slot_step (\<lambda>x r. sum_option (launchCommand x r)) command_end command_other) (q, commands)"
  shows "tasks = (if tsStatus (agTask r) = TRunning then [tsID (agTask r)] else []) \<and>
    commands = (if tsStatus (agCommand q) = TRunning then [tsID (agCommand q)] else [])"
  using task.one_alive [OF assms(1)] command.one_alive [OF assms(2)]
  unfolding fst_conv snd_conv task_running_def command_running_def by (rule conjI)

definition sample_agent :: agent where
  "sample_agent =
     \<lparr>agRoot = ''/w'', agToken = ''k'', agAllow = True, agStopped = False, agDisconnected = False,
      agTask = \<lparr>tsID = [], tsKind = [], tsStatus = TIdle, tsOutput = []\<rparr>,
      agCommand = \<lparr>tsID = [], tsKind = [], tsStatus = TIdle, tsOutput = []\<rparr>,
      agTaskCancelled = False, agCommandCancelled = False, agCache = []\<rparr>"

definition sample_busy :: agent where
  "sample_busy = sample_agent\<lparr>agTask := \<lparr>tsID = ''t'', tsKind = ''download'', tsStatus = TRunning, tsOutput = []\<rparr>\<rparr>"

theorem one_task_witness:
  "\<exists>tasks. tasks = [''t''] \<and> tasks = (if tsStatus (agTask sample_busy) = TRunning then [tsID (agTask sample_busy)] else [])"
proof -
  have t0: "reachable (\<lambda>p. \<not> task_running (fst p) \<and> snd p = [])
      (slot_step (\<lambda>x r. sum_option (launch ''download'' x r)) launch_end task_other) (sample_agent, [])"
    by (rule reach_init) (simp add: task_running_def sample_agent_def)
  have "slot_step (\<lambda>x r. sum_option (launch ''download'' x r)) launch_end task_other (sample_agent, []) (sample_busy, [''t''])"
    by (rule slot_launch) (simp add: launch_def sample_agent_def sample_busy_def)
  with t0 have t1: "reachable (\<lambda>p. \<not> task_running (fst p) \<and> snd p = [])
      (slot_step (\<lambda>x r. sum_option (launch ''download'' x r)) launch_end task_other) (sample_busy, [''t''])"
    by (rule reach_step)
  have c0: "reachable (\<lambda>p. \<not> command_running (fst p) \<and> snd p = [])
      (slot_step (\<lambda>x r. sum_option (launchCommand x r)) command_end command_other) (sample_agent, [])"
    by (rule reach_init) (simp add: command_running_def sample_agent_def)
  show ?thesis using one_task [OF t1 c0] by blast
qed

text \<open>C36: nothing changes in the agent without its key, and with the key only what was asked for. A start
  changes it only after every check: the manifest and names are valid, the probe found the destination
  clear, the sender still offers exactly the file that was previewed, and no task is running. A command
  needs command execution to be enabled and no command running; everything else only reads, or sets
  the cancellation it names.\<close>

theorem control_guard:
  assumes "control w ns meta new_id token req r = Some (rep, r')" and "r' \<noteq> r"
  shows "token = agToken r \<and>
    ((\<exists>spec p. req = ReqStart spec \<and> validateSpec spec = Some None \<and> agent_probe w ns r spec = Some (Inr p) \<and>
        meta = Some (spMeta spec) \<and> \<not> task_running r \<and> \<not> agStopped r \<and> task_running r' \<and> tsID (agTask r') = spID spec \<and>
        agCommand r' = agCommand r) \<or>
     (\<exists>c d. req = ReqCommand c \<and> agAllow r \<and> agent_resolve (paths_of w ns) (agRoot r) (cmDirectory c) = Some (Inr d) \<and>
        \<not> command_running r \<and> \<not> agStopped r \<and> command_running r' \<and> agTask r' = agTask r) \<or>
     (\<exists>q. req = ReqCancel q \<and> r' = r\<lparr>agTaskCancelled := True\<rparr> \<and> (q = [] \<or> q = tsID (agTask r))) \<or>
     (\<exists>q. req = ReqCommandCancel q \<and> r' = r\<lparr>agCommandCancelled := True\<rparr> \<and> (q = [] \<or> q = tsID (agCommand r))))"
proof -
  have token: "token = agToken r" using assms by (auto simp: control_def split: if_splits)
  show ?thesis
  proof (cases req)
    case (ReqStart spec)
    have look: "start_look True spec r = Go"
      using assms token ReqStart by (auto simp: control_def split: first_look.splits)
    obtain p where p: "start_checks w ns meta r spec = Some (Inr p)"
      using assms token ReqStart look by (auto simp: control_def split: option.splits sum.splits)
    have l: "launch ''download'' (spID spec) r = Inr r'"
      using assms token ReqStart look p by (auto simp: control_def split: sum.splits)
    have "validateSpec spec = Some None \<and> agent_probe w ns r spec = Some (Inr p) \<and> meta = Some (spMeta spec)"
      using p by (auto simp: start_checks_def split: option.splits sum.splits if_splits)
    moreover have "\<not> task_running r \<and> \<not> agStopped r \<and> task_running r' \<and> tsID (agTask r') = spID spec \<and> agCommand r' = agCommand r"
      using l by (auto simp: launch_def task_running_def split: if_splits)
    ultimately show ?thesis using token ReqStart by blast
  next
    case (ReqCommand c)
    obtain d where d: "agAllow r" "agent_resolve (paths_of w ns) (agRoot r) (cmDirectory c) = Some (Inr d)"
      using assms token ReqCommand by (auto simp: control_def split: option.splits sum.splits if_splits)
    have l: "launchCommand (if cmID c = [] then new_id else cmID c) r = Inr r'"
      using assms token ReqCommand d by (auto simp: control_def split: sum.splits if_splits)
    have "\<not> command_running r \<and> \<not> agStopped r \<and> command_running r' \<and> agTask r' = agTask r"
      using l by (auto simp: launchCommand_def command_running_def split: if_splits)
    then show ?thesis using token ReqCommand d by blast
  next
    case (ReqCancel q)
    then show ?thesis using assms token by (auto simp: control_def cancel_task_def split: if_splits)
  next
    case (ReqCommandCancel q)
    then show ?thesis using assms token by (auto simp: control_def cancel_command_def split: if_splits)
  qed (use assms token in \<open>auto simp: control_def split: first_look.splits option.splits sum.splits\<close>)
qed

theorem control_guard_witness:
  "\<exists>r'. control sample_sys root_only None [] ''k'' (ReqCancel []) sample_agent = Some (CancelReply, r') \<and>
     r' = sample_agent\<lparr>agTaskCancelled := True\<rparr>"
proof -
  let ?r = "sample_agent\<lparr>agTaskCancelled := True\<rparr>"
  have "control sample_sys root_only None [] ''k'' (ReqCancel []) sample_agent = Some (CancelReply, ?r)"
    by (simp add: control_def cancel_task_def sample_agent_def)
  moreover have "?r \<noteq> sample_agent" by (simp add: sample_agent_def)
  ultimately show ?thesis using control_guard by blast
qed

end
