(* ===== verification/App.thy ===== *)
theory App
  imports Agent
begin

text \<open>
  The application behind the web interface (\<^verbatim>\<open>internal/webui/app.go\<close>, \<^verbatim>\<open>sender.go\<close>, \<^verbatim>\<open>discovery.go\<close>,
  \<^verbatim>\<open>distribution.go\<close>, \<^verbatim>\<open>tasks.go\<close>): the two slots for operations and commands, and the services an
  instance runs: the hub and the source of a sender, the agent and the discovery loop of a receiver,
  the distribution loop. Every function is split into its critical sections under \<^verbatim>\<open>App.mu\<close>; the
  sections of the running operation, of the discovery loops and of \<^verbatim>\<open>Close\<close> interleave. Messages shown
  to the user are left out.
\<close>

section \<open>State\<close>

record config =
  cfDiscover :: bool
  cfMode :: string
  cfFile :: string
  cfSenderAddr :: string
  cfListen :: string
  cfWorkDir :: string
  cfToken :: string
  cfAllow :: bool

record app_operation =
  aoID :: string
  aoKind :: string
  aoStatus :: task_status

record peer_state =
  psInfo :: peer_info
  psReady :: bool
  psProbe :: string
  psWarnings :: "string list"
  psTask :: "task_state option"
  psCommand :: "task_state option"

record source =
  soName :: string
  soArchive :: bool
  soEntries :: "entry list"
  soMeta :: file_status
  soGeneration :: string

record app_dispatch =
  diIDs :: "string list"
  diTarget :: string
  diToken :: string
  diOverwrite :: bool

record app_distribution =
  dbID :: string
  dbActive :: bool
  dbName :: string
  dbTarget :: string
  dbMembers :: nat
  dbExcluded :: nat

text \<open>Hubs, agents and \<^verbatim>\<open>done\<close> channels are numbered by \<open>apNext\<close>. \<open>apLoops\<close> and \<open>apDistLoops\<close> are the
  loops whose \<^verbatim>\<open>done\<close> channel is still open, \<open>apCancelled\<close> the loops whose context is cancelled. The
  probe key is what the canonical JSON text encodes, and \<open>None\<close> for the empty key.\<close>

record app =
  apConfig :: config
  apClosed :: bool
  apHub :: "nat option"
  apSource :: "source option"
  apAgent :: "nat option"
  apOp :: "app_operation option"
  apOpCancelled :: bool
  apCommandOp :: "app_operation option"
  apCommandCancelled :: bool
  apDiscovery :: "nat option"
  apLoops :: "(nat \<times> config) list"
  apDistribution :: "app_distribution option"
  apDistributionDone :: "nat option"
  apDistLoops :: "nat list"
  apCancelled :: "nat list"
  apProbes :: "(string, peer_state) gomap"
  apProbeKey :: "(task_spec \<times> app_dispatch) option"
  apNext :: nat

definition sender_mode :: string where "sender_mode = ''sender''"

definition receiver_mode :: string where "receiver_mode = ''receiver''"

lemma modes_differ [simp]: "sender_mode \<noteq> receiver_mode" "receiver_mode \<noteq> sender_mode" "sender_mode \<noteq> []" "receiver_mode \<noteq> []"
  by (simp_all add: sender_mode_def receiver_mode_def)

text \<open>\<open>absolute\<close> is \<^verbatim>\<open>filepath.Abs\<close>, \<open>getwd\<close> the answer of \<^verbatim>\<open>os.Getwd\<close>.\<close>

definition New :: "(string \<Rightarrow> string option) \<Rightarrow> string option \<Rightarrow> config \<Rightarrow> app option" where
  "New absolute getwd c =
     (if cfMode c \<noteq> [] \<and> cfMode c \<noteq> sender_mode \<and> cfMode c \<noteq> receiver_mode then None
      else
        (case (if cfWorkDir c = [] then getwd else Some (cfWorkDir c)) of
           None \<Rightarrow> None
         | Some wd \<Rightarrow>
             (case absolute wd of
                None \<Rightarrow> None
              | Some wd' \<Rightarrow>
                  Some \<lparr>apConfig = c\<lparr>cfListen := (if cfListen c = [] then '':0'' else cfListen c), cfWorkDir := wd'\<rparr>,
                    apClosed = False, apHub = None, apSource = None, apAgent = None, apOp = None, apOpCancelled = False,
                    apCommandOp = None, apCommandCancelled = False, apDiscovery = None, apLoops = [],
                    apDistribution = None, apDistributionDone = None, apDistLoops = [], apCancelled = [],
                    apProbes = [], apProbeKey = None, apNext = 0\<rparr>)))"

section \<open>Operations and commands\<close>

definition op_running :: "app_operation option \<Rightarrow> bool" where
  "op_running x = (case x of None \<Rightarrow> False | Some p \<Rightarrow> aoStatus p = TRunning)"

definition begin_op :: "string \<Rightarrow> string \<Rightarrow> app \<Rightarrow> app option" where
  "begin_op kind uid a =
     (if apClosed a then None
      else if op_running (apOp a) then None
      else Some (a\<lparr>apOp := Some \<lparr>aoID = uid, aoKind = kind, aoStatus = TRunning\<rparr>, apOpCancelled := False\<rparr>))"

definition op_outcome :: "outcome \<Rightarrow> app_operation \<Rightarrow> app_operation" where
  "op_outcome out p = p\<lparr>aoStatus := (case out of Fine \<Rightarrow> TCompleted | Errored \<Rightarrow> TFailed | ContextCancelled \<Rightarrow> TCancelled)\<rparr>"

definition end_op :: "outcome \<Rightarrow> app \<Rightarrow> app" where
  "end_op out a = a\<lparr>apOp := map_option (op_outcome out) (apOp a)\<rparr>"

definition beginCommand :: "string \<Rightarrow> app \<Rightarrow> app option" where
  "beginCommand uid a =
     (if apClosed a then None
      else if op_running (apCommandOp a) then None
      else Some (a\<lparr>apCommandOp := Some \<lparr>aoID = uid, aoKind = ''command'', aoStatus = TRunning\<rparr>, apCommandCancelled := False\<rparr>))"

definition end_commandOp :: "outcome \<Rightarrow> app \<Rightarrow> app" where
  "end_commandOp out a = a\<lparr>apCommandOp := map_option (op_outcome out) (apCommandOp a)\<rparr>"

text \<open>\<^verbatim>\<open>cancel\<close> with the scope of the request; the result says whether the agent's task or its command is to be
  cancelled too.\<close>

datatype agent_cancel = CancelAgentTask nat | CancelAgentCommand nat | NoAgent

definition cancel_app :: "string \<Rightarrow> app \<Rightarrow> app \<times> agent_cancel" where
  "cancel_app scope a =
     (if scope = ''command'' then
        (a\<lparr>apCommandCancelled := True\<rparr>, case apAgent a of None \<Rightarrow> NoAgent | Some r \<Rightarrow> CancelAgentCommand r)
      else
        (a\<lparr>apOpCancelled := True\<rparr>, case apAgent a of None \<Rightarrow> NoAgent | Some r \<Rightarrow> CancelAgentTask r))"

lemma op_running_outcome [simp]: "\<not> op_running (map_option (op_outcome out) x)"
  by (cases x) (auto simp: op_running_def op_outcome_def split: outcome.splits)

lemma op_running_simps [simp]: "op_running (Some p) \<longleftrightarrow> aoStatus p = TRunning" "\<not> op_running None"
  by (simp_all add: op_running_def)

section \<open>Critical sections\<close>

text \<open>One critical section of a function, or \<open>Work\<close>: calls made outside the locks, which may fail or see
  their context cancelled. A section may put others before those that remain; \<open>HubRead\<close> uses the hub without a check, so
  it panics when there is none.\<close>

datatype sect =
    Work
  | SelectMode string
  | EnsureCheck string
  | EnsureCommit string
  | SourceCheck string string
  | HubRead
  | SourceCommit string string
  | AgentTake config
  | AgentCommit config
  | DiscoveryCheck config
  | DiscoveryTake
  | DiscoveryJoin "nat option"
  | DiscoverySet config
  | DistributionTake
  | DistributionJoin "nat option"
  | DistributionCheck app_dispatch
  | DistributionSet app_dispatch source
  | DistributionPause
  | StopFile
  | StopSender
  | StopReceiver
  | JoinOp
  | JoinCommand
  | CloseTake

datatype result = Next "sect list" app | Abort app | Blocked | Panic

text \<open>What the calls outside the locks produced: the prepared source, the address found, the real working
  directory, a fresh key.\<close>

record input =
  inSource :: source
  inAddr :: string
  inRoot :: string
  inKey :: string

definition fresh :: "app \<Rightarrow> app" where
  "fresh a = a\<lparr>apNext := Suc (apNext a)\<rparr>"

definition select_mode :: "string \<Rightarrow> app \<Rightarrow> result" where
  "select_mode m a =
     (if m \<noteq> [] \<and> m \<noteq> sender_mode \<and> m \<noteq> receiver_mode then Abort a
      else if apHub a \<noteq> None \<or> apSource a \<noteq> None \<or> apAgent a \<noteq> None \<or> apDiscovery a \<noteq> None then Abort a
      else
        (let c = (apConfig a)\<lparr>cfMode := m\<rparr>
         in Next (if m = receiver_mode then [DiscoveryCheck c]
                  else if m = sender_mode then [EnsureCheck (cfListen c)] else [])
              (a\<lparr>apConfig := c, apProbes := [], apProbeKey := None\<rparr>)))"

definition ensure_check :: "string \<Rightarrow> app \<Rightarrow> result" where
  "ensure_check listen a =
     (if apClosed a then Abort a
      else if cfMode (apConfig a) = receiver_mode then Abort a
      else if apHub a \<noteq> None then Next [] a
      else Next [Work, EnsureCommit (if listen = [] then '':0'' else listen)] a)"

definition ensure_commit :: "string \<Rightarrow> app \<Rightarrow> result" where
  "ensure_commit listen a =
     Next [] (fresh (a\<lparr>apHub := Some (apNext a), apConfig := (apConfig a)\<lparr>cfMode := sender_mode, cfListen := listen\<rparr>\<rparr>))"

definition source_check :: "string \<Rightarrow> string \<Rightarrow> app \<Rightarrow> result" where
  "source_check path listen a =
     (if cfMode (apConfig a) = receiver_mode then Abort a
      else if apSource a \<noteq> None then Abort a
      else Next [Work, EnsureCheck listen, HubRead, Work, SourceCommit path listen] a)"

text \<open>A new source makes every earlier probe worthless.\<close>

definition forget_probe :: "peer_state \<Rightarrow> peer_state" where
  "forget_probe p = p\<lparr>psReady := False, psProbe := [], psWarnings := []\<rparr>"

definition source_commit :: "input \<Rightarrow> string \<Rightarrow> string \<Rightarrow> app \<Rightarrow> result" where
  "source_commit i path listen a =
     Next [] (a\<lparr>apSource := Some (inSource i), apProbes := map (\<lambda>(uid, p). (uid, forget_probe p)) (apProbes a),
       apProbeKey := None, apConfig := (apConfig a)\<lparr>cfFile := path, cfListen := listen, cfMode := sender_mode\<rparr>\<rparr>)"

definition agent_take :: "config \<Rightarrow> app \<Rightarrow> result" where
  "agent_take c a =
     (if cfMode (apConfig a) = sender_mode then Abort a
      else Next [Work, AgentCommit c] (a\<lparr>apAgent := None\<rparr>))"

definition agent_commit :: "input \<Rightarrow> config \<Rightarrow> app \<Rightarrow> result" where
  "agent_commit i c a =
     Next [] (fresh (a\<lparr>apAgent := Some (apNext a),
       apConfig := (apConfig a)\<lparr>cfMode := receiver_mode,
         cfSenderAddr := (if cfDiscover c \<or> cfSenderAddr c = [] then inAddr i else cfSenderAddr c),
         cfWorkDir := inRoot i, cfToken := cfToken c, cfAllow := cfAllow c\<rparr>\<rparr>))"

definition discovery_check :: "config \<Rightarrow> app \<Rightarrow> result" where
  "discovery_check c a =
     (if apClosed a then Abort a
      else if cfMode (apConfig a) = sender_mode then Abort a
      else Next [DiscoveryTake, DiscoverySet c] a)"

definition discovery_take :: "app \<Rightarrow> result" where
  "discovery_take a =
     Next [DiscoveryJoin (apDiscovery a)]
       (a\<lparr>apDiscovery := None, apCancelled := (case apDiscovery a of None \<Rightarrow> [] | Some d \<Rightarrow> [d]) @ apCancelled a\<rparr>)"

definition discovery_set :: "config \<Rightarrow> app \<Rightarrow> result" where
  "discovery_set c a =
     (if apClosed a then Abort a
      else Next [] (fresh (a\<lparr>apConfig := (apConfig a)\<lparr>cfMode := receiver_mode, cfToken := cfToken c, cfAllow := cfAllow c\<rparr>,
         apDiscovery := Some (apNext a), apLoops := (apNext a, c) # apLoops a\<rparr>)))"

definition distribution_take :: "app \<Rightarrow> result" where
  "distribution_take a =
     Next [DistributionJoin (apDistributionDone a)]
       (a\<lparr>apDistributionDone := None,
          apCancelled := (case apDistributionDone a of None \<Rightarrow> [] | Some d \<Rightarrow> [d]) @ apCancelled a,
          apDistribution := map_option (\<lambda>x. x\<lparr>dbActive := False\<rparr>) (apDistribution a)\<rparr>)"

definition distribution_check :: "app_dispatch \<Rightarrow> app \<Rightarrow> result" where
  "distribution_check d a =
     (case apSource a of
        None \<Rightarrow> Abort a
      | Some s \<Rightarrow>
          if (case apDistribution a of None \<Rightarrow> False | Some x \<Rightarrow> dbActive x) then Abort a
          else Next ((if apDistributionDone a \<noteq> None then [DistributionTake] else []) @ [DistributionSet d s]) a)"

definition distribution_set :: "input \<Rightarrow> app_dispatch \<Rightarrow> source \<Rightarrow> app \<Rightarrow> result" where
  "distribution_set i d s a =
     Next [] (fresh (a\<lparr>apDistributionDone := Some (apNext a), apDistLoops := apNext a # apDistLoops a,
       apDistribution := Some \<lparr>dbID = inKey i, dbActive = True, dbName = soName s, dbTarget = diTarget d,
         dbMembers = 0, dbExcluded = 0\<rparr>,
       apProbeKey := None\<rparr>))"

definition pauseDistribution :: "app \<Rightarrow> app" where
  "pauseDistribution a = a\<lparr>apDistribution := map_option (\<lambda>x. x\<lparr>dbActive := False\<rparr>) (apDistribution a)\<rparr>"

definition stop_file :: "app \<Rightarrow> app" where
  "stop_file a = a\<lparr>apSource := None, apProbeKey := None\<rparr>"

definition stop_sender :: "app \<Rightarrow> app" where
  "stop_sender a = a\<lparr>apHub := None, apSource := None, apProbes := [], apProbeKey := None\<rparr>"

definition stop_receiver :: "app \<Rightarrow> app" where
  "stop_receiver a = a\<lparr>apAgent := None\<rparr>"

definition close_take :: "app \<Rightarrow> app" where
  "close_take a = a\<lparr>apHub := None, apSource := None, apAgent := None\<rparr>"

fun run_sect :: "input \<Rightarrow> sect \<Rightarrow> app \<Rightarrow> result" where
  "run_sect i Work a = Next [] a"
| "run_sect i (SelectMode m) a = select_mode m a"
| "run_sect i (EnsureCheck listen) a = ensure_check listen a"
| "run_sect i (EnsureCommit listen) a = ensure_commit listen a"
| "run_sect i (SourceCheck path listen) a = source_check path listen a"
| "run_sect i HubRead a = (if apHub a = None then Panic else Next [] a)"
| "run_sect i (SourceCommit path listen) a = source_commit i path listen a"
| "run_sect i (AgentTake c) a = agent_take c a"
| "run_sect i (AgentCommit c) a = agent_commit i c a"
| "run_sect i (DiscoveryCheck c) a = discovery_check c a"
| "run_sect i DiscoveryTake a = discovery_take a"
| "run_sect i (DiscoveryJoin d) a = (if \<exists>(n, c) \<in> set (apLoops a). d = Some n then Blocked else Next [] a)"
| "run_sect i (DiscoverySet c) a = discovery_set c a"
| "run_sect i DistributionTake a = distribution_take a"
| "run_sect i (DistributionJoin d) a = (if \<exists>n \<in> set (apDistLoops a). d = Some n then Blocked else Next [] a)"
| "run_sect i (DistributionCheck d) a = distribution_check d a"
| "run_sect i (DistributionSet d s) a = distribution_set i d s a"
| "run_sect i DistributionPause a = Next [] (pauseDistribution a)"
| "run_sect i StopFile a = Next [] (stop_file a)"
| "run_sect i StopSender a = Next [] (stop_sender a)"
| "run_sect i StopReceiver a = Next [] (stop_receiver a)"
| "run_sect i JoinOp a = (if op_running (apOp a) then Blocked else Next [] a)"
| "run_sect i JoinCommand a = (if op_running (apCommandOp a) then Blocked else Next [] a)"
| "run_sect i CloseTake a = Next [] (close_take a)"

section \<open>Actions and threads\<close>

text \<open>The actions of the web interface other than commands. Probing and dispatching change only what is
  known of the peers, in between calls (theory \<open>Peers\<close>).\<close>

datatype action =
    ActMode string | ActSender string string | ActReceiver config | ActManual config | ActFileStop
  | ActDistribute app_dispatch | ActPause | ActSenderStop | ActReceiverStop | ActPeers

fun program :: "action \<Rightarrow> sect list" where
  "program (ActMode m) = [SelectMode m]"
| "program (ActSender path listen) =
     (if path = [] then [EnsureCheck (if listen = [] then '':0'' else listen)]
      else [SourceCheck path (if listen = [] then '':0'' else listen)])"
| "program (ActReceiver c) = [DiscoveryCheck c]"
| "program (ActManual c) = [DiscoveryTake, AgentTake (c\<lparr>cfDiscover := False\<rparr>), DiscoveryCheck (c\<lparr>cfDiscover := False\<rparr>)]"
| "program ActFileStop = [DistributionTake, StopFile]"
| "program (ActDistribute d) = [DistributionCheck d]"
| "program ActPause = [DistributionPause]"
| "program ActSenderStop = [DistributionTake, StopSender]"
| "program ActReceiverStop = [DiscoveryTake, StopReceiver]"
| "program ActPeers = [Work]"

text \<open>\<^verbatim>\<open>AutoStart\<close> of a sender is an operation; that of a receiver starts discovery.\<close>

definition autostart_sender :: "config \<Rightarrow> sect list" where
  "autostart_sender c = EnsureCheck (cfListen c) # (if cfFile c \<noteq> [] then [SourceCheck (cfFile c) (cfListen c)] else [])"

definition close_program :: "sect list" where
  "close_program = [JoinOp, JoinCommand, DistributionTake, DiscoveryTake, CloseTake]"

definition close_mark :: "app \<Rightarrow> app" where
  "close_mark a = a\<lparr>apClosed := True, apOpCancelled := True, apCommandCancelled := True\<rparr>"

text \<open>The threads: what remains of the running operation, of the turn each discovery loop is in, and of
  \<^verbatim>\<open>Close\<close>.\<close>

record threads =
  thOp :: "sect list"
  thLoop :: "nat \<Rightarrow> sect list"
  thClose :: "sect list"

text \<open>The discovery loop. Before its turns it tries the startup address once; a turn looks at the current
  agent (whether it is disconnected, its key and whether it allows commands), searches, and checks a
  connected agent's health. \<open>found\<close> is the address discovered and \<open>healthy\<close> the outcome of the check.\<close>

datatype loop_turn = Connect config | MarkDisconnected | KeepOn

definition discover_first :: "config \<Rightarrow> bool \<Rightarrow> loop_turn" where
  "discover_first c has_agent =
     (if \<not> has_agent \<and> cfSenderAddr c \<noteq> [] \<and> \<not> cfDiscover c then Connect (c\<lparr>cfDiscover := False\<rparr>) else KeepOn)"

definition discover_turn :: "config \<Rightarrow> (bool \<times> string \<times> bool) option \<Rightarrow> string option \<Rightarrow> bool \<Rightarrow> loop_turn" where
  "discover_turn c current found healthy =
     (let connected = (case current of
            None \<Rightarrow> False
          | Some (gone, token, allow) \<Rightarrow> \<not> gone \<and> token = cfToken c \<and> allow = cfAllow c)
      in if connected then (if healthy then KeepOn else MarkDisconnected)
         else
           (case found of
              None \<Rightarrow> KeepOn
            | Some addr \<Rightarrow> Connect (c\<lparr>cfSenderAddr := addr, cfDiscover := False\<rparr>)))"

text \<open>A connected agent with the loop's key and permission is never replaced.\<close>

lemma connected_agent_kept: "discover_turn c (Some (False, cfToken c, cfAllow c)) found healthy \<noteq> Connect c'"
  by (simp add: discover_turn_def)

inductive app_step :: "app \<times> threads \<Rightarrow> app \<times> threads \<Rightarrow> bool" where
  step_begin:
    "begin_op kind uid a = Some b \<Longrightarrow> p = program act \<or> p = autostart_sender (apConfig a) \<Longrightarrow>
     app_step (a, t) (b, t\<lparr>thOp := p\<rparr>)"
| step_op: "thOp t = x # rest \<Longrightarrow> run_sect i x a = Next p b \<Longrightarrow> app_step (a, t) (b, t\<lparr>thOp := p @ rest\<rparr>)"
| step_op_abort: "thOp t = x # rest \<Longrightarrow> run_sect i x a = Abort b \<Longrightarrow> app_step (a, t) (b, t\<lparr>thOp := []\<rparr>)"
| step_op_fail: "thOp t = Work # rest \<Longrightarrow> app_step (a, t) (a, t\<lparr>thOp := []\<rparr>)"
| step_op_end: "thOp t = [] \<Longrightarrow> op_running (apOp a) \<Longrightarrow> app_step (a, t) (end_op out a, t)"
| step_loop_turn:
    "(n, c) \<in> set (apLoops a) \<Longrightarrow> thLoop t n = [] \<Longrightarrow> n \<notin> set (apCancelled a) \<Longrightarrow>
     discover_first c (apAgent a \<noteq> None) = Connect c' \<or> discover_turn c current found healthy = Connect c' \<Longrightarrow>
     app_step (a, t) (a, t\<lparr>thLoop := (thLoop t)(n := [AgentTake c'])\<rparr>)"
| step_loop:
    "(n, c) \<in> set (apLoops a) \<Longrightarrow> thLoop t n = x # rest \<Longrightarrow> run_sect i x a = Next p b \<Longrightarrow>
     app_step (a, t) (b, t\<lparr>thLoop := (thLoop t)(n := p @ rest)\<rparr>)"
| step_loop_abort:
    "(n, c) \<in> set (apLoops a) \<Longrightarrow> thLoop t n = x # rest \<Longrightarrow> run_sect i x a = Abort b \<Longrightarrow>
     app_step (a, t) (b, t\<lparr>thLoop := (thLoop t)(n := [])\<rparr>)"
| step_loop_fail:
    "(n, c) \<in> set (apLoops a) \<Longrightarrow> thLoop t n = Work # rest \<Longrightarrow> app_step (a, t) (a, t\<lparr>thLoop := (thLoop t)(n := [])\<rparr>)"
| step_loop_end:
    "(n, c) \<in> set (apLoops a) \<Longrightarrow> thLoop t n = [] \<Longrightarrow> n \<in> set (apCancelled a) \<Longrightarrow>
     app_step (a, t) (a\<lparr>apLoops := filter (\<lambda>(m, _). m \<noteq> n) (apLoops a)\<rparr>, t)"
| step_distribution_end:
    "n \<in> set (apDistLoops a) \<Longrightarrow> n \<in> set (apCancelled a) \<Longrightarrow>
     app_step (a, t) (a\<lparr>apDistLoops := filter (\<lambda>m. m \<noteq> n) (apDistLoops a)\<rparr>, t)"
| step_distribution_count:
    "app_step (a, t) (a\<lparr>apDistribution := map_option (\<lambda>x. x\<lparr>dbMembers := i, dbExcluded := j\<rparr>) (apDistribution a)\<rparr>, t)"
| step_close: "\<not> apClosed a \<Longrightarrow> app_step (a, t) (close_mark a, t\<lparr>thClose := close_program\<rparr>)"
| step_closing: "thClose t = x # rest \<Longrightarrow> run_sect i x a = Next p b \<Longrightarrow> app_step (a, t) (b, t\<lparr>thClose := p @ rest\<rparr>)"
| step_command: "beginCommand uid a = Some b \<Longrightarrow> app_step (a, t) (b, t)"
| step_command_end: "app_step (a, t) (end_commandOp out a, t)"
| step_cancel: "app_step (a, t) (fst (cancel_app scope a), t)"
| step_peers: "\<not> apClosed a \<or> op_running (apOp a) \<or> op_running (apCommandOp a) \<or> apDistLoops a \<noteq> [] \<Longrightarrow>
     app_step (a, t) (a\<lparr>apProbes := m, apProbeKey := k\<rparr>, t)"

text \<open>The application starts as \<^verbatim>\<open>New\<close> makes it, in receiver mode after \<^verbatim>\<open>AutoStart\<close> has started discovery.\<close>

definition app_init :: "app \<times> threads \<Rightarrow> bool" where
  "app_init s \<longleftrightarrow>
     (\<exists>absolute getwd c a. New absolute getwd c = Some a \<and> thOp (snd s) = [] \<and> thClose (snd s) = [] \<and> (\<forall>n. thLoop (snd s) n = []) \<and>
        (if cfMode c = receiver_mode then discovery_set (apConfig a) a = Next [] (fst s) else fst s = a))"

section \<open>What the threads know\<close>

text \<open>Facts a thread has established and that the others keep: what each section needs of the state, and
  what is known after it.\<close>

datatype fact =
    HasHub | NotReceiver | NotSender | NoDiscovery | Quiet | NoDistribution | DistQuiet | HasSource | Closed | OpIdle | Emptied

fun holds :: "app \<Rightarrow> fact \<Rightarrow> bool" where
  "holds a HasHub = (apHub a \<noteq> None)"
| "holds a NotReceiver = (cfMode (apConfig a) \<noteq> receiver_mode)"
| "holds a NotSender = (cfMode (apConfig a) \<noteq> sender_mode)"
| "holds a NoDiscovery = (apDiscovery a = None)"
| "holds a Quiet = (apDiscovery a = None \<and> apLoops a = [])"
| "holds a NoDistribution = (apDistributionDone a = None)"
| "holds a DistQuiet = (apDistributionDone a = None \<and> apDistLoops a = [])"
| "holds a HasSource = (apSource a \<noteq> None)"
| "holds a Closed = apClosed a"
| "holds a OpIdle = (apClosed a \<and> \<not> op_running (apOp a))"
| "holds a Emptied = (apHub a = None \<and> apSource a = None \<and> apAgent a = None \<and> apLoops a = [])"

fun needs :: "sect \<Rightarrow> fact set" where
  "needs (EnsureCommit listen) = {NotReceiver}"
| "needs HubRead = {HasHub}"
| "needs (SourceCommit path listen) = {HasHub}"
| "needs (AgentTake c) = {Quiet}"
| "needs (AgentCommit c) = {NotSender, Quiet}"
| "needs (DiscoverySet c) = {NotSender, Quiet}"
| "needs StopReceiver = {Quiet}"
| "needs (DistributionSet d s) = {HasSource, DistQuiet}"
| "needs StopFile = {DistQuiet}"
| "needs StopSender = {DistQuiet}"
| "needs JoinOp = {Closed}"
| "needs CloseTake = {OpIdle, Quiet, DistQuiet}"
| "needs x = {}"

fun learns :: "sect \<Rightarrow> fact set \<Rightarrow> fact set" where
  "learns Work K = K"
| "learns (EnsureCheck listen) K = {HasHub}"
| "learns (EnsureCommit listen) K = {HasHub}"
| "learns HubRead K = K"
| "learns DiscoveryTake K = insert Quiet K"
| "learns (DiscoveryJoin d) K = (if NoDiscovery \<in> K then insert Quiet K else K)"
| "learns DistributionTake K = insert DistQuiet K"
| "learns (DistributionJoin d) K = (if NoDistribution \<in> K then insert DistQuiet K else K)"
| "learns JoinOp K = insert OpIdle K"
| "learns JoinCommand K = K"
| "learns CloseTake K = insert Emptied (K - {HasHub, HasSource})"
| "learns x K = {}"

fun leads_to :: "fact set \<Rightarrow> fact set \<Rightarrow> sect list \<Rightarrow> bool" where
  "leads_to G K [] \<longleftrightarrow> G \<subseteq> K"
| "leads_to G K (x # rest) \<longleftrightarrow> needs x \<subseteq> K \<and> leads_to G (learns x K) rest"

lemma learns_mono: "K \<subseteq> L \<Longrightarrow> learns x K \<subseteq> learns x L"
  by (cases x) auto

lemma leads_to_mono: "leads_to G K p \<Longrightarrow> K \<subseteq> L \<Longrightarrow> leads_to G L p"
proof (induction p arbitrary: K L)
  case (Cons x p)
  have "leads_to G (learns x K) p" "needs x \<subseteq> L" using Cons.prems by auto
  with Cons.IH [OF _ learns_mono [OF Cons.prems(2)]] show ?case by simp
qed auto

lemma leads_to_insert [simp]: "leads_to G K p \<Longrightarrow> leads_to G (insert f K) p"
  by (rule leads_to_mono) auto

definition knows :: "app \<Rightarrow> fact set \<Rightarrow> sect list \<Rightarrow> bool" where
  "knows a G p \<longleftrightarrow> (\<exists>K. (\<forall>f \<in> K. holds a f) \<and> leads_to G K p)"

lemma knowsI: "(\<And>f. f \<in> K \<Longrightarrow> holds a f) \<Longrightarrow> leads_to G K p \<Longrightarrow> knows a G p"
  unfolding knows_def by blast

section \<open>The roles of an instance\<close>

definition role_ok :: "app \<Rightarrow> bool" where
  "role_ok a \<longleftrightarrow>
     (apHub a \<noteq> None \<or> apSource a \<noteq> None \<longrightarrow> cfMode (apConfig a) = sender_mode) \<and>
     (apAgent a \<noteq> None \<or> apDiscovery a \<noteq> None \<or> apLoops a \<noteq> [] \<longrightarrow> cfMode (apConfig a) = receiver_mode) \<and>
     (apSource a \<noteq> None \<longrightarrow> apHub a \<noteq> None) \<and>
     (apDistLoops a \<noteq> [] \<longrightarrow> apSource a \<noteq> None) \<and>
     length (apLoops a) \<le> 1 \<and> length (apDistLoops a) \<le> 1"

text \<open>The loop a thread is about to wait for.\<close>

fun joins :: "sect list \<Rightarrow> nat set" where
  "joins (DiscoveryJoin d # p) = set_option d"
| "joins p = {}"

fun dist_joins :: "sect list \<Rightarrow> nat set" where
  "dist_joins (DistributionJoin d # p) = set_option d"
| "dist_joins p = {}"

definition loops_owned :: "app \<Rightarrow> nat set \<Rightarrow> nat set \<Rightarrow> bool" where
  "loops_owned a waited dist_waited \<longleftrightarrow>
     fst ` set (apLoops a) \<subseteq> set_option (apDiscovery a) \<union> waited \<and>
     set (apDistLoops a) \<subseteq> set_option (apDistributionDone a) \<union> dist_waited"

lemmas sect_defs = select_mode_def ensure_check_def ensure_commit_def source_check_def source_commit_def agent_take_def
  agent_commit_def discovery_check_def discovery_take_def discovery_set_def distribution_take_def distribution_check_def
  distribution_set_def pauseDistribution_def stop_file_def stop_sender_def stop_receiver_def close_take_def fresh_def

lemma run_role:
  assumes "run_sect i x a = Next p b" and "role_ok a" and "knows a G (x # rest)" and "loops_owned a (joins (x # rest)) (dist_joins (x # rest))"
  shows "role_ok b"
proof -
  have K: "\<forall>f \<in> needs x. holds a f" using assms(3) by (auto simp: knows_def)
  show ?thesis
  proof (cases x)
    case (SelectMode m)
    then show ?thesis using assms(1,2,4)
      by (clarsimp simp: sect_defs role_ok_def loops_owned_def Let_def split: if_splits)
  qed (use assms(1,2) K in \<open>clarsimp simp: sect_defs role_ok_def split: if_splits option.splits\<close>)+
qed

lemma leads_to_least: "leads_to G {} p \<Longrightarrow> leads_to G K p"
  by (rule leads_to_mono) auto

lemma joined:
  "loops_owned a (set_option d) e \<Longrightarrow> apDiscovery a = None \<Longrightarrow> \<not> (\<exists>(n, c) \<in> set (apLoops a). d = Some n) \<Longrightarrow> apLoops a = []"
  by (cases "apLoops a"; cases d) (auto simp: loops_owned_def)

lemma dist_joined:
  "loops_owned a e (set_option d) \<Longrightarrow> apDistributionDone a = None \<Longrightarrow> \<not> (\<exists>n \<in> set (apDistLoops a). d = Some n) \<Longrightarrow> apDistLoops a = []"
  by (cases "apDistLoops a"; cases d) (auto simp: loops_owned_def)

lemma run_knows:
  assumes run: "run_sect i x a = Next p b" and know: "knows a G (x # rest)"
    and own: "loops_owned a (joins (x # rest)) (dist_joins (x # rest))"
  shows "knows b G (p @ rest)"
proof -
  obtain K where K: "\<And>f. f \<in> K \<Longrightarrow> holds a f" "needs x \<subseteq> K" "leads_to G (learns x K) rest"
    using know by (auto simp: knows_def)
  have nx: "\<And>f. f \<in> needs x \<Longrightarrow> holds a f" using K(1,2) by auto
  have none: "knows b G (p @ rest)" if "learns x K = {}" and "p = []"
    using K(3) that by (intro knowsI [of "{}"]) auto
  have same: "knows b G (p @ rest)" if "learns x K = K" and "p = []" and "b = a"
    using K(1,3) that by (intro knowsI [of K]) auto
  show ?thesis
  proof (cases x)
    case (SelectMode m)
    then show ?thesis using run K(3)
      by (intro knowsI [of "{}"]) (auto simp: sect_defs Let_def split: if_splits intro: leads_to_least)
  next
    case (EnsureCheck m)
    show ?thesis
    proof (cases "apHub a = None")
      case True
      with run EnsureCheck K(3) show ?thesis
        by (intro knowsI [of "{NotReceiver}"]) (auto simp: sect_defs split: if_splits)
    next
      case False
      with run EnsureCheck K(3) show ?thesis
        by (intro knowsI [of "{HasHub}"]) (auto simp: sect_defs split: if_splits)
    qed
  next
    case (EnsureCommit m)
    then show ?thesis using run K(3)
      by (intro knowsI [of "{HasHub}"]) (auto simp: sect_defs)
  next
    case (AgentTake m)
    then show ?thesis using run K(3) nx
      by (intro knowsI [of "{NotSender, Quiet}"]) (auto simp: sect_defs split: if_splits intro: leads_to_least)
  next
    case (DiscoveryCheck m)
    then show ?thesis using run K(3)
      by (intro knowsI [of "{NotSender}"]) (auto simp: sect_defs split: if_splits intro: leads_to_least)
  next
    case DiscoveryTake
    have "holds b f" if "f \<in> insert NoDiscovery K" for f
      using that run DiscoveryTake K(1) [of f] by (cases f) (auto simp: sect_defs)
    moreover have "leads_to G (learns x (insert NoDiscovery K)) rest" by (rule leads_to_mono [OF K(3) learns_mono]) auto
    ultimately show ?thesis using run DiscoveryTake
      by (intro knowsI [of "insert NoDiscovery K"]) (auto simp: sect_defs)
  next
    case (DiscoveryJoin d)
    have "holds b f" if "f \<in> learns x K" for f
      using that run DiscoveryJoin K(1) [of f] K(1) [of NoDiscovery] joined [of a d] own by (simp split: if_splits) auto
    then show ?thesis using run DiscoveryJoin K(3)
      by (intro knowsI [of "learns x K"]) (auto split: if_splits)
  next
    case DistributionTake
    have "holds b f" if "f \<in> insert NoDistribution K" for f
      using that run DistributionTake K(1) [of f] by (cases f) (auto simp: sect_defs)
    moreover have "leads_to G (learns x (insert NoDistribution K)) rest" by (rule leads_to_mono [OF K(3) learns_mono]) auto
    ultimately show ?thesis using run DistributionTake
      by (intro knowsI [of "insert NoDistribution K"]) (auto simp: sect_defs)
  next
    case (DistributionJoin d)
    have "holds b f" if "f \<in> learns x K" for f
      using that run DistributionJoin K(1) [of f] K(1) [of NoDistribution] dist_joined [of a _ d] own by (simp split: if_splits) auto
    then show ?thesis using run DistributionJoin K(3)
      by (intro knowsI [of "learns x K"]) (auto split: if_splits)
  next
    case (DistributionCheck d)
    show ?thesis
    proof (cases "apDistributionDone a = None")
      case True
      with run DistributionCheck K(3) own show ?thesis
        by (intro knowsI [of "{HasSource, DistQuiet}"])
          (auto simp: sect_defs loops_owned_def split: if_splits option.splits intro: leads_to_least)
    next
      case False
      with run DistributionCheck K(3) show ?thesis
        by (intro knowsI [of "{HasSource}"]) (auto simp: sect_defs split: if_splits option.splits intro: leads_to_least)
    qed
  next
    case JoinOp
    have "holds b f" if "f \<in> learns x K" for f
      using that run JoinOp K(1) [of f] nx by (auto split: if_splits)
    then show ?thesis using run JoinOp K(3) by (intro knowsI [of "learns x K"]) (auto split: if_splits)
  next
    case CloseTake
    have "apLoops a = []" using nx [of Quiet] CloseTake by simp
    then have "holds b f" if "f \<in> learns x K" for f
      using that run CloseTake K(1) [of f] by (cases f) (auto simp: close_take_def)
    then show ?thesis using run CloseTake K(3) by (intro knowsI [of "learns x K"]) auto
  next
    case (SourceCheck path m)
    then show ?thesis using run K(3)
      by (intro knowsI [of "{}"]) (auto simp: sect_defs split: if_splits)
  qed ((rule none; insert run; simp add: sect_defs split: if_splits; fail) | (rule same; insert run; clarsimp split: if_splits; fail))+
qed

lemma run_owned:
  assumes run: "run_sect i x a = Next p b" and know: "knows a G (x # rest)"
    and own: "loops_owned a (joins (x # rest)) (dist_joins (x # rest))"
  shows "loops_owned b (joins (p @ rest)) (dist_joins (p @ rest))"
proof -
  have nx: "\<forall>f \<in> needs x. holds a f" using know by (auto simp: knows_def)
  show ?thesis
  proof (cases x)
    case (DiscoveryJoin d)
    then show ?thesis using run own by (clarsimp simp: loops_owned_def split: if_splits) (use image_iff in fastforce)
  next
    case (DistributionJoin d)
    then show ?thesis using run own by (clarsimp simp: loops_owned_def split: if_splits) blast
  next
    case (DiscoverySet c)
    then show ?thesis using run own nx by (auto simp: sect_defs loops_owned_def split: if_splits)
  next
    case (DistributionSet d s)
    have "apLoops b = apLoops a" "apDiscovery b = apDiscovery a" "apDistLoops b = [apNext a]"
      "apDistributionDone b = Some (apNext a)" "p = []"
      using run nx DistributionSet by (clarsimp simp: sect_defs)+
    with own DistributionSet show ?thesis by (simp add: loops_owned_def le_supI1)
  qed (use run own in \<open>clarsimp simp: sect_defs loops_owned_def Let_def subset_iff split: if_splits option.splits; blast\<close>)+
qed

lemma run_frame:
  "run_sect i x a = Next p b \<Longrightarrow> apOp b = apOp a \<and> apCommandOp b = apCommandOp a \<and> apClosed b = apClosed a"
  by (cases x) (auto simp: sect_defs Let_def split: if_splits option.splits)

lemma run_abort: "run_sect i x a = Abort b \<Longrightarrow> b = a"
  by (cases x) (auto simp: sect_defs Let_def split: if_splits option.splits)

text \<open>What the other steps leave of the state the roles depend on.\<close>

definition same_roles :: "app \<Rightarrow> app \<Rightarrow> bool" where
  "same_roles a b \<longleftrightarrow>
     apHub b = apHub a \<and> apSource b = apSource a \<and> apAgent b = apAgent a \<and> apConfig b = apConfig a \<and>
     apDiscovery b = apDiscovery a \<and> apDistributionDone b = apDistributionDone a \<and>
     (apLoops b = apLoops a \<or> apLoops b = []) \<and> (apDistLoops b = apDistLoops a \<or> apDistLoops b = []) \<and>
     (apClosed a \<longrightarrow> apClosed b \<and> (\<not> op_running (apOp a) \<longrightarrow> \<not> op_running (apOp b)))"

lemma same_roles_role: "same_roles a b \<Longrightarrow> role_ok a \<Longrightarrow> role_ok b"
  unfolding same_roles_def role_ok_def by (elim conjE disjE) simp_all

lemma same_roles_holds: "same_roles a b \<Longrightarrow> holds a f \<Longrightarrow> holds b f"
  by (cases f) (auto simp: same_roles_def)

lemma same_roles_owned: "same_roles a b \<Longrightarrow> loops_owned a d e \<Longrightarrow> loops_owned b d e"
  unfolding same_roles_def loops_owned_def by (elim conjE disjE) simp_all

lemma knows_stable: "knows a G p \<Longrightarrow> (\<And>f. holds a f \<Longrightarrow> holds b f) \<Longrightarrow> knows b G p"
  unfolding knows_def by blast

lemma knows_nothing [simp]: "knows a {} []"
  by (intro knowsI [of "{}"]) simp_all

section \<open>The invariant of the threads\<close>

text \<open>A discovery loop is between turns or in \<^verbatim>\<open>startAgent\<close>.\<close>

inductive loop_shape :: "sect list \<Rightarrow> bool" where
  "loop_shape []"
| "loop_shape [AgentTake c]"
| "loop_shape [Work, AgentCommit c]"
| "loop_shape [AgentCommit c]"

inductive_cases loop_shape_cons: "loop_shape (x # rest)"

definition close_goal :: "fact set" where
  "close_goal = {OpIdle, Quiet, DistQuiet, Emptied}"

definition op_ok :: "app \<Rightarrow> sect list \<Rightarrow> bool" where
  "op_ok a p \<longleftrightarrow> (p \<noteq> [] \<longrightarrow> op_running (apOp a)) \<and> knows a {} p"

definition close_ok :: "app \<Rightarrow> sect list \<Rightarrow> bool" where
  "close_ok a p \<longleftrightarrow>
     (if apClosed a then p = close_program \<or> \<not> op_running (apOp a) \<and> knows a close_goal p else p = [])"

definition app_inv :: "app \<times> threads \<Rightarrow> bool" where
  "app_inv s \<longleftrightarrow>
     (case s of (a, t) \<Rightarrow>
        role_ok a \<and> op_ok a (thOp t) \<and> close_ok a (thClose t) \<and> (\<forall>n. loop_shape (thLoop t n)) \<and>
        loops_owned a (joins (thOp t) \<union> joins (thClose t)) (dist_joins (thOp t) \<union> dist_joins (thClose t)))"

lemma close_program_knows: "apClosed a \<Longrightarrow> knows a close_goal close_program"
  by (intro knowsI [of "{Closed}"]) (auto simp: close_program_def close_goal_def)

lemma close_program_joins [simp]: "joins close_program = {}" "dist_joins close_program = {}"
  by (simp_all add: close_program_def)

lemma program_knows: "p = program act \<or> p = autostart_sender c \<Longrightarrow> knows a {} p \<and> joins p = {} \<and> dist_joins p = {}"
  by (cases act) (auto simp: autostart_sender_def intro!: knowsI [of "{}"] split: if_splits)

lemma close_okD: "close_ok a p \<Longrightarrow> op_running (apOp a) \<Longrightarrow> joins p = {} \<and> dist_joins p = {}"
  by (auto simp: close_ok_def split: if_splits)

lemma inv_op:
  assumes inv: "app_inv (a, t)" and op: "thOp t = x # rest" and run: "run_sect i x a = Next p b"
  shows "app_inv (b, t\<lparr>thOp := p @ rest\<rparr>)"
proof -
  have a: "role_ok a" "op_running (apOp a)" "knows a {} (x # rest)" "close_ok a (thClose t)" "\<forall>n. loop_shape (thLoop t n)"
    using inv op by (simp_all add: app_inv_def op_ok_def)
  have none: "joins (thClose t) = {}" "dist_joins (thClose t) = {}" using close_okD [OF a(4,2)] by simp_all
  with inv op have own: "loops_owned a (joins (x # rest)) (dist_joins (x # rest))" by (simp add: app_inv_def)
  note f = run_frame [OF run]
  have "close_ok b (thClose t)" using a(2,4) f by (simp add: close_ok_def split: if_splits)
  with run_role [OF run a(1,3) own] run_knows [OF run a(3) own] run_owned [OF run a(3) own] a f none
  show ?thesis by (simp add: app_inv_def op_ok_def)
qed

lemma inv_close:
  assumes inv: "app_inv (a, t)" and cl: "thClose t = x # rest" and run: "run_sect i x a = Next p b"
  shows "app_inv (b, t\<lparr>thClose := p @ rest\<rparr>)"
proof -
  have c: "apClosed a" "close_ok a (x # rest)" "op_ok a (thOp t)" "role_ok a" "\<forall>n. loop_shape (thLoop t n)"
    using inv cl by (auto simp: app_inv_def close_ok_def split: if_splits)
  have idle: "\<not> op_running (apOp a)"
  proof (cases "x # rest = close_program")
    case True
    then show ?thesis using run by (auto simp: close_program_def split: if_splits)
  next
    case False
    then show ?thesis using c by (simp add: close_ok_def)
  qed
  have know: "knows a close_goal (x # rest)" using c close_program_knows [of a] by (auto simp: close_ok_def)
  have none: "thOp t = []" using c(3) idle by (auto simp: op_ok_def)
  with inv cl have own: "loops_owned a (joins (x # rest)) (dist_joins (x # rest))" by (simp add: app_inv_def)
  note f = run_frame [OF run]
  from run_role [OF run c(4) know own] run_knows [OF run know own] run_owned [OF run know own] c f none idle
  show ?thesis by (simp add: app_inv_def op_ok_def close_ok_def)
qed

lemma loop_keeps:
  assumes "n \<in> fst ` set (apLoops a)" and "loop_shape (x # rest)" and "run_sect i x a = Next p b" and "role_ok a"
  shows "role_ok b \<and> loop_shape (p @ rest) \<and> (holds a f \<longrightarrow> holds b f) \<and> (loops_owned a d e \<longrightarrow> loops_owned b d e)"
proof -
  have r: "apLoops a \<noteq> []" "cfMode (apConfig a) = receiver_mode" "apHub a = None" "apSource a = None"
    using assms(1,4) by (auto simp: role_ok_def)
  consider (take) c where "x = AgentTake c" "rest = []" | (work) c where "x = Work" "rest = [AgentCommit c]"
    | (commit) c where "x = AgentCommit c" "rest = []"
    using assms(2) by (blast elim: loop_shape_cons)
  then show ?thesis
  proof cases
    case take
    then have b: "b = a\<lparr>apAgent := None\<rparr>" "p = [Work, AgentCommit c]" using assms(3) r by (simp_all add: agent_take_def)
    have "role_ok b" using assms(4) by (simp add: role_ok_def b(1))
    moreover have "holds a f \<Longrightarrow> holds b f" using r by (cases f) (simp_all add: b(1))
    ultimately show ?thesis using take by (simp add: b loops_owned_def loop_shape.intros)
  next
    case work
    then show ?thesis using assms(3,4) by (auto intro: loop_shape.intros)
  next
    case commit
    then have b: "apHub b = None" "apSource b = None" "apDiscovery b = apDiscovery a" "apLoops b = apLoops a"
      "apDistributionDone b = apDistributionDone a" "apDistLoops b = apDistLoops a" "apClosed b = apClosed a"
      "apOp b = apOp a" "cfMode (apConfig b) = receiver_mode" "p = []"
      using assms(3) r by (auto simp: agent_commit_def fresh_def)
    have "role_ok b" using assms(4) r by (simp add: role_ok_def b)
    moreover have "holds a f \<Longrightarrow> holds b f" using r by (cases f) (simp_all add: b)
    ultimately show ?thesis using commit by (simp add: b loops_owned_def loop_shape.intros)
  qed
qed

lemma inv_same:
  assumes "app_inv (a, t)" and "same_roles a b" and "apClosed b = apClosed a" and "op_running (apOp a) \<Longrightarrow> thOp t \<noteq> [] \<Longrightarrow> op_running (apOp b)"
  shows "app_inv (b, t)"
proof -
  have "op_ok b (thOp t)" using assms same_roles_holds [OF assms(2)]
    by (auto simp: app_inv_def op_ok_def intro: knows_stable)
  moreover have "close_ok b (thClose t)" using assms same_roles_holds [OF assms(2)]
    by (auto simp: app_inv_def close_ok_def same_roles_def intro: knows_stable split: if_splits)
  ultimately show ?thesis
    using assms same_roles_role same_roles_owned by (auto simp: app_inv_def)
qed

lemma inv_drop_op: "app_inv (a, t) \<Longrightarrow> joins (thOp t) = {} \<Longrightarrow> dist_joins (thOp t) = {} \<Longrightarrow> app_inv (a, t\<lparr>thOp := []\<rparr>)"
  by (simp add: app_inv_def op_ok_def)

lemma inv_loop_todo:
  "app_inv (a, t) \<Longrightarrow> loop_shape p \<Longrightarrow> app_inv (a, t\<lparr>thLoop := (thLoop t)(n := p)\<rparr>)"
  by (simp add: app_inv_def)

lemma inv_loop:
  assumes inv: "app_inv (a, t)" and n: "(n, c) \<in> set (apLoops a)" and x: "thLoop t n = x # rest" and run: "run_sect i x a = Next p b"
  shows "app_inv (b, t\<lparr>thLoop := (thLoop t)(n := p @ rest)\<rparr>)"
proof -
  have n': "n \<in> fst ` set (apLoops a)" using n by force
  have shape: "loop_shape (x # rest)" and role: "role_ok a" using inv x by (auto simp: app_inv_def simp flip: x)
  note k = loop_keeps [OF n' shape run role]
  note f = run_frame [OF run]
  have "op_ok b (thOp t)" using inv f knows_stable [of a "{}" "thOp t" b] k by (auto simp: app_inv_def op_ok_def)
  moreover have "close_ok b (thClose t)" using inv f knows_stable [of a close_goal "thClose t" b] k
    by (auto simp: app_inv_def close_ok_def split: if_splits)
  ultimately show ?thesis using inv k by (auto simp: app_inv_def)
qed

lemma joins_abort: "run_sect i x a = Abort b \<Longrightarrow> joins (x # rest) = {} \<and> dist_joins (x # rest) = {}"
  by (cases x) (auto split: if_splits)

lemma loops_filtered: "length xs \<le> 1 \<Longrightarrow> filter P xs = xs \<or> filter P xs = []"
  by (cases xs) auto

lemma app_inv_step: "app_step s s' \<Longrightarrow> app_inv s \<Longrightarrow> app_inv s'"
proof (induction rule: app_step.induct)
  case (step_begin kind uid a b p act t)
  have open_idle: "\<not> apClosed a" "\<not> op_running (apOp a)" "op_running (apOp b)" "thOp t = []"
    using step_begin by (auto simp: begin_op_def app_inv_def op_ok_def split: if_splits)
  have "same_roles a b" "apClosed b = apClosed a"
    using step_begin(1) by (auto simp: begin_op_def same_roles_def split: if_splits)
  then have i: "app_inv (b, t)" by (rule inv_same [OF step_begin(3)]) (simp add: open_idle)
  have "knows b {} p \<and> joins p = {} \<and> dist_joins p = {}" by (rule program_knows [OF step_begin(2)])
  with i open_idle show ?case by (simp add: app_inv_def op_ok_def)
next
  case (step_op t x rest i a p b)
  then show ?case by (intro inv_op)
next
  case (step_op_abort t x rest i a b)
  then show ?case using run_abort [OF step_op_abort(2)] joins_abort [OF step_op_abort(2), of rest]
    by (auto intro: inv_drop_op)
next
  case (step_op_fail t rest a)
  then show ?case by (intro inv_drop_op) auto
next
  case (step_op_end t a out)
  then show ?case by (intro inv_same [OF step_op_end(3)]) (auto simp: end_op_def same_roles_def)
next
  case (step_loop_turn n c a t c')
  then show ?case by (auto intro: inv_loop_todo loop_shape.intros)
next
  case (step_loop n c a t x rest i p b)
  then show ?case by (intro inv_loop)
next
  case (step_loop_abort n c a t x rest i b)
  then show ?case using run_abort [OF step_loop_abort(3)] by (auto intro: inv_loop_todo loop_shape.intros)
next
  case (step_loop_fail n c a t rest)
  then show ?case by (auto intro: inv_loop_todo loop_shape.intros)
next
  case (step_loop_end n c a t)
  then have "length (apLoops a) \<le> 1" by (simp add: app_inv_def role_ok_def)
  from loops_filtered [OF this] show ?case
    by (intro inv_same [OF step_loop_end(4)]) (auto simp: same_roles_def)
next
  case (step_distribution_end n a t)
  then have "length (apDistLoops a) \<le> 1" by (simp add: app_inv_def role_ok_def)
  from loops_filtered [OF this] show ?case
    by (intro inv_same [OF step_distribution_end(3)]) (auto simp: same_roles_def)
next
  case (step_distribution_count a t i j)
  then show ?case by (rule inv_same) (auto simp: same_roles_def)
next
  case (step_close a t)
  have t: "thClose t = []" using step_close by (simp add: app_inv_def close_ok_def)
  have s: "same_roles a (close_mark a)" "apOp (close_mark a) = apOp a" "apClosed (close_mark a)"
    using step_close by (auto simp: close_mark_def same_roles_def)
  have "op_ok (close_mark a) (thOp t)"
    using step_close s same_roles_holds [OF s(1)] by (auto simp: app_inv_def op_ok_def intro: knows_stable)
  with step_close t s same_roles_role same_roles_owned show ?case by (auto simp: app_inv_def close_ok_def)
next
  case (step_closing t x rest i a p b)
  then show ?case by (intro inv_close)
next
  case (step_command uid a b t)
  then show ?case by (intro inv_same [OF step_command(2)]) (auto simp: beginCommand_def same_roles_def split: if_splits)
next
  case (step_command_end a t out)
  then show ?case by (rule inv_same) (auto simp: end_commandOp_def same_roles_def)
next
  case (step_cancel a t scope)
  then show ?case by (rule inv_same) (auto simp: cancel_app_def same_roles_def)
next
  case (step_peers a t m k)
  then show ?case by (intro inv_same [OF step_peers(2)]) (auto simp: same_roles_def)
qed

lemma new_state:
  "New absolute getwd c = Some a \<Longrightarrow>
   apHub a = None \<and> apSource a = None \<and> apAgent a = None \<and> apDiscovery a = None \<and> apLoops a = [] \<and> apDistLoops a = [] \<and>
   apDistributionDone a = None \<and> \<not> apClosed a \<and> apOp a = None \<and> cfMode (apConfig a) = cfMode c"
  by (auto simp: New_def split: if_splits option.splits)

lemma app_inv_init: "app_init s \<Longrightarrow> app_inv s"
proof -
  assume "app_init s"
  then obtain absolute getwd c a where i: "New absolute getwd c = Some a" "thOp (snd s) = []" "thClose (snd s) = []"
      "\<forall>n. thLoop (snd s) n = []"
      "if cfMode c = receiver_mode then discovery_set (apConfig a) a = Next [] (fst s) else fst s = a"
    unfolding app_init_def by blast
  have "role_ok b \<and> loops_owned b {} {} \<and> \<not> apClosed b \<and> apOp b = None" if "fst s = b" for b
    using new_state [OF i(1)] i(5) unfolding that
    by (auto simp: role_ok_def loops_owned_def discovery_set_def fresh_def split: if_splits)
  from this [of "fst s"] i show ?thesis by (cases s) (simp add: app_inv_def op_ok_def close_ok_def loop_shape.intros)
qed

interpretation roles: invariant_system app_init app_step app_inv
  by unfold_locales (rule app_inv_init app_inv_step; assumption)+

section \<open>The two slots\<close>

text \<open>Everything but the slot's own begin and end.\<close>

inductive op_other :: "app \<Rightarrow> app \<Rightarrow> bool" where
  "run_sect i x a = Next p b \<Longrightarrow> op_other a b"
| "beginCommand uid a = Some b \<Longrightarrow> op_other a b"
| "op_other a (end_commandOp out a)"
| "op_other a (close_mark a)"
| "op_other a (fst (cancel_app scope a))"
| "op_other a (a\<lparr>apProbes := m, apProbeKey := k\<rparr>)"

inductive command_op_other :: "app \<Rightarrow> app \<Rightarrow> bool" where
  "run_sect i x a = Next p b \<Longrightarrow> command_op_other a b"
| "begin_op kind uid a = Some b \<Longrightarrow> command_op_other a b"
| "command_op_other a (end_op out a)"
| "command_op_other a (close_mark a)"
| "command_op_other a (fst (cancel_app scope a))"
| "command_op_other a (a\<lparr>apProbes := m, apProbeKey := k\<rparr>)"

lemma op_running_end [simp]: "\<not> op_running (apOp (end_op out a))" "\<not> op_running (apCommandOp (end_commandOp out a))"
  by (simp_all add: end_op_def end_commandOp_def)

lemma op_other_op: "op_other a b \<Longrightarrow> apOp b = apOp a"
  by (induction rule: op_other.induct)
    (auto simp: run_frame beginCommand_def end_commandOp_def close_mark_def cancel_app_def split: if_splits)

lemma command_op_other_op: "command_op_other a b \<Longrightarrow> apCommandOp b = apCommandOp a"
  by (induction rule: command_op_other.induct)
    (auto simp: run_frame begin_op_def end_op_def close_mark_def cancel_app_def split: if_splits)

interpretation operation_slot: task_slot "\<lambda>uid. begin_op kind uid" end_op "\<lambda>a b. op_other a b"
    "\<lambda>a. op_running (apOp a)" "\<lambda>a. aoID (the (apOp a))" for kind
  by unfold_locales (auto simp: begin_op_def op_other_op split: if_splits)

interpretation command_slot: task_slot beginCommand end_commandOp command_op_other
    "\<lambda>a. op_running (apCommandOp a)" "\<lambda>a. aoID (the (apCommandOp a))"
  by unfold_locales (auto simp: beginCommand_def command_op_other_op split: if_splits)

lemma operations_exclusive:
  assumes "reachable (\<lambda>p. \<not> op_running (apOp (fst p)) \<and> snd p = []) (slot_step (begin_op kind) end_op op_other) (a, ops)"
  shows "ops = (if op_running (apOp a) then [aoID (the (apOp a))] else [])"
  using operation_slot.one_alive [OF assms] unfolding fst_conv snd_conv .

lemma commands_exclusive:
  assumes "reachable (\<lambda>p. \<not> op_running (apCommandOp (fst p)) \<and> snd p = [])
      (slot_step beginCommand end_commandOp command_op_other) (a, ops)"
  shows "ops = (if op_running (apCommandOp a) then [aoID (the (apCommandOp a))] else [])"
  using command_slot.one_alive [OF assms] unfolding fst_conv snd_conv .

section \<open>Properties\<close>

lemma joins_no_loops: "knows a {} (x # rest) \<Longrightarrow> f \<in> needs x \<Longrightarrow> holds a f"
  by (auto simp: knows_def)



text \<open>\<^verbatim>\<open>AutoStart\<close> starts discovery outside the operation slot: an operation that begins before
  \<^verbatim>\<open>startDiscovery\<close> reaches its second section can make the instance a sender, which that section does
  not look at again. The initial states assume that \<^verbatim>\<open>AutoStart\<close> came first.\<close>

lemma autostart_race:
  assumes "New absolute getwd c = Some a" and "cfMode c = receiver_mode"
  shows "\<exists>l a1 a2 a3 b. discovery_check c a = Next [DiscoveryTake, DiscoverySet c] a \<and> discovery_take a = Next [DiscoveryJoin None] a1 \<and>
    select_mode sender_mode a1 = Next [EnsureCheck l] a2 \<and> ensure_check l a2 = Next [Work, EnsureCommit l] a2 \<and>
    ensure_commit l a2 = Next [] a3 \<and> discovery_set c a3 = Next [] b \<and>
    apHub b \<noteq> None \<and> apDiscovery b \<noteq> None \<and> cfMode (apConfig b) = receiver_mode"
proof -
  have l: "cfListen (apConfig a) \<noteq> []" using assms(1) by (auto simp: New_def split: if_splits option.splits)
  show ?thesis
    using new_state [OF assms(1)] assms(2) l by (simp add: sect_defs Let_def)
qed

definition sample_config :: config where
  "sample_config =
     \<lparr>cfDiscover = False, cfMode = [], cfFile = [], cfSenderAddr = [], cfListen = '':0'', cfWorkDir = ''/w'', cfToken = [], cfAllow = True\<rparr>"

definition sample_app :: app where
  "sample_app =
     \<lparr>apConfig = sample_config, apClosed = False, apHub = None, apSource = None, apAgent = None, apOp = None,
      apOpCancelled = False, apCommandOp = None, apCommandCancelled = False, apDiscovery = None, apLoops = [],
      apDistribution = None, apDistributionDone = None, apDistLoops = [], apCancelled = [], apProbes = [],
      apProbeKey = None, apNext = 0\<rparr>"

abbreviation no_threads :: threads where
  "no_threads \<equiv> \<lparr>thOp = [], thLoop = \<lambda>n. [], thClose = []\<rparr>"

lemma sample_app_new: "New Some None sample_config = Some sample_app"
  by (simp add: New_def sample_config_def sample_app_def)

lemma sample_app_init: "reachable app_init app_step (sample_app, no_threads)"
proof (rule reach_init)
  have "cfMode sample_config \<noteq> receiver_mode" by (simp add: sample_config_def receiver_mode_def)
  then show "app_init (sample_app, no_threads)" unfolding app_init_def using sample_app_new by fastforce
qed



end
