(* ===== verification/Peers.thy ===== *)
theory Peers
  imports App "HOL-Library.Multiset"
begin

text \<open>
  What a sender does with its receivers (\<^verbatim>\<open>internal/webui/app.go\<close>, \<^verbatim>\<open>tasks.go\<close>, \<^verbatim>\<open>distribution.go\<close>, and
  \<^verbatim>\<open>App.command\<close> of \<^verbatim>\<open>agent.go\<close>): probing, dispatching, commands, following the tasks, and the
  distribution loop that admits every machine that comes online. The answers of the receivers are
  arguments: an error text or the reply. The goroutines of a round each write the entry of their own
  machine, so a round is a map over the machines.
\<close>

section \<open>Specifications and fingerprints\<close>

datatype app_error = NoSource | NoneSelected | Distributing | ProbeAgain | OpCancelled | NoneStarted | AllOffline | NoHub

text \<open>The fingerprint is canonical JSON of the specification and of the request with its machines sorted;
  the model keeps the pair itself.\<close>

definition app_spec :: "app_dispatch \<Rightarrow> app \<Rightarrow> (task_spec \<times> (task_spec \<times> app_dispatch)) option" where
  "app_spec d a =
     (case apSource a of
        None \<Rightarrow> None
      | Some s \<Rightarrow>
          (let spec = \<lparr>spID = soGeneration s, spTarget = diTarget d, spOverwrite = diOverwrite d, spArchive = soArchive s,
                       spEntries = soEntries s, spMeta = soMeta s\<rparr>
           in Some (spec, (spec, d\<lparr>diIDs := sort (diIDs d)\<rparr>))))"

definition selected :: "string list \<Rightarrow> string \<Rightarrow> bool" where
  "selected ids uid = list_ex (\<lambda>v. uid = v) ids"

lemma selected_iff [simp]: "selected ids uid \<longleftrightarrow> uid \<in> set ids"
  by (auto simp: selected_def list_ex_iff)

text \<open>The zero value a map yields for a machine it does not have.\<close>

definition no_info :: peer_info where
  "no_info = \<lparr>piUUID = [], piAddr = [], piChunks = 0, piTotal = 0, piSpeed = 0, piInflight = 0, piFailed = 0,
     piSelf = False, piOnline = False\<rparr>"

definition known_peer :: "peer_info \<Rightarrow> peer_state" where
  "known_peer i = \<lparr>psInfo = i, psReady = False, psProbe = [], psWarnings = [], psTask = None, psCommand = None\<rparr>"

definition peer_at :: "(string, peer_state) gomap \<Rightarrow> string \<Rightarrow> peer_state" where
  "peer_at m uid = (case mget m uid of None \<Rightarrow> known_peer no_info | Some p \<Rightarrow> p)"

definition storePeer :: "bool \<Rightarrow> peer_state \<Rightarrow> app \<Rightarrow> app" where
  "storePeer cmd p a =
     (let old = (peer_at (apProbes a) (piUUID (psInfo p)))\<lparr>psInfo := psInfo p\<rparr>;
          new = (if cmd then old\<lparr>psCommand := psCommand p\<rparr>
                 else old\<lparr>psTask := psTask p, psReady := psReady p, psProbe := psProbe p, psWarnings := psWarnings p\<rparr>)
      in a\<lparr>apProbes := mput (piUUID (psInfo p)) new (apProbes a)\<rparr>)"

section \<open>Probing\<close>

definition online_targets :: "string list \<Rightarrow> peer_info list \<Rightarrow> peer_info list" where
  "online_targets ids peers = filter (\<lambda>p. \<not> piSelf p \<and> selected ids (piUUID p)) peers"

definition probe_peer :: "string + probe \<Rightarrow> peer_info \<Rightarrow> peer_state" where
  "probe_peer reply i =
     (case reply of
        Inl e \<Rightarrow> (known_peer i)\<lparr>psProbe := e\<rparr>
      | Inr pr \<Rightarrow> (known_peer i)\<lparr>psReady := pbReady pr, psProbe := pbTarget pr, psWarnings := pbWarnings pr\<rparr>)"

definition probe_begin :: "app_dispatch \<Rightarrow> app \<Rightarrow> app_error + task_spec \<times> (task_spec \<times> app_dispatch)" where
  "probe_begin d a =
     (case app_spec d a of
        None \<Rightarrow> Inl NoSource
      | Some (spec, k) \<Rightarrow> if diIDs d = [] then Inl NoneSelected else Inr (spec, k))"

definition probe_results :: "(peer_info \<Rightarrow> string + probe) \<Rightarrow> string list \<Rightarrow> peer_info list \<Rightarrow> (string, peer_state) gomap" where
  "probe_results reply ids peers =
     fold (\<lambda>i m. mput (piUUID i) (probe_peer (reply i) i) m) (online_targets ids peers) []"

definition probe_end ::
  "bool \<Rightarrow> (string, peer_state) gomap \<Rightarrow> task_spec \<times> app_dispatch \<Rightarrow> app \<Rightarrow> app_error + app" where
  "probe_end cancelled results k a =
     (if cancelled then Inl OpCancelled
      else Inr (a\<lparr>apProbes := fold (\<lambda>(uid, p) m. mput uid (p\<lparr>psCommand := psCommand (peer_at m uid), psTask := psTask (peer_at m uid)\<rparr>) m)
                                results (apProbes a),
                  apProbeKey := Some k\<rparr>))"

section \<open>Dispatching\<close>

definition distribution_active :: "app \<Rightarrow> bool" where
  "distribution_active a = (case apDistribution a of None \<Rightarrow> False | Some x \<Rightarrow> dbActive x)"

definition dispatch_begin :: "app_dispatch \<Rightarrow> app \<Rightarrow> app_error + task_spec \<times> (string, peer_state) gomap" where
  "dispatch_begin d a =
     (case app_spec d a of
        None \<Rightarrow> Inl NoSource
      | Some (spec, k) \<Rightarrow>
          if distribution_active a then Inl Distributing
          else if apProbeKey a \<noteq> Some k then Inl ProbeAgain
          else Inr (spec, apProbes a))"

definition to_start :: "app_dispatch \<Rightarrow> string \<times> peer_state \<Rightarrow> bool" where
  "to_start d ip = (psReady (snd ip) \<and> selected (diIDs d) (fst ip))"

definition start_peer :: "string \<Rightarrow> string + task_state \<Rightarrow> peer_state \<Rightarrow> peer_state" where
  "start_peer gen reply p =
     (case reply of
        Inl e \<Rightarrow> p\<lparr>psReady := False, psProbe := e, psTask := Some \<lparr>tsID = gen, tsKind = [], tsStatus = TFailed, tsOutput = []\<rparr>\<rparr>
      | Inr st \<Rightarrow> p\<lparr>psTask := Some st\<rparr>)"

definition dispatch_calls ::
  "string \<Rightarrow> (string \<Rightarrow> string + task_state) \<Rightarrow> app_dispatch \<Rightarrow> (string, peer_state) gomap \<Rightarrow> (string, peer_state) gomap" where
  "dispatch_calls gen reply d probes =
     map (\<lambda>(uid, p). (uid, if to_start d (uid, p) then start_peer gen (reply uid) p else p)) probes"

definition dispatch_sent :: "(string \<Rightarrow> string + task_state) \<Rightarrow> app_dispatch \<Rightarrow> (string, peer_state) gomap \<Rightarrow> nat" where
  "dispatch_sent reply d probes = length (filter (\<lambda>ip. to_start d ip \<and> \<not> isl (reply (fst ip))) probes)"

text \<open>The cancellations sent to the receivers: machine and task.\<close>

definition cancelRemote :: "bool \<Rightarrow> (string, peer_state) gomap \<Rightarrow> (string \<times> string) list" where
  "cancelRemote cmd peers =
     List.map_filter (\<lambda>(uid, p). case (if cmd then psCommand p else psTask p) of
         None \<Rightarrow> None
       | Some t \<Rightarrow> if tsID t = [] then None else Some (uid, tsID t)) peers"

definition dispatch_end :: "(string, peer_state) gomap \<Rightarrow> app \<Rightarrow> app" where
  "dispatch_end probes a =
     a\<lparr>apProbes := fold (\<lambda>(uid, p) m. mput uid (p\<lparr>psCommand := psCommand (peer_at m uid)\<rparr>) m) probes (apProbes a),
       apProbeKey := None\<rparr>"

section \<open>Following tasks\<close>

definition peer_task :: "bool \<Rightarrow> peer_state \<Rightarrow> task_state option" where
  "peer_task cmd p = (if cmd then psCommand p else psTask p)"

definition task_runs :: "task_state option \<Rightarrow> bool" where
  "task_runs t = (case t of None \<Rightarrow> False | Some x \<Rightarrow> tsStatus x = TRunning)"

text \<open>One status call: an error or another task's state counts as a failure.\<close>

definition poll_task :: "string + task_state \<Rightarrow> task_state \<Rightarrow> task_state" where
  "poll_task reply t =
     (let lost = \<lparr>tsID = tsID t, tsKind = tsKind t, tsStatus = TFailed, tsOutput = []\<rparr>
      in case reply of Inl e \<Rightarrow> lost | Inr st \<Rightarrow> if tsID st \<noteq> tsID t then lost else st)"

definition poll_peer :: "bool \<Rightarrow> string + task_state \<Rightarrow> peer_state \<Rightarrow> peer_state" where
  "poll_peer cmd reply p =
     (case peer_task cmd p of
        None \<Rightarrow> p
      | Some t \<Rightarrow>
          if tsStatus t \<noteq> TRunning then p
          else if cmd then p\<lparr>psCommand := Some (poll_task reply t)\<rparr> else p\<lparr>psTask := Some (poll_task reply t)\<rparr>)"

definition monitor_round ::
  "bool \<Rightarrow> (string \<Rightarrow> string + task_state) \<Rightarrow> (string, peer_state) gomap \<Rightarrow> (string, peer_state) gomap" where
  "monitor_round cmd reply peers = map (\<lambda>(uid, p). (uid, poll_peer cmd (reply uid) p)) peers"

definition monitor_failed :: "bool \<Rightarrow> (string, peer_state) gomap \<Rightarrow> nat" where
  "monitor_failed cmd peers =
     length (filter (\<lambda>(uid, p). case peer_task cmd p of None \<Rightarrow> False | Some t \<Rightarrow> tsStatus t \<in> {TFailed, TCancelled}) peers)"

text \<open>The loop, given the answers of each round: how many machines failed, or \<open>None\<close> when it is still waiting
  after those rounds. Every round stores what it saw.\<close>

fun monitor ::
  "bool \<Rightarrow> (string \<Rightarrow> string + task_state) list \<Rightarrow> (string, peer_state) gomap \<Rightarrow> app \<Rightarrow> nat option \<times> (string, peer_state) gomap \<times> app" where
  "monitor cmd replies peers a =
     (if list_all (\<lambda>(uid, p). \<not> task_runs (peer_task cmd p)) peers
      then (Some (monitor_failed cmd peers), peers, fold (\<lambda>(uid, p). storePeer cmd p) peers a)
      else
        (case replies of
           [] \<Rightarrow> (None, peers, a)
         | r # rs \<Rightarrow>
             (let peers' = monitor_round cmd r peers
              in monitor cmd rs peers' (fold (\<lambda>(uid, p). storePeer cmd p) peers' a))))"

section \<open>Commands\<close>

definition command_peers ::
  "string \<Rightarrow> (peer_info \<Rightarrow> string + task_state) \<Rightarrow> string list \<Rightarrow> peer_info list \<Rightarrow> (string, peer_state) gomap" where
  "command_peers uid reply ids peers =
     fold (\<lambda>i m. mput (piUUID i) ((known_peer i)\<lparr>psCommand := Some (case reply i of
         Inl e \<Rightarrow> \<lparr>tsID = uid, tsKind = ''command'', tsStatus = TFailed, tsOutput = []\<rparr> | Inr st \<Rightarrow> st)\<rparr>) m)
       (online_targets ids peers) []"

definition app_command ::
  "string \<Rightarrow> (peer_info \<Rightarrow> string + task_state) \<Rightarrow> app_dispatch \<Rightarrow> peer_info list \<Rightarrow> app \<Rightarrow>
   app_error + (string, peer_state) gomap \<times> app" where
  "app_command uid reply d peers a =
     (if apHub a = None then Inl NoHub
      else if diIDs d = [] then Inl NoneSelected
      else
        (let ps = command_peers uid reply (diIDs d) peers
         in if ps = [] then Inl AllOffline
            else Inr (ps, fold (\<lambda>(uid, p). storePeer True p) ps a)))"

section \<open>Distribution\<close>

datatype dist_request = SendProbe string | SendStart string | SendStatus string

definition accepting :: "task_spec \<Rightarrow> app \<Rightarrow> bool" where
  "accepting spec a = (case apDistribution a of None \<Rightarrow> False | Some x \<Rightarrow> dbID x = spID spec \<and> dbActive x)"

record dist_answers =
  daProbe :: "string + probe"
  daStart :: "string + task_state"
  daStatus :: "string + task_state"

text \<open>One machine of a round: the requests sent to it and its new entry; \<open>None\<close> when it is left alone.\<close>

definition admit_peer :: "task_spec \<Rightarrow> dist_answers \<Rightarrow> peer_info \<Rightarrow> dist_request list \<times> peer_state" where
  "admit_peer spec ans i =
     (let uid = piUUID i
      in case daProbe ans of
           Inl e \<Rightarrow> ([SendProbe uid], (known_peer i)\<lparr>psProbe := e\<rparr>)
         | Inr pr \<Rightarrow>
             (let p = (known_peer i)\<lparr>psReady := pbReady pr, psProbe := pbTarget pr, psWarnings := pbWarnings pr\<rparr>
              in ([SendProbe uid, SendStart uid],
                  case daStart ans of
                    Inl e \<Rightarrow> p\<lparr>psReady := False, psProbe := e,
                               psTask := Some \<lparr>tsID = spID spec, tsKind = ''download'', tsStatus = TFailed, tsOutput = []\<rparr>\<rparr>
                  | Inr st \<Rightarrow> p\<lparr>psTask := Some st\<rparr>)))"

definition follow_peer :: "task_spec \<Rightarrow> dist_answers \<Rightarrow> peer_info \<Rightarrow> peer_state \<Rightarrow> dist_request list \<times> peer_state" where
  "follow_peer spec ans i p =
     ([SendStatus (piUUID i)],
      case daStatus ans of
        Inl e \<Rightarrow> p\<lparr>psInfo := i, psTask := Some \<lparr>tsID = spID spec, tsKind = ''download'', tsStatus = TFailed, tsOutput = []\<rparr>\<rparr>
      | Inr st \<Rightarrow> if tsID st = spID spec then p\<lparr>psInfo := i, psTask := Some st\<rparr> else p\<lparr>psInfo := i\<rparr>)"

definition round_peer ::
  "task_spec \<Rightarrow> bool \<Rightarrow> (string, peer_state) gomap \<Rightarrow> dist_answers \<Rightarrow> peer_info \<Rightarrow> (dist_request list \<times> peer_state) option" where
  "round_peer spec accept members ans i =
     (if piSelf i then None
      else
        (case mget members (piUUID i) of
           None \<Rightarrow> if accept then Some (admit_peer spec ans i) else None
         | Some p \<Rightarrow> if task_runs (psTask p) then Some (follow_peer spec ans i p) else None))"

text \<open>A round over the machines of the snapshot, against the members the round started with.\<close>

fun dist_peers ::
  "task_spec \<Rightarrow> bool \<Rightarrow> (string, peer_state) gomap \<Rightarrow> (string \<Rightarrow> dist_answers) \<Rightarrow> peer_info list \<Rightarrow>
   (string, peer_state) gomap \<times> app \<Rightarrow> dist_request list \<times> (string, peer_state) gomap \<times> app" where
  "dist_peers spec accept previous ans [] (members, a) = ([], members, a)"
| "dist_peers spec accept previous ans (i # is) (members, a) =
     (case round_peer spec accept previous (ans (piUUID i)) i of
        None \<Rightarrow> dist_peers spec accept previous ans is (members, a)
      | Some (reqs, p) \<Rightarrow>
          (let (reqs', rest) = dist_peers spec accept previous ans is (mput (piUUID (psInfo p)) p members, storePeer False p a)
           in (reqs @ reqs', rest)))"

text \<open>\<open>dtOther\<close> is what other threads do to the application before the round looks whether it may accept.\<close>

record dist_turn =
  dtOther :: "app \<Rightarrow> app"
  dtPeers :: "peer_info list"
  dtAnswers :: "string \<Rightarrow> dist_answers"

definition dist_count :: "task_spec \<Rightarrow> (string, peer_state) gomap \<Rightarrow> app \<Rightarrow> app" where
  "dist_count spec members a =
     a\<lparr>apDistribution := map_option (\<lambda>x. if dbID x = spID spec
         then x\<lparr>dbMembers := length (filter (\<lambda>(uid, p). psReady p) members),
                dbExcluded := length (filter (\<lambda>(uid, p). \<not> psReady p) members)\<rparr>
         else x) (apDistribution a)\<rparr>"

fun distributionLoop ::
  "task_spec \<Rightarrow> dist_turn list \<Rightarrow> (string, peer_state) gomap \<Rightarrow> app \<Rightarrow> (bool \<times> dist_request list) list \<times> (string, peer_state) gomap \<times> app" where
  "distributionLoop spec [] members a = ([], members, a)"
| "distributionLoop spec (t # ts) members a =
     (let a1 = dtOther t a;
          (reqs, members', a2) = dist_peers spec (accepting spec a1) members (dtAnswers t) (dtPeers t) (members, a1);
          (tr, rest) = distributionLoop spec ts members' (dist_count spec members' a2)
      in ((accepting spec a1, reqs) # tr, rest))"

section \<open>What the web interface shows\<close>

definition offline_peer :: "peer_state \<Rightarrow> peer_state" where
  "offline_peer p =
     p\<lparr>psInfo := (psInfo p)\<lparr>piOnline := False\<rparr>, psTask := map_option (\<lambda>t. t\<lparr>tsStatus := TEnded\<rparr>) (psTask p)\<rparr>"

definition state_peers :: "peer_info list \<Rightarrow> (string, peer_state) gomap \<Rightarrow> peer_state list" where
  "state_peers snapshot probes =
     (let online = filter (\<lambda>i. \<not> piSelf i) snapshot;
          gone = filter (\<lambda>(uid, p). uid \<notin> piUUID ` set online) probes
      in sort_key (\<lambda>p. piUUID (psInfo p))
           (map (\<lambda>i. (peer_at probes (piUUID i))\<lparr>psInfo := i\<rparr>) online @ map (\<lambda>(uid, p). offline_peer p) gone))"

text \<open>The entries are filed under their own identifiers.\<close>

definition keyed :: "(string, peer_state) gomap \<Rightarrow> bool" where
  "keyed m \<longleftrightarrow> wf_map m \<and> (\<forall>(uid, p) \<in> set m. piUUID (psInfo p) = uid)"

lemma map_sort_key: "map f (sort_key f xs) = sort (map f xs)"
  by (rule properties_for_sort [symmetric]) simp_all

lemma state_lists_once:
  assumes "keyed probes" and "distinct (map piUUID snapshot)"
  shows "distinct (map (\<lambda>p. piUUID (psInfo p)) (state_peers snapshot probes)) \<and>
    sorted (map (\<lambda>p. piUUID (psInfo p)) (state_peers snapshot probes)) \<and>
    set (map (\<lambda>p. piUUID (psInfo p)) (state_peers snapshot probes)) =
      piUUID ` {i \<in> set snapshot. \<not> piSelf i} \<union> fst ` set probes"
proof -
  define online where "online = filter (\<lambda>i. \<not> piSelf i) snapshot"
  define gone where "gone = filter (\<lambda>(uid, p). uid \<notin> piUUID ` set online) probes"
  let ?xs = "map (\<lambda>i. (peer_at probes (piUUID i))\<lparr>psInfo := i\<rparr>) online @ map (\<lambda>(uid, p). offline_peer p) gone"
  have st: "state_peers snapshot probes = sort_key (\<lambda>p. piUUID (psInfo p)) ?xs"
    by (simp add: state_peers_def online_def gone_def Let_def)
  have ids: "map (\<lambda>p. piUUID (psInfo p)) (map (\<lambda>(uid, p). offline_peer p) gone) = map fst gone"
    using assms(1) by (auto simp: keyed_def gone_def offline_peer_def)
  have "distinct (map piUUID online)" "wf_map gone" "piUUID ` set online \<inter> fst ` set gone = {}"
    using assms by (auto simp: online_def gone_def keyed_def distinct_map_filter)
  then have "distinct (map (\<lambda>p. piUUID (psInfo p)) ?xs)"
    unfolding map_append distinct_append ids by (auto simp: o_def)
  moreover have "set (map (\<lambda>p. piUUID (psInfo p)) ?xs) = piUUID ` {i \<in> set snapshot. \<not> piSelf i} \<union> fst ` set probes"
    unfolding map_append ids by (force simp: online_def gone_def)
  ultimately show ?thesis unfolding st map_sort_key by (simp only: distinct_sort set_sort sorted_sort simp_thms)
qed

section \<open>Lemmas\<close>

lemma mget_fold_other:
  "uid \<notin> fst ` set xs \<Longrightarrow> mget (fold (\<lambda>(k, p) m. mput k (f k p m) m) xs m) uid = mget m uid"
  by (induction xs arbitrary: m) (auto simp: gomap_simps split: prod.splits)

lemma wf_fold_mput: "wf_map m \<Longrightarrow> wf_map (fold (\<lambda>(k, p) m. mput k (f k p m) m) xs m)"
  by (induction xs arbitrary: m) (auto split: prod.splits)

lemma mget_fold_kept:
  assumes "wf_map xs" and "(uid, p) \<in> set xs"
  shows "\<exists>m'. mget (fold (\<lambda>(k, q) m. mput k (f k q m) m) xs m) uid = Some (f uid p m')"
  using assms
proof (induction xs arbitrary: m)
  case (Cons x xs)
  show ?case
  proof (cases "x = (uid, p)")
    case True
    then have "uid \<notin> fst ` set xs" using Cons.prems(1) by auto
    then show ?thesis using True mget_fold_other [of uid xs f] by (auto simp: gomap_simps)
  next
    case False
    with Cons show ?thesis by auto
  qed
qed simp

lemma probe_results_keys:
  "fst ` set (probe_results reply ids peers) = {piUUID i | i. i \<in> set peers \<and> \<not> piSelf i \<and> piUUID i \<in> set ids}"
proof -
  have "fst ` set (fold (\<lambda>i m. mput (piUUID i) (probe_peer (reply i) i) m) xs m) = piUUID ` set xs \<union> fst ` set m" for xs m
    by (induction xs arbitrary: m) (auto simp: gomap_simps)
  then show ?thesis by (auto simp: probe_results_def online_targets_def)
qed

lemma probe_results_wf: "wf_map (probe_results reply ids peers)"
proof -
  have "wf_map m \<Longrightarrow> wf_map (fold (\<lambda>i m. mput (piUUID i) (probe_peer (reply i) i) m) xs m)" for xs m
    by (induction xs arbitrary: m) auto
  then show ?thesis by (simp add: probe_results_def)
qed

lemma monitor_round_fst [simp]: "map fst (monitor_round cmd reply peers) = map fst peers"
  by (auto simp: monitor_round_def)

definition all_ended :: "bool \<Rightarrow> (string, peer_state) gomap \<Rightarrow> bool" where
  "all_ended cmd peers \<longleftrightarrow> list_all (\<lambda>(uid, p). \<not> task_runs (peer_task cmd p)) peers"

lemma monitor_stop:
  "all_ended cmd peers \<Longrightarrow> monitor cmd rs peers a = (Some (monitor_failed cmd peers), peers, fold (\<lambda>(uid, p). storePeer cmd p) peers a)"
  by (subst monitor.simps) (simp add: all_ended_def)

lemma monitor_go:
  "\<not> all_ended cmd peers \<Longrightarrow> monitor cmd (r # rs) peers a =
     monitor cmd rs (monitor_round cmd r peers) (fold (\<lambda>(uid, p). storePeer cmd p) (monitor_round cmd r peers) a)"
  by (subst monitor.simps) (simp add: all_ended_def Let_def)

lemma monitor_wait: "\<not> all_ended cmd peers \<Longrightarrow> monitor cmd [] peers a = (None, peers, a)"
  by (subst monitor.simps) (simp add: all_ended_def)

declare monitor.simps [simp del]

lemma running_poll:
  "task_runs (peer_task cmd (poll_peer cmd reply p)) \<Longrightarrow>
   \<exists>t st. peer_task cmd p = Some t \<and> tsStatus t = TRunning \<and> reply = Inr st \<and> tsID st = tsID t \<and> tsStatus st = TRunning \<and>
     peer_task cmd (poll_peer cmd reply p) = Some st"
  by (auto simp: poll_peer_def peer_task_def poll_task_def task_runs_def Let_def split: option.splits if_splits sum.splits)

text \<open>An answer that ends the waiting for a task.\<close>

definition decisive :: "string \<Rightarrow> string + task_state \<Rightarrow> bool" where
  "decisive tid reply = (case reply of Inl e \<Rightarrow> True | Inr st \<Rightarrow> tsID st \<noteq> tid \<or> tsStatus st \<noteq> TRunning)"

definition admits :: "bool \<Rightarrow> string \<Rightarrow> string set \<Rightarrow> string set \<Rightarrow> nat" where
  "admits acc u ids previous = (if acc \<and> u \<in> ids \<and> u \<notin> previous then 1 else 0)"

lemma admits_mono: "n \<le> admits acc u ids previous \<Longrightarrow> ids \<subseteq> ids' \<Longrightarrow> n \<le> admits acc u ids' previous"
  by (auto simp: admits_def split: if_splits)

lemma admits_add:
  "m \<le> admits acc u {x} previous \<Longrightarrow> n \<le> admits acc u ids previous \<Longrightarrow> x \<notin> ids \<Longrightarrow> m + n \<le> admits acc u (insert x ids) previous"
  by (auto simp: admits_def split: if_splits)

lemma count_requests:
  assumes "dist_peers spec acc previous ans is (members, a) = (reqs, members', a')" and "distinct (map piUUID is)"
  shows "count_list reqs (SendStart u) \<le> admits acc u (piUUID ` set is) (fst ` set previous) \<and>
    count_list reqs (SendProbe u) \<le> admits acc u (piUUID ` set is) (fst ` set previous) \<and>
    fst ` set members \<subseteq> fst ` set members' \<and> (SendProbe u \<in> set reqs \<or> SendStart u \<in> set reqs \<longrightarrow> u \<in> fst ` set members')"
  using assms
proof (induction "is" arbitrary: members a reqs)
  case (Cons i "is")
  show ?case
  proof (cases "round_peer spec acc previous (ans (piUUID i)) i")
    case None
    with Cons.prems have r: "dist_peers spec acc previous ans is (members, a) = (reqs, members', a')" by simp
    have sub: "piUUID ` set is \<subseteq> piUUID ` set (i # is)" by auto
    from Cons.IH [OF r] Cons.prems(2) admits_mono [OF _ sub] show ?thesis by simp
  next
    case (Some rp)
    obtain r p where rp: "rp = (r, p)" by (cases rp)
    obtain reqs' where rest: "dist_peers spec acc previous ans is (mput (piUUID (psInfo p)) p members, storePeer False p a) = (reqs', members', a')"
        "reqs = r @ reqs'"
      using Cons.prems(1) Some rp by (auto split: prod.splits)
    have p: "piUUID (psInfo p) = piUUID i" "set r \<subseteq> {SendProbe (piUUID i), SendStart (piUUID i), SendStatus (piUUID i)}"
        "count_list r (SendStart u) \<le> admits acc u {piUUID i} (fst ` set previous)"
        "count_list r (SendProbe u) \<le> admits acc u {piUUID i} (fst ` set previous)"
      using Some rp
      by (auto simp: admits_def round_peer_def admit_peer_def follow_peer_def known_peer_def Let_def mget_None
          split: option.splits if_splits sum.splits)
    from Cons.IH [OF rest(1)] Cons.prems(2)
    have ih: "count_list reqs' (SendStart u) \<le> admits acc u (piUUID ` set is) (fst ` set previous)"
        "count_list reqs' (SendProbe u) \<le> admits acc u (piUUID ` set is) (fst ` set previous)"
        "insert (piUUID i) (fst ` set members) \<subseteq> fst ` set members'"
        "SendProbe u \<in> set reqs' \<or> SendStart u \<in> set reqs' \<longrightarrow> u \<in> fst ` set members'"
      by (simp_all add: dom_update p(1))
    have i: "piUUID i \<notin> piUUID ` set is" using Cons.prems(2) by simp
    have "count_list reqs (SendStart u) \<le> admits acc u (piUUID ` set (i # is)) (fst ` set previous)"
      using admits_add [OF p(3) ih(1) i] by (simp add: rest(2))
    moreover have "count_list reqs (SendProbe u) \<le> admits acc u (piUUID ` set (i # is)) (fst ` set previous)"
      using admits_add [OF p(4) ih(2) i] by (simp add: rest(2))
    moreover have "SendProbe u \<in> set reqs \<or> SendStart u \<in> set reqs \<longrightarrow> u \<in> fst ` set members'"
      using p(2) ih(3,4) by (auto simp: rest(2))
    ultimately show ?thesis using ih(3) by simp
  qed
qed simp

lemma count_loop:
  assumes "distributionLoop spec ts members a = (tr, members', a')" and "\<forall>t \<in> set ts. distinct (map piUUID (dtPeers t))"
  shows "count_list (concat (map snd tr)) (SendStart u) \<le> (if u \<in> fst ` set members then 0 else 1) \<and>
    (\<forall>(acc, reqs) \<in> set tr. \<not> acc \<longrightarrow> SendStart u \<notin> set reqs \<and> SendProbe u \<notin> set reqs)"
  using assms
proof (induction ts arbitrary: members a tr)
  case (Cons t ts)
  define a1 where "a1 = dtOther t a"
  obtain reqs m2 a2 where r: "dist_peers spec (accepting spec a1) members (dtAnswers t) (dtPeers t) (members, a1) = (reqs, m2, a2)"
    by (metis prod.exhaust)
  obtain tr2 where l: "distributionLoop spec ts m2 (dist_count spec m2 a2) = (tr2, members', a')" "tr = (accepting spec a1, reqs) # tr2"
    using Cons.prems(1) r by (auto simp: a1_def Let_def split: prod.splits)
  have "distinct (map piUUID (dtPeers t))" using Cons.prems(2) by simp
  note c = count_requests [OF r this, of u]
  note ih = Cons.IH [OF l(1)]
  have ih': "count_list (concat (map snd tr2)) (SendStart u) \<le> (if u \<in> fst ` set m2 then 0 else 1)"
      "\<forall>(acc, reqs) \<in> set tr2. \<not> acc \<longrightarrow> SendStart u \<notin> set reqs \<and> SendProbe u \<notin> set reqs"
    using ih Cons.prems(2) by simp_all
  have "count_list reqs (SendStart u) + count_list (concat (map snd tr2)) (SendStart u) \<le> (if u \<in> fst ` set members then 0 else 1)"
  proof (cases "SendStart u \<in> set reqs")
    case True
    then have "u \<in> fst ` set m2" using c by blast
    then show ?thesis using c ih'(1) by (auto simp: admits_def split: if_splits)
  next
    case False
    then have "count_list reqs (SendStart u) = 0" by (simp add: count_list_0_iff)
    then show ?thesis using c ih'(1) by (auto split: if_splits)
  qed
  moreover have "\<not> accepting spec a1 \<longrightarrow> SendStart u \<notin> set reqs \<and> SendProbe u \<notin> set reqs"
    using c by (auto simp: count_list_0_iff admits_def)
  ultimately show ?case using ih'(2) by (simp add: l(2))
qed simp

lemma probe_end_key: "probe_end c results k a = Inr b \<Longrightarrow> apProbeKey b = Some k \<and> apSource b = apSource a \<and> apDistribution b = apDistribution a"
  by (auto simp: probe_end_def split: if_splits)

lemma probe_end_entry:
  assumes "probe_end c results k a = Inr b" and "wf_map results" and "(uid, p) \<in> set results"
  shows "\<exists>q. mget (apProbes b) uid = Some q \<and> psReady q = psReady p"
  using mget_fold_kept [OF assms(2,3), of "\<lambda>uid p m. p\<lparr>psCommand := psCommand (peer_at m uid), psTask := psTask (peer_at m uid)\<rparr>" "apProbes a"]
    assms(1) by (auto simp: probe_end_def split: if_splits)

lemma probe_end_other:
  "probe_end c results k a = Inr b \<Longrightarrow> uid \<notin> fst ` set results \<Longrightarrow> mget (apProbes b) uid = mget (apProbes a) uid"
  using mget_fold_other [of uid results "\<lambda>uid p m. p\<lparr>psCommand := psCommand (peer_at m uid), psTask := psTask (peer_at m uid)\<rparr>" "apProbes a"]
  by (auto simp: probe_end_def split: if_splits)

section \<open>Properties\<close>


text \<open>C20: a selected machine that is not in the snapshot of a probe keeps the result of an earlier probe, for
  whatever target and source that was, and the dispatch that this probe allows starts it.\<close>

theorem stale_probe_dispatched:
  assumes "probe_begin d a = Inr (spec, k)" and "probe_end False (probe_results reply (diIDs d) peers) k a = Inr b"
    and "uid \<notin> piUUID ` set peers" and "mget (apProbes a) uid = Some p" and "psReady p" and "uid \<in> set (diIDs d)"
    and "\<not> distribution_active a"
  shows "dispatch_begin d b = Inr (spec, apProbes b) \<and> mget (apProbes b) uid = Some p \<and> to_start d (uid, p)"
proof -
  note kb = probe_end_key [OF assms(2)]
  have "app_spec d a = Some (spec, k)" using assms(1) by (auto simp: probe_begin_def split: option.splits if_splits)
  moreover have "app_spec d b = app_spec d a" using kb by (simp add: app_spec_def)
  ultimately have "dispatch_begin d b = Inr (spec, apProbes b)"
    using kb assms(7) by (simp add: dispatch_begin_def distribution_active_def)
  moreover have "uid \<notin> fst ` set (probe_results reply (diIDs d) peers)"
    using assms(3) by (auto simp: probe_results_keys)
  ultimately show ?thesis
    using probe_end_other [OF assms(2)] assms(4,5,6) by (simp add: to_start_def)
qed

text \<open>A dispatch follows and cancels every machine it knows, not only those it was asked for: a failed task of a
  machine outside the selection makes it report a failure, and cancelling it cancels that machine's task.\<close>

theorem dispatch_touches_others:
  assumes "(uid, p) \<in> set probes" and "uid \<notin> set (diIDs d)" and "psTask p = Some t" and "tsID t \<noteq> []"
  shows "(uid, tsID t) \<in> set (cancelRemote False (dispatch_calls gen reply d probes)) \<and>
    (tsStatus t = TFailed \<longrightarrow> monitor False replies (dispatch_calls gen reply d probes) a = (Some n, peers', a') \<longrightarrow> 0 < n)"
proof -
  have mem: "(uid, p) \<in> set (dispatch_calls gen reply d probes)"
    using assms(1,2) by (force simp: dispatch_calls_def to_start_def)
  then have c: "(uid, tsID t) \<in> set (cancelRemote False (dispatch_calls gen reply d probes))"
    using assms(3,4) by (force simp: cancelRemote_def map_filter_def)
  have failed: "0 < monitor_failed False ps" if "tsStatus t = TFailed" "(uid, p) \<in> set ps" for ps
  proof -
    have "filter (\<lambda>(uid, p). case peer_task False p of None \<Rightarrow> False | Some t \<Rightarrow> tsStatus t \<in> {TFailed, TCancelled}) ps \<noteq> []"
      using that assms(3) by (force simp: filter_empty_conv peer_task_def)
    then show ?thesis by (simp add: monitor_failed_def)
  qed
  have "0 < n" if "tsStatus t = TFailed" "(uid, p) \<in> set ps" "monitor False rs ps x = (Some n, ps', x')" for rs ps x ps' x'
    using that(2,3)
  proof (induction rs arbitrary: ps x)
    case Nil
    then show ?case using failed [OF that(1) Nil(1)] by (cases "all_ended False ps") (auto simp: monitor_stop monitor_wait)
  next
    case (Cons r rs)
    have mem: "(uid, p) \<in> set (monitor_round False r ps)"
      using Cons.prems(1) that(1) assms(3) by (force simp: monitor_round_def poll_peer_def peer_task_def)
    show ?case
    proof (cases "all_ended False ps")
      case True
      then show ?thesis using Cons.prems(2) failed [OF that(1) Cons.prems(1)] by (auto simp: monitor_stop)
    next
      case False
      from Cons.IH [OF mem] Cons.prems(2) show ?thesis by (simp add: monitor_go [OF False])
    qed
  qed
  with mem c show ?thesis by blast
qed

text \<open>C19: following the tasks ends as soon as every running task has had an answer that decides it: an error, another
  task in its place, or a status that is not running. Then no task is running and the number
  reported is that of the failed and cancelled ones.\<close>

theorem monitor_ends:
  assumes "\<And>uid p t. (uid, p) \<in> set peers \<Longrightarrow> peer_task cmd p = Some t \<Longrightarrow> tsStatus t = TRunning \<Longrightarrow>
      \<exists>r \<in> set replies. decisive (tsID t) (r uid)"
  shows "\<exists>peers' a'. monitor cmd replies peers a = (Some (monitor_failed cmd peers'), peers', a') \<and>
    (\<forall>(uid, p) \<in> set peers'. \<not> task_runs (peer_task cmd p)) \<and> map fst peers' = map fst peers"
  using assms
proof (induction replies arbitrary: peers a)
  case Nil
  then have "all_ended cmd peers"
    by (fastforce simp: all_ended_def list_all_iff task_runs_def split: option.splits)
  then show ?case by (auto simp: monitor_stop) (auto simp: all_ended_def list_all_iff)
next
  case (Cons r rs)
  show ?case
  proof (cases "all_ended cmd peers")
    case True
    then show ?thesis by (auto simp: monitor_stop) (auto simp: all_ended_def list_all_iff)
  next
    case False
    have "\<exists>s \<in> set rs. decisive (tsID t) (s uid)"
      if "(uid, p) \<in> set (monitor_round cmd r peers)" "peer_task cmd p = Some t" "tsStatus t = TRunning" for uid p t
    proof -
      have "\<exists>p0. (uid, p0) \<in> set peers \<and> p = poll_peer cmd (r uid) p0" using that(1) by (force simp: monitor_round_def)
      then obtain p0 where p0: "(uid, p0) \<in> set peers" "p = poll_peer cmd (r uid) p0" by blast
      have "task_runs (peer_task cmd (poll_peer cmd (r uid) p0))" using that p0 by (simp add: task_runs_def)
      from running_poll [OF this] that(2) p0(2)
      have "\<exists>t0. peer_task cmd p0 = Some t0 \<and> tsStatus t0 = TRunning \<and> r uid = Inr t \<and> tsID t = tsID t0" by auto
      then obtain t0 where t0: "peer_task cmd p0 = Some t0" "tsStatus t0 = TRunning" "r uid = Inr t" "tsID t = tsID t0" by blast
      have "\<not> decisive (tsID t0) (r uid)" using t0 that by (simp add: decisive_def)
      with Cons.prems [OF p0(1) t0(1,2)] t0 show ?thesis by auto
    qed
    from Cons.IH [of "monitor_round cmd r peers" "fold (\<lambda>(uid, p). storePeer cmd p) (monitor_round cmd r peers) a", OF this]
    show ?thesis unfolding monitor_go [OF False] by simp
  qed
qed

text \<open>C18: the distribution loop asks a machine to start at most once, however often it comes and goes and whatever
  else happens to the application, and in a round that begins after admission was stopped, or after
  another distribution took over, no machine is probed or started.\<close>

theorem distribution_once:
  assumes "distributionLoop spec ts [] a = (tr, members, b)" and "\<forall>t \<in> set ts. distinct (map piUUID (dtPeers t))"
  shows "count_list (concat (map snd tr)) (SendStart u) \<le> 1 \<and>
    (\<forall>(acc, reqs) \<in> set tr. \<not> acc \<longrightarrow> SendStart u \<notin> set reqs \<and> SendProbe u \<notin> set reqs)"
  using count_loop [OF assms, of u] by simp

section \<open>Witnesses\<close>

definition sample_info :: "string \<Rightarrow> peer_info" where
  "sample_info uid = no_info\<lparr>piUUID := uid, piOnline := True\<rparr>"

definition sample_source :: source where
  "sample_source =
     \<lparr>soName = ''f'', soArchive = False, soEntries = [],
      soMeta = \<lparr>fsrError = False, fsrFileName = ''f'', fsrFileSize = 1, fsrChunkSize = 1, fsrChunkNum = 1\<rparr>, soGeneration = ''g''\<rparr>"

definition sample_dispatch :: app_dispatch where
  "sample_dispatch = \<lparr>diIDs = [''x'', ''y''], diTarget = ''/new'', diToken = ''k'', diOverwrite = False\<rparr>"

definition sample_ready :: peer_state where
  "sample_ready = (known_peer (sample_info ''x''))\<lparr>psReady := True, psProbe := ''/old''\<rparr>"

definition sample_sending :: app where
  "sample_sending = sample_app\<lparr>apSource := Some sample_source, apProbes := [(''x'', sample_ready)]\<rparr>"

definition sample_spec :: task_spec where
  "sample_spec = fst (the (app_spec sample_dispatch sample_sending))"

definition sample_key :: "task_spec \<times> app_dispatch" where
  "sample_key = snd (the (app_spec sample_dispatch sample_sending))"

definition sample_refused :: "(string, peer_state) gomap" where
  "sample_refused = probe_results (\<lambda>i. Inl ''full'') (diIDs sample_dispatch) [sample_info ''y'']"

definition sample_probed :: app where
  "sample_probed = projr (probe_end False sample_refused sample_key sample_sending)"

lemma sample_probed_ok:
  "probe_begin sample_dispatch sample_sending = Inr (sample_spec, sample_key)"
  "probe_end False sample_refused sample_key sample_sending = Inr sample_probed"
  by (simp_all add: probe_begin_def app_spec_def sample_spec_def sample_key_def sample_probed_def probe_end_def
      sample_sending_def sample_dispatch_def Let_def)

lemma sample_refused_y: "sample_refused = [(''y'', (known_peer (sample_info ''y''))\<lparr>psProbe := ''full''\<rparr>)]"
  by (simp add: sample_refused_def probe_results_def online_targets_def sample_dispatch_def probe_peer_def
      sample_info_def no_info_def)


theorem stale_probe_dispatched_witness:
  "to_start sample_dispatch (''x'', sample_ready) \<and> psProbe sample_ready = ''/old'' \<and> diTarget sample_dispatch = ''/new''"
proof -
  have "''x'' \<notin> piUUID ` set [sample_info ''y'']" "mget (apProbes sample_sending) ''x'' = Some sample_ready"
    "psReady sample_ready" "''x'' \<in> set (diIDs sample_dispatch)" "\<not> distribution_active sample_sending"
    by (simp_all add: sample_info_def sample_sending_def sample_ready_def sample_dispatch_def distribution_active_def sample_app_def)
  from stale_probe_dispatched [OF sample_probed_ok(1) sample_probed_ok(2) [unfolded sample_refused_def] this]
  show ?thesis by (simp add: sample_ready_def sample_dispatch_def)
qed

definition sample_failed :: peer_state where
  "sample_failed = (known_peer (sample_info ''z''))\<lparr>psTask := Some \<lparr>tsID = ''t'', tsKind = [], tsStatus = TFailed, tsOutput = []\<rparr>\<rparr>"

theorem dispatch_touches_others_witness:
  "monitor False [] (dispatch_calls ''g'' (\<lambda>uid. Inl []) sample_dispatch [(''z'', sample_failed)]) sample_sending =
     (Some 1, [(''z'', sample_failed)], storePeer False sample_failed sample_sending) \<and>
   cancelRemote False (dispatch_calls ''g'' (\<lambda>uid. Inl []) sample_dispatch [(''z'', sample_failed)]) = [(''z'', ''t'')]"
proof -
  have t: "psTask sample_failed = Some \<lparr>tsID = ''t'', tsKind = [], tsStatus = TFailed, tsOutput = []\<rparr>"
    by (simp add: sample_failed_def)
  have "(''z'', ''t'') \<in> set (cancelRemote False (dispatch_calls ''g'' (\<lambda>uid. Inl []) sample_dispatch [(''z'', sample_failed)]))"
    using dispatch_touches_others [of "''z''" sample_failed "[(''z'', sample_failed)]" sample_dispatch, OF _ _ t, of "''g''" "\<lambda>uid. Inl []"]
    by (simp add: sample_dispatch_def)
  then show ?thesis
    using t by (subst monitor_stop) (simp_all add: all_ended_def dispatch_calls_def to_start_def cancelRemote_def map_filter_def peer_task_def task_runs_def
        monitor_failed_def sample_dispatch_def)
qed

theorem monitor_ends_witness:
  "\<exists>a'. monitor False [\<lambda>uid. Inl ''down''] [(''x'', sample_ready\<lparr>psTask := Some \<lparr>tsID = ''t'', tsKind = [], tsStatus = TRunning, tsOutput = []\<rparr>\<rparr>)]
     sample_sending = (Some 1, [(''x'', sample_ready\<lparr>psTask := Some \<lparr>tsID = ''t'', tsKind = [], tsStatus = TFailed, tsOutput = []\<rparr>\<rparr>)], a')"
proof -
  let ?p = "sample_ready\<lparr>psTask := Some \<lparr>tsID = ''t'', tsKind = [], tsStatus = TRunning, tsOutput = []\<rparr>\<rparr>"
  let ?q = "sample_ready\<lparr>psTask := Some \<lparr>tsID = ''t'', tsKind = [], tsStatus = TFailed, tsOutput = []\<rparr>\<rparr>"
  obtain peers' a' where m: "monitor False [\<lambda>uid. Inl ''down''] [(''x'', ?p)] sample_sending = (Some (monitor_failed False peers'), peers', a')"
    using monitor_ends [of "[(''x'', ?p)]" False "[\<lambda>uid. Inl ''down'']" sample_sending] by (auto simp: decisive_def)
  have r: "monitor_round False (\<lambda>uid. Inl ''down'') [(''x'', ?p)] = [(''x'', ?q)]"
    by (simp add: monitor_round_def poll_peer_def peer_task_def poll_task_def)
  have e: "\<not> all_ended False [(''x'', ?p)]" "all_ended False [(''x'', ?q)]"
    by (simp_all add: all_ended_def peer_task_def task_runs_def)
  have "peers' = [(''x'', ?q)]" using m by (simp add: monitor_go [OF e(1)] r monitor_stop [OF e(2)])
  moreover have "monitor_failed False [(''x'', ?q)] = 1" by (simp add: monitor_failed_def peer_task_def)
  ultimately show ?thesis using m by auto
qed

definition sample_turn :: dist_turn where
  "sample_turn =
     \<lparr>dtOther = \<lambda>a. a, dtPeers = [sample_info ''x''],
      dtAnswers = \<lambda>uid. \<lparr>daProbe = Inr \<lparr>pbReady = True, pbTarget = ''/new'', pbWarnings = [], pbBytes = 1\<rparr>,
        daStart = Inl ''busy'', daStatus = Inl ''down''\<rparr>\<rparr>"

definition sample_distributing :: app where
  "sample_distributing =
     sample_sending\<lparr>apDistribution := Some \<lparr>dbID = spID sample_spec, dbActive = True, dbName = ''f'', dbTarget = ''/new'',
       dbMembers = 0, dbExcluded = 0\<rparr>\<rparr>"

theorem distribution_once_witness:
  "\<exists>members b. distributionLoop sample_spec [sample_turn, sample_turn] [] sample_distributing =
     ([(True, [SendProbe ''x'', SendStart ''x'']), (True, [])], members, b) \<and>
   count_list (concat (map snd [(True, [SendProbe ''x'', SendStart ''x'']), (True, [])])) (SendStart ''x'') \<le> 1"
proof -
  have acc: "accepting sample_spec sample_distributing" by (simp add: accepting_def sample_distributing_def)
  have acc2: "accepting sample_spec (dist_count sample_spec m (storePeer False p sample_distributing))" for m p
    by (simp add: accepting_def sample_distributing_def dist_count_def storePeer_def Let_def)
  have "\<exists>members b. distributionLoop sample_spec [sample_turn, sample_turn] [] sample_distributing =
     ([(True, [SendProbe ''x'', SendStart ''x'']), (True, [])], members, b)"
    using acc acc2
    by (simp add: sample_turn_def round_peer_def admit_peer_def sample_info_def no_info_def known_peer_def task_runs_def Let_def)
  then obtain members b where r: "distributionLoop sample_spec [sample_turn, sample_turn] [] sample_distributing =
     ([(True, [SendProbe ''x'', SendStart ''x'']), (True, [])], members, b)" by blast
  have "\<forall>t \<in> set [sample_turn, sample_turn]. distinct (map piUUID (dtPeers t))" by (simp add: sample_turn_def)
  from distribution_once [OF r this, of "''x''"] r show ?thesis by blast
qed

end
