(* ===== verification/AppTypes.thy ===== *)
theory AppTypes
  imports App
begin

text \<open>
  Well-typed states of the application: its mode is one of the three there are, it has an address to listen on, and the
  numbers of its services, loops and cancelled contexts were all given out once.
\<close>

section \<open>Well-typed states\<close>

definition app_ids :: "app \<Rightarrow> nat set" where
  "app_ids a = set_option (apHub a) \<union> set_option (apAgent a) \<union> set_option (apDiscovery a) \<union> set_option (apDistributionDone a) \<union>
     fst ` set (apLoops a) \<union> set (apDistLoops a) \<union> set (apCancelled a)"

definition config_typed :: "config \<Rightarrow> bool" where
  "config_typed c \<longleftrightarrow> cfMode c \<in> {[], sender_mode, receiver_mode} \<and> cfListen c \<noteq> []"

definition live_typed :: "app \<Rightarrow> bool" where
  "live_typed a \<longleftrightarrow> distinct (map fst (apLoops a)) \<and> distinct (apDistLoops a) \<and>
     (\<forall>d. apDiscovery a = Some d \<longrightarrow> d \<notin> set (apCancelled a) \<and> apDistributionDone a \<noteq> Some d) \<and> (\<forall>d. apDistributionDone a = Some d \<longrightarrow> d \<notin> set (apCancelled a))"

definition app_typed :: "app \<Rightarrow> bool" where
  "app_typed a \<longleftrightarrow> config_typed (apConfig a) \<and> app_ids a \<subseteq> {..<apNext a} \<and> live_typed a"

text \<open>The sections that commit an address carry one.\<close>

fun sect_typed :: "sect \<Rightarrow> bool" where
  "sect_typed (EnsureCommit l) = (l \<noteq> [])"
| "sect_typed (SourceCheck f l) = (l \<noteq> [])"
| "sect_typed (SourceCommit f l) = (l \<noteq> [])"
| "sect_typed x = True"

definition threads_typed :: "threads \<Rightarrow> bool" where
  "threads_typed t \<longleftrightarrow> list_all sect_typed (thOp t) \<and> (\<forall>n. list_all sect_typed (thLoop t n)) \<and> list_all sect_typed (thClose t)"

definition state_typed :: "app \<times> threads \<Rightarrow> bool" where
  "state_typed s \<longleftrightarrow> app_typed (fst s) \<and> threads_typed (snd s)"

section \<open>Preservation\<close>

text \<open>A section gives out at most one new number.\<close>

lemma run_ids:
  assumes "run_sect i x a = Next p b"
  shows "(app_ids b \<subseteq> app_ids a \<and> apNext b = apNext a) \<or> (app_ids b \<subseteq> insert (apNext a) (app_ids a) \<and> apNext b = Suc (apNext a))"
proof (cases x)
  case (DiscoverySet c)
  with assms show ?thesis by (clarsimp simp: discovery_set_def fresh_def split: if_splits) (auto simp: app_ids_def)
next
  case (DistributionSet d s)
  with assms show ?thesis by (clarsimp simp: distribution_set_def fresh_def) (auto simp: app_ids_def)
next
  case DiscoveryTake
  with assms show ?thesis by (clarsimp simp: discovery_take_def) (auto simp: app_ids_def split: option.splits)
next
  case DistributionTake
  with assms show ?thesis by (clarsimp simp: distribution_take_def) (auto simp: app_ids_def split: option.splits)
next
  case (EnsureCommit l)
  with assms show ?thesis by (clarsimp simp: ensure_commit_def fresh_def) (auto simp: app_ids_def)
next
  case (AgentCommit c)
  with assms show ?thesis by (clarsimp simp: agent_commit_def fresh_def) (auto simp: app_ids_def)
qed (use assms in \<open>clarsimp simp: sect_defs Let_def split: if_splits option.splits; auto simp: app_ids_def\<close>)+

lemma run_ids_typed:
  assumes "run_sect i x a = Next p b" and "app_ids a \<subseteq> {..<apNext a}"
  shows "app_ids b \<subseteq> {..<apNext b}"
  using run_ids [OF assms(1)]
proof (elim disjE conjE)
  assume "app_ids b \<subseteq> insert (apNext a) (app_ids a)" and "apNext b = Suc (apNext a)"
  with assms(2) show ?thesis by (auto simp: less_Suc_eq)
qed (use assms(2) in simp)

lemma run_config_typed:
  assumes "run_sect i x a = Next p b" and "sect_typed x" and "config_typed (apConfig a)"
  shows "config_typed (apConfig b) \<and> list_all sect_typed p"
  using assms by (cases x) (auto simp: config_typed_def sect_defs Let_def split: if_splits option.splits)

lemma run_live_typed:
  assumes "run_sect i x a = Next p b" and "live_typed a" and "app_ids a \<subseteq> {..<apNext a}"
  shows "live_typed b"
proof -
  have "apNext a \<notin> app_ids a" using assms(3) by auto
  then have new: "apNext a \<notin> fst ` set (apLoops a)" "apNext a \<notin> set (apDistLoops a)" "apNext a \<notin> set (apCancelled a)"
      "apDiscovery a \<noteq> Some (apNext a)" "apDistributionDone a \<noteq> Some (apNext a)"
    by (auto simp: app_ids_def)
  show ?thesis
  proof (cases x)
    case (DiscoverySet c)
    with assms(1,2) new show ?thesis by (auto simp: live_typed_def discovery_set_def fresh_def split: if_splits)
  next
    case (DistributionSet d s)
    with assms(1,2) new show ?thesis by (auto simp: live_typed_def distribution_set_def fresh_def)
  next
    case DiscoveryTake
    with assms(1,2) new show ?thesis by (auto simp: live_typed_def discovery_take_def split: option.splits)
  next
    case DistributionTake
    with assms(1,2) new show ?thesis by (auto simp: live_typed_def distribution_take_def split: option.splits)
  qed (use assms(1,2) in \<open>auto simp: live_typed_def sect_defs Let_def split: if_splits option.splits\<close>)
qed

lemma run_typed:
  assumes "run_sect i x a = Next p b" and "sect_typed x" and "app_typed a"
  shows "app_typed b \<and> list_all sect_typed p"
  using assms run_config_typed [OF assms(1,2)] run_live_typed [OF assms(1)] run_ids_typed [OF assms(1)]
  by (simp add: app_typed_def)

text \<open>What a step outside the sections leaves.\<close>

lemma typed_same:
  assumes "app_typed a" and "apConfig b = apConfig a" and "apHub b = apHub a" and "apAgent b = apAgent a"
    and "apDiscovery b = apDiscovery a" and "apDistributionDone b = apDistributionDone a" and "apCancelled b = apCancelled a"
    and "set (apLoops b) \<subseteq> set (apLoops a)" and "distinct (map fst (apLoops b))"
    and "set (apDistLoops b) \<subseteq> set (apDistLoops a)" and "distinct (apDistLoops b)" and "apNext b = apNext a"
  shows "app_typed b"
proof -
  have "app_ids b \<subseteq> app_ids a" unfolding app_ids_def using assms(3-8,10) by auto
  then show ?thesis using assms by (simp add: app_typed_def live_typed_def) blast
qed

lemma run_abort_typed: "run_sect i x a = Abort b \<Longrightarrow> b = a"
  by (cases x) (auto simp: sect_defs Let_def split: if_splits option.splits)

lemma program_typed: "config_typed (apConfig a) \<Longrightarrow> p = program act \<or> p = autostart_sender (apConfig a) \<Longrightarrow> list_all sect_typed p"
  by (cases act) (auto simp: autostart_sender_def config_typed_def)

lemma typed_live: "app_typed a \<Longrightarrow> distinct (map fst (apLoops a))" "app_typed a \<Longrightarrow> distinct (apDistLoops a)"
  by (simp_all add: app_typed_def live_typed_def)

lemma typed_step: "app_step s s' \<Longrightarrow> state_typed s \<Longrightarrow> state_typed s'"
proof (induction rule: app_step.induct)
  case (step_begin kind uid a b p act t)
  have b: "b = a\<lparr>apOp := Some \<lparr>aoID = uid, aoKind = kind, aoStatus = TRunning\<rparr>, apOpCancelled := False\<rparr>"
    using step_begin(1) by (simp add: begin_op_def split: if_splits)
  have "app_typed b"
    by (rule typed_same [of a]) (use step_begin(3) in \<open>simp_all add: b state_typed_def typed_live\<close>)
  moreover have "list_all sect_typed p"
    using step_begin program_typed [of a p act] by (simp add: state_typed_def app_typed_def)
  ultimately show ?case using step_begin by (simp add: state_typed_def threads_typed_def)
next
  case (step_op t x rest i a p b)
  then show ?case using run_typed [OF step_op(2)] by (simp add: state_typed_def threads_typed_def)
next
  case (step_op_abort t x rest i a b)
  then show ?case using run_abort_typed [OF step_op_abort(2)] by (simp add: state_typed_def threads_typed_def)
next
  case (step_op_fail t rest a)
  then show ?case by (simp add: state_typed_def threads_typed_def)
next
  case (step_op_end t a out)
  then have "app_typed (end_op out a)" by - (rule typed_same [of a]; auto simp: state_typed_def end_op_def typed_live)
  with step_op_end show ?case by (simp add: state_typed_def)
next
  case (step_loop_turn n c a t c' current found healthy)
  then show ?case by (simp add: state_typed_def threads_typed_def)
next
  case (step_loop n c a t x rest i p b)
  have "list_all sect_typed (thLoop t n)" using step_loop(4) by (simp add: state_typed_def threads_typed_def)
  then have "sect_typed x \<and> list_all sect_typed rest" using step_loop(2) by simp
  then show ?case using step_loop run_typed [OF step_loop(3)] by (simp add: state_typed_def threads_typed_def)
next
  case (step_loop_abort n c a t x rest i b)
  then show ?case using run_abort_typed [OF step_loop_abort(3)] by (simp add: state_typed_def threads_typed_def)
next
  case (step_loop_fail n c a t rest)
  then show ?case by (simp add: state_typed_def threads_typed_def)
next
  case (step_loop_end n c a t)
  then have "app_typed (a\<lparr>apLoops := filter (\<lambda>(m, _). m \<noteq> n) (apLoops a)\<rparr>)"
    by - (rule typed_same [of a]; auto simp: state_typed_def typed_live distinct_map_filter)
  with step_loop_end show ?case by (simp add: state_typed_def)
next
  case (step_distribution_end n a t)
  then have "app_typed (a\<lparr>apDistLoops := filter (\<lambda>m. m \<noteq> n) (apDistLoops a)\<rparr>)"
    by - (rule typed_same [of a]; auto simp: state_typed_def typed_live)
  with step_distribution_end show ?case by (simp add: state_typed_def)
next
  case (step_distribution_count a t j i)
  then have "app_typed (a\<lparr>apDistribution := map_option (\<lambda>x. x\<lparr>dbMembers := i, dbExcluded := j\<rparr>) (apDistribution a)\<rparr>)"
    by - (rule typed_same [of a]; auto simp: state_typed_def typed_live)
  with step_distribution_count show ?case by (simp add: state_typed_def)
next
  case (step_close a t)
  then have "app_typed (close_mark a)" by - (rule typed_same [of a]; auto simp: state_typed_def close_mark_def typed_live)
  with step_close show ?case by (simp add: state_typed_def threads_typed_def close_program_def)
next
  case (step_closing t x rest i a p b)
  then show ?case using run_typed [OF step_closing(2)] by (simp add: state_typed_def threads_typed_def)
next
  case (step_command uid a b t)
  have b: "b = a\<lparr>apCommandOp := Some \<lparr>aoID = uid, aoKind = ''command'', aoStatus = TRunning\<rparr>, apCommandCancelled := False\<rparr>"
    using step_command(1) by (simp add: beginCommand_def split: if_splits)
  have "app_typed b"
    by (rule typed_same [of a]) (use step_command(2) in \<open>simp_all add: b state_typed_def typed_live\<close>)
  with step_command show ?case by (simp add: state_typed_def)
next
  case (step_command_end a t out)
  then have "app_typed (end_commandOp out a)"
    by - (rule typed_same [of a]; auto simp: state_typed_def end_commandOp_def typed_live)
  with step_command_end show ?case by (simp add: state_typed_def)
next
  case (step_cancel a t scope)
  then have "app_typed (fst (cancel_app scope a))"
    by - (rule typed_same [of a]; auto simp: state_typed_def cancel_app_def typed_live)
  with step_cancel show ?case by (simp add: state_typed_def)
next
  case (step_peers a t k m)
  then have "app_typed (a\<lparr>apProbes := m, apProbeKey := k\<rparr>)"
    by - (rule typed_same [of a]; auto simp: state_typed_def typed_live)
  with step_peers show ?case by (simp add: state_typed_def)
qed

lemma typed_init: "app_init s \<Longrightarrow> state_typed s"
proof -
  assume "app_init s"
  then obtain absolute getwd c a where i: "New absolute getwd c = Some a" "thOp (snd s) = []" "thClose (snd s) = []"
      "\<forall>n. thLoop (snd s) n = []"
      "if cfMode c = receiver_mode then discovery_set (apConfig a) a = Next [] (fst s) else fst s = a"
    unfolding app_init_def by blast
  have a: "app_typed a"
    using i(1) by (auto simp: New_def app_typed_def config_typed_def live_typed_def app_ids_def split: if_splits option.splits)
  have "app_typed (fst s)"
  proof (cases "cfMode c = receiver_mode")
    case True
    with i(5) have "run_sect undefined (DiscoverySet (apConfig a)) a = Next [] (fst s)" by simp
    from run_typed [OF this _ a] show ?thesis by simp
  next
    case False
    with i(5) a show ?thesis by simp
  qed
  with i show ?thesis by (simp add: state_typed_def threads_typed_def)
qed

interpretation types: invariant_system app_init app_step state_typed
  by unfold_locales (rule typed_init typed_step; assumption)+

section \<open>Properties\<close>

text \<open>C15: every reachable state is well typed: the mode is none, sender or receiver, the address to listen on is never
  empty, the numbers of hubs, agents, loops and contexts were all given out, so that the next service's number is no
  other's and its context is never one that was cancelled before, and the current discovery and distribution are not
  cancelled. The threads only commit addresses that are not empty.\<close>

theorem application_typed:
  assumes "reachable app_init app_step (a, t)"
  shows "cfMode (apConfig a) \<in> {[], sender_mode, receiver_mode} \<and> cfListen (apConfig a) \<noteq> [] \<and>
    app_ids a \<subseteq> {..<apNext a} \<and> distinct (map fst (apLoops a)) \<and> distinct (apDistLoops a) \<and>
    set_option (apDiscovery a) \<inter> set (apCancelled a) = {} \<and> set_option (apDistributionDone a) \<inter> set (apCancelled a) = {} \<and>
    list_all sect_typed (thOp t)"
  using types.reach_inv [OF assms]
  by (auto simp: state_typed_def threads_typed_def app_typed_def config_typed_def live_typed_def)

theorem application_typed_witness: "cfMode (apConfig sample_app) \<in> {[], sender_mode, receiver_mode} \<and> app_ids sample_app \<subseteq> {..<apNext sample_app}"
  using application_typed [OF sample_app_init] by blast

end
