(* ===== verification/Closing.thy ===== *)
theory Closing
  imports AppTypes
begin

text \<open>
  \<^verbatim>\<open>Close\<close> never waits for ever: whatever the operation, the command, the discovery loop and the distribution loop are
  doing when it begins, one of the threads it waits for can always move, and every such move brings the end nearer.
\<close>

section \<open>What is left to do\<close>

text \<open>A section weighs more than all that it may put in its place.\<close>

fun sect_weight :: "sect \<Rightarrow> nat" where
  "sect_weight (SelectMode m) = 7"
| "sect_weight (EnsureCheck l) = 3"
| "sect_weight (SourceCheck f l) = 8"
| "sect_weight (AgentTake c) = 3"
| "sect_weight (DiscoveryCheck c) = 4"
| "sect_weight DiscoveryTake = 2"
| "sect_weight DistributionTake = 2"
| "sect_weight (DistributionCheck d) = 5"
| "sect_weight (DistributionSet d s) = 2"
| "sect_weight x = 1"

definition work :: "sect list \<Rightarrow> nat" where
  "work p = sum_list (map sect_weight p)"

definition loop_work :: "app \<Rightarrow> threads \<Rightarrow> nat" where
  "loop_work a t = sum_list (map (\<lambda>(n, c). Suc (work (thLoop t n))) (apLoops a))"

definition left_to_do :: "app \<times> threads \<Rightarrow> nat" where
  "left_to_do s =
     (case s of (a, t) \<Rightarrow>
        work (thClose t) + work (thOp t) + of_bool (op_running (apOp a)) + of_bool (op_running (apCommandOp a)) +
        loop_work a t + length (apDistLoops a))"

lemma work_simps [simp]: "work [] = 0" "work (x # p) = sect_weight x + work p" "work (p @ q) = work p + work q"
  by (simp_all add: work_def)

lemma weight_pos [simp]: "0 < sect_weight x"
  by (cases x) simp_all

lemma run_weight:
  assumes "run_sect i x a = Next p b" and "apClosed a"
  shows "work p + length (apDistLoops b) < sect_weight x + length (apDistLoops a) \<and> apLoops b = apLoops a"
  using assms by (cases x) (auto simp: sect_defs Let_def split: if_splits option.splits)

section \<open>Whom a thread waits for\<close>

text \<open>A loop that is waited for was cancelled; only \<^verbatim>\<open>Close\<close> waits for the slots.\<close>

fun sect_waits :: "nat list \<Rightarrow> sect \<Rightarrow> bool" where
  "sect_waits cs (DiscoveryJoin (Some d)) = (d \<in> set cs)"
| "sect_waits cs (DistributionJoin (Some d)) = (d \<in> set cs)"
| "sect_waits cs x = True"

fun op_sect :: "sect \<Rightarrow> bool" where
  "op_sect JoinOp = False"
| "op_sect JoinCommand = False"
| "op_sect x = True"

fun close_sect :: "sect \<Rightarrow> bool" where
  "close_sect JoinOp = True"
| "close_sect JoinCommand = True"
| "close_sect DistributionTake = True"
| "close_sect (DistributionJoin d) = True"
| "close_sect DiscoveryTake = True"
| "close_sect (DiscoveryJoin d) = True"
| "close_sect CloseTake = True"
| "close_sect x = False"

definition waits_ok :: "app \<times> threads \<Rightarrow> bool" where
  "waits_ok s =
     (case s of (a, t) \<Rightarrow>
        list_all (\<lambda>x. sect_waits (apCancelled a) x \<and> op_sect x) (thOp t) \<and>
        list_all (\<lambda>x. sect_waits (apCancelled a) x \<and> close_sect x) (thClose t))"

lemma run_cancelled: "run_sect i x a = Next p b \<Longrightarrow> set (apCancelled a) \<subseteq> set (apCancelled b)"
  by (cases x) (auto simp: sect_defs Let_def split: if_splits option.splits)

lemma run_waits:
  "run_sect i x a = Next p b \<Longrightarrow>
   list_all (sect_waits (apCancelled b)) p \<and> (op_sect x \<longrightarrow> list_all op_sect p) \<and> (close_sect x \<longrightarrow> list_all close_sect p)"
  by (cases x) (auto simp: sect_defs Let_def split: if_splits option.splits)

lemma sect_waits_mono: "sect_waits cs x \<Longrightarrow> set cs \<subseteq> set ds \<Longrightarrow> sect_waits ds x"
  by (cases "(cs, x)" rule: sect_waits.cases) auto

lemma waits_mono:
  "waits_ok (a, t) \<Longrightarrow> set (apCancelled a) \<subseteq> set (apCancelled b) \<Longrightarrow> thOp u = thOp t \<Longrightarrow> thClose u = thClose t \<Longrightarrow> waits_ok (b, u)"
  by (auto simp: waits_ok_def list_all_iff intro: sect_waits_mono)

lemma program_waits: "p = program act \<or> p = autostart_sender c \<Longrightarrow> list_all (\<lambda>x. sect_waits cs x \<and> op_sect x) p"
  by (cases act) (auto simp: autostart_sender_def)

lemma waits_step: "app_step s s' \<Longrightarrow> waits_ok s \<Longrightarrow> waits_ok s'"
proof (induction rule: app_step.induct)
  case (step_begin kind uid a b p act t)
  have b: "apCancelled b = apCancelled a" using step_begin(1) by (auto simp: begin_op_def split: if_splits)
  show ?case using step_begin(3) program_waits [OF step_begin(2), of "apCancelled a"] by (simp add: waits_ok_def b)
next
  case (step_op t x rest i a p b)
  have "waits_ok (b, t)" using step_op(3) run_cancelled [OF step_op(2)] by (rule waits_mono) simp_all
  with step_op run_waits [OF step_op(2)] show ?case by (auto simp: waits_ok_def list_all_iff)
next
  case (step_op_abort t x rest i a b)
  then show ?case using run_abort [OF step_op_abort(2)] by (simp add: waits_ok_def)
next
  case (step_loop n c a t x rest i p b)
  show ?case by (rule waits_mono [OF step_loop(4) run_cancelled [OF step_loop(3)]]) simp_all
next
  case (step_loop_abort n c a t x rest i b)
  then show ?case using run_abort [OF step_loop_abort(3)] by (simp add: waits_ok_def)
next
  case (step_close a t)
  then show ?case by (simp add: waits_ok_def close_mark_def close_program_def)
next
  case (step_closing t x rest i a p b)
  have "waits_ok (b, t)" using step_closing(3) run_cancelled [OF step_closing(2)] by (rule waits_mono) simp_all
  with step_closing run_waits [OF step_closing(2)] show ?case by (auto simp: waits_ok_def list_all_iff)
next
  case (step_command uid a b t)
  then show ?case by (auto simp: waits_ok_def beginCommand_def split: if_splits)
qed (simp_all add: waits_ok_def end_op_def end_commandOp_def cancel_app_def)

lemma waits_init: "app_init s \<Longrightarrow> waits_ok s"
  by (auto simp: app_init_def waits_ok_def split: prod.splits)

interpretation waits: invariant_system app_init app_step waits_ok
  by unfold_locales (rule waits_init waits_step; assumption)+

section \<open>Somebody can move\<close>

definition moves :: "app \<times> threads \<Rightarrow> bool" where
  "moves s \<longleftrightarrow> (\<exists>s'. app_step s s' \<and> left_to_do s' < left_to_do s)"

lemma movesI: "app_step s s' \<Longrightarrow> left_to_do s' < left_to_do s \<Longrightarrow> moves s"
  unfolding moves_def by blast

lemma loop_moves:
  assumes "app_inv (a, t)" and "apClosed a" and "(n, c) \<in> set (apLoops a)" and "n \<in> set (apCancelled a)"
  shows "moves (a, t)"
proof -
  have "length (apLoops a) \<le> 1" using assms(1) by (simp add: app_inv_def role_ok_def)
  with assms(3) have one: "apLoops a = [(n, c)]" by (cases "apLoops a") auto
  show ?thesis
  proof (cases "thLoop t n")
    case Nil
    from step_loop_end [OF assms(3) Nil assms(4)] show ?thesis
      by (rule movesI) (simp add: left_to_do_def loop_work_def one)
  next
    case (Cons x rest)
    have "loop_shape (x # rest)" using assms(1) Cons by (auto simp: app_inv_def dest: spec [where x = n])
    then have "(\<exists>p b. run_sect undefined x a = Next p b) \<or> run_sect undefined x a = Abort a"
      by (cases rule: loop_shape_cons) (auto simp: agent_take_def agent_commit_def)
    then show ?thesis
    proof
      assume "\<exists>p b. run_sect undefined x a = Next p b"
      then obtain p b where run: "run_sect undefined x a = Next p b" by blast
      from step_loop [OF assms(3) Cons run] show ?thesis
        using run_weight [OF run assms(2)] run_frame [OF run]
        by (intro movesI) (auto simp: left_to_do_def loop_work_def one Cons)
    next
      assume "run_sect undefined x a = Abort a"
      from step_loop_abort [OF assms(3) Cons this] show ?thesis
        by (rule movesI) (simp add: left_to_do_def loop_work_def one Cons)
    qed
  qed
qed

lemma dist_moves:
  assumes "app_inv (a, t)" and "n \<in> set (apDistLoops a)" and "n \<in> set (apCancelled a)"
  shows "moves (a, t)"
proof -
  have "length (apDistLoops a) \<le> 1" using assms(1) by (simp add: app_inv_def role_ok_def)
  with assms(2) have one: "apDistLoops a = [n]" by (cases "apDistLoops a") auto
  from step_distribution_end [OF assms(2,3)] show ?thesis
    by (rule movesI) (simp add: left_to_do_def loop_work_def one)
qed

text \<open>A join is blocked only by a loop that can move.\<close>

lemma join_moves:
  assumes "app_inv (a, t)" and "apClosed a" and "run_sect i x a = Blocked" and "sect_waits (apCancelled a) x"
    and "x \<noteq> JoinOp" and "x \<noteq> JoinCommand"
  shows "moves (a, t)"
proof (cases x)
  case (DiscoveryJoin d)
  with assms(3) obtain n c where n: "(n, c) \<in> set (apLoops a)" "d = Some n" by (auto split: if_splits)
  with assms(4) DiscoveryJoin loop_moves [OF assms(1,2) n(1)] show ?thesis by simp
next
  case (DistributionJoin d)
  with assms(3) obtain n where n: "n \<in> set (apDistLoops a)" "d = Some n" by (auto split: if_splits)
  with assms(4) DistributionJoin dist_moves [OF assms(1) n(1)] show ?thesis by simp
qed (use assms(3,5,6) in \<open>auto simp: sect_defs Let_def split: if_splits option.splits\<close>)

lemma op_moves:
  assumes "app_inv (a, t)" and "waits_ok (a, t)" and "apClosed a" and "op_running (apOp a)"
  shows "moves (a, t)"
proof (cases "thOp t")
  case Nil
  from step_op_end [OF Nil assms(4), of Fine] show ?thesis
    using assms(4) by (intro movesI) (auto simp: left_to_do_def loop_work_def end_op_def)
next
  case (Cons x rest)
  have x: "sect_waits (apCancelled a) x" "op_sect x" using assms(2) Cons by (simp_all add: waits_ok_def)
  show ?thesis
  proof (cases "run_sect undefined x a")
    case (Next p b)
    from step_op [OF Cons Next] show ?thesis
      using run_weight [OF Next assms(3)] run_frame [OF Next]
      by (intro movesI) (auto simp: left_to_do_def loop_work_def Cons)
  next
    case (Abort b)
    from step_op_abort [OF Cons Abort] run_abort [OF Abort] show ?thesis
      by (intro movesI) (auto simp: left_to_do_def loop_work_def Cons)
  next
    case Blocked
    from x(2) have "x \<noteq> JoinOp" "x \<noteq> JoinCommand" by auto
    with join_moves [OF assms(1,3) Blocked x(1)] show ?thesis by simp
  next
    case Panic
    then have "x = HubRead" "apHub a = None"
      by (cases x; auto simp: sect_defs Let_def split: if_splits option.splits)+
    moreover have "knows a {} (x # rest)" using assms(1) Cons by (simp add: app_inv_def op_ok_def)
    ultimately have "holds a HasHub" using joins_no_loops [of a HubRead rest HasHub] by simp
    with \<open>apHub a = None\<close> show ?thesis by simp
  qed
qed

lemma close_moves:
  assumes "app_inv (a, t)" and "waits_ok (a, t)" and "thClose t = x # rest"
  shows "moves (a, t)"
proof -
  have closed: "apClosed a" using assms(1,3) by (auto simp: app_inv_def close_ok_def split: if_splits)
  have x: "sect_waits (apCancelled a) x" "close_sect x" using assms(2,3) by (simp_all add: waits_ok_def)
  show ?thesis
  proof (cases "run_sect undefined x a")
    case (Next p b)
    from step_closing [OF assms(3) Next] show ?thesis
      using run_weight [OF Next closed] run_frame [OF Next]
      by (intro movesI) (auto simp: left_to_do_def loop_work_def assms(3))
  next
    case Blocked
    show ?thesis
    proof (cases "x = JoinOp")
      case True
      with Blocked have "op_running (apOp a)" by (simp split: if_splits)
      with op_moves assms(1,2) closed show ?thesis by blast
    next
      case False
      show ?thesis
      proof (cases "x = JoinCommand")
        case True
        with Blocked have "op_running (apCommandOp a)" by (simp split: if_splits)
        then show ?thesis using step_command_end [of a t Fine]
          by (intro movesI) (auto simp: left_to_do_def loop_work_def end_commandOp_def)
      qed (use join_moves [OF assms(1) closed Blocked x(1)] False in blast)
    qed
  qed (use x(2) in \<open>cases x; auto simp: sect_defs split: if_splits\<close>)+
qed

lemma closed_step: "app_step s s' \<Longrightarrow> apClosed (fst s) \<Longrightarrow> apClosed (fst s')"
  by (induction rule: app_step.induct)
    (auto simp: begin_op_def beginCommand_def end_op_def end_commandOp_def cancel_app_def close_mark_def run_frame dest: run_abort split: if_splits)

lemma closed_stays: "(app_step ^^ n) s s' \<Longrightarrow> apClosed (fst s) \<Longrightarrow> apClosed (fst s')"
  by (induction n arbitrary: s') (auto intro: closed_step)

lemma finishes:
  assumes "reachable app_init app_step s"
  shows "\<exists>n s'. n \<le> left_to_do s \<and> (app_step ^^ n) s s' \<and> reachable app_init app_step s' \<and> thClose (snd s') = [] \<and>
    (thClose (snd s) \<noteq> [] \<longrightarrow> apClosed (fst s'))"
  using assms
proof (induction "left_to_do s" arbitrary: s rule: less_induct)
  case less
  obtain a t where s: "s = (a, t)" by (cases s)
  have inv: "app_inv (a, t)" "waits_ok (a, t)" using roles.reach_inv waits.reach_inv less.prems s by blast+
  show ?case
  proof (cases "thClose t")
    case Nil
    with less.prems s show ?thesis by (intro exI [of _ 0] exI [of _ s]) simp
  next
    case (Cons x rest)
    have closed: "apClosed a" using inv(1) Cons by (auto simp: app_inv_def close_ok_def split: if_splits)
    obtain s1 where s1: "app_step s s1" "left_to_do s1 < left_to_do s"
      using close_moves [OF inv Cons] s by (auto simp: moves_def)
    have r1: "reachable app_init app_step s1" using reach_step [OF less.prems s1(1)] .
    from less.hyps [OF s1(2) r1] obtain n s' where n: "n \<le> left_to_do s1" "(app_step ^^ n) s1 s'"
        "reachable app_init app_step s'" "thClose (snd s') = []" by blast
    have "(app_step ^^ Suc n) s s'" using s1(1) n(2) by (rule relpowp_Suc_I2)
    moreover have "apClosed (fst s')" using closed_stays [OF n(2)] closed_step [OF s1(1)] closed s by simp
    ultimately show ?thesis using n s1(2) by (intro exI [of _ "Suc n"] exI [of _ s']) simp
  qed
qed

section \<open>Properties\<close>

text \<open>C13: closing an application never gets stuck. From every state in which \<^verbatim>\<open>Close\<close> is under way, whatever the operation,
  the command and the loops are doing, the threads can bring it to its end, in no more steps than their remaining
  sections, and the application is then empty. In particular no thread waits for one that waits for it, and none waits
  for a loop that was not told to stop.\<close>

theorem close_finishes:
  assumes "reachable app_init app_step (a, t)" and "thClose t \<noteq> []"
  shows "\<exists>n b u. n \<le> left_to_do (a, t) \<and> (app_step ^^ n) (a, t) (b, u) \<and> thClose u = [] \<and> apClosed b \<and>
    apHub b = None \<and> apSource b = None \<and> apAgent b = None \<and> apDiscovery b = None \<and> apLoops b = [] \<and> apDistLoops b = [] \<and>
    \<not> op_running (apOp b)"
proof -
  from finishes [OF assms(1)] assms(2) obtain n b u where n: "n \<le> left_to_do (a, t)" "(app_step ^^ n) (a, t) (b, u)"
      "reachable app_init app_step (b, u)" "thClose u = []" "apClosed b" by force
  have "app_inv (b, u)" using n(3) by (rule roles.reach_inv)
  then have c: "\<not> op_running (apOp b)" "knows b close_goal []"
    using n(4,5) by (auto simp: app_inv_def close_ok_def close_program_def)
  then have h: "holds b f" if "f \<in> close_goal" for f using that by (auto simp: knows_def)
  have "holds b Quiet" "holds b DistQuiet" "holds b Emptied"
    using h [of Quiet] h [of DistQuiet] h [of Emptied] by (simp_all add: close_goal_def)
  with n c(1) show ?thesis by (intro exI [of _ n] exI [of _ b] exI [of _ u]) simp
qed

theorem close_finishes_witness:
  "thClose (no_threads\<lparr>thClose := close_program\<rparr>) \<noteq> [] \<and>
   (\<exists>n b u. n \<le> 9 \<and> (app_step ^^ n) (close_mark sample_app, no_threads\<lparr>thClose := close_program\<rparr>) (b, u) \<and> thClose u = [] \<and> apClosed b)"
proof -
  have "app_step (sample_app, no_threads) (close_mark sample_app, no_threads\<lparr>thClose := close_program\<rparr>)"
    by (rule step_close) (simp add: sample_app_def)
  from reach_step [OF sample_app_init this]
  have r: "reachable app_init app_step (close_mark sample_app, no_threads\<lparr>thClose := close_program\<rparr>)" .
  have ne: "thClose (no_threads\<lparr>thClose := close_program\<rparr>) \<noteq> []" by (simp add: close_program_def)
  have "left_to_do (close_mark sample_app, no_threads\<lparr>thClose := close_program\<rparr>) \<le> 9"
    by (simp add: left_to_do_def loop_work_def close_program_def close_mark_def sample_app_def)
  with close_finishes [OF r ne] ne show ?thesis by (meson le_trans)
qed

end
