(* ===== verification/Discovery.thy ===== *)
theory Discovery
  imports Zone Wire
begin

text \<open>
  Finding the sender in the local network: mDNS records (\<^verbatim>\<open>internal/discover/mdns.go\<close>) and multicast
  announcements (\<^verbatim>\<open>pkg/discovery/discovery.go\<close>), with the choice of local addresses. The mDNS library,
  sockets, network interfaces and JSON are parameters: the entries a query delivers, the addresses
  that answered, the datagrams received.
\<close>

type_synonym octets = "nat \<times> nat \<times> nat \<times> nat"

definition octets_ok :: "octets \<Rightarrow> bool" where
  "octets_ok ip = (case ip of (a, b, c, d) \<Rightarrow> a < 256 \<and> b < 256 \<and> c < 256 \<and> d < 256)"

definition ip_string :: "octets \<Rightarrow> string" where
  "ip_string ip = (case ip of (a, b, c, d) \<Rightarrow> dotted a b c d)"

section \<open>mDNS records\<close>

record service_entry =
  mdAddrV4 :: "octets option"
  mdPort :: int
  mdInfo :: "string list"

text \<open>The text record of a published service names the session.\<close>

definition publish_info :: "string \<Rightarrow> string list" where
  "publish_info uid = [''id='' @ uid]"

definition publish_instance :: "string \<Rightarrow> string" where
  "publish_instance uid = ''gosilver-'' @ take (min 8 (length uid)) uid"

fun info_id :: "string list \<Rightarrow> string" where
  "info_id [] = []"
| "info_id (f # fs) = (if 3 < length f \<and> take 3 f = ''id='' then drop 3 f else info_id fs)"

definition entryID :: "service_entry \<Rightarrow> string" where
  "entryID e = info_id (mdInfo e)"

definition entry_addr :: "service_entry \<Rightarrow> string" where
  "entry_addr e =
     (case mdAddrV4 e of None \<Rightarrow> [] | Some ip \<Rightarrow> JoinHostPort (ip_string ip) (format_int (mdPort e)))"

text \<open>The records of a query: for each session the set of its addresses. A nil entry is \<open>None\<close>.\<close>

definition usable :: "string \<Rightarrow> service_entry option \<Rightarrow> bool" where
  "usable self e =
     (case e of
        None \<Rightarrow> False
      | Some x \<Rightarrow> \<not> (mdAddrV4 x = None \<or> mdPort x = 0 \<or> entryID x = [] \<or> self \<noteq> [] \<and> entryID x = self))"

definition collect_entry :: "string \<Rightarrow> service_entry option \<Rightarrow> (string, string list) gomap \<Rightarrow> (string, string list) gomap" where
  "collect_entry self e found =
     (case e of
        Some x \<Rightarrow> if usable self e then mset_add (entryID x) (entry_addr x) found else found
      | None \<Rightarrow> found)"

datatype lookup_error = NothingFound | QueryFailed string | ManySenders nat | SendersOffline

text \<open>The addresses found are asked in parallel; \<open>answered\<close> lists the session and address of each that
  answered in time, in the order of the answers.\<close>

fun live_table :: "(string \<times> string) list \<Rightarrow> (string, string) gomap \<Rightarrow> (string, string) gomap" where
  "live_table [] live = live"
| "live_table ((uid, addr) # answered) live =
     live_table answered (if mget live uid = None then mput uid addr live else live)"

definition liveSender :: "(string \<times> string) list \<Rightarrow> lookup_error + string" where
  "liveSender answered =
     (let live = live_table answered []
      in if 1 < length live then Inl (ManySenders (length live))
         else (case live of [] \<Rightarrow> Inl SendersOffline | (uid, addr) # _ \<Rightarrow> Inr addr))"

definition records :: "string \<Rightarrow> service_entry option list \<Rightarrow> (string, string list) gomap" where
  "records self es = fold (collect_entry self) es []"

text \<open>\<open>early\<close> arrived before the query returned, \<open>late\<close> was still in the channel then; \<open>failure\<close> is the
  error the query returned.\<close>

definition LookupSender ::
  "string \<Rightarrow> service_entry option list \<Rightarrow> service_entry option list \<Rightarrow> string option \<Rightarrow>
   ((string, string list) gomap \<Rightarrow> (string \<times> string) list) \<Rightarrow> lookup_error + string" where
  "LookupSender self early late failure ask =
     (let found = records self (early @ late)
      in if found \<noteq> [] then liveSender (ask found)
         else (case failure of Some e \<Rightarrow> Inl (QueryFailed e) | None \<Rightarrow> Inl NothingFound))"

definition HasSender :: "lookup_error + string \<Rightarrow> string \<times> bool" where
  "HasSender r = (case r of Inl e \<Rightarrow> ([], False) | Inr addr \<Rightarrow> (addr, addr \<noteq> []))"

section \<open>Local addresses\<close>

definition is_private :: "octets \<Rightarrow> bool" where
  "is_private ip = (case ip of (a, b, c, d) \<Rightarrow> a = 10 \<or> a = 172 \<and> b div 16 = 1 \<or> a = 192 \<and> b = 168)"

definition is_loopback :: "octets \<Rightarrow> bool" where
  "is_loopback ip = (fst ip = 127)"

text \<open>An interface: up, loopback, multicast, and its addresses; \<open>None\<close> is one that is no IPv4 address.\<close>

record net_interface =
  niUp :: bool
  niLoopback :: bool
  niMulticast :: bool
  niAddrs :: "octets option list"

definition outboundIP :: "net_interface list \<Rightarrow> octets option" where
  "outboundIP ifs =
     List.find is_private (List.map_filter id (concat (map niAddrs (filter (\<lambda>i. niUp i \<and> \<not> niLoopback i) ifs))))"

definition localAddresses :: "octets option list \<Rightarrow> string list" where
  "localAddresses addrs = map ip_string (filter (\<lambda>ip. \<not> is_loopback ip) (List.map_filter id addrs))"

definition validIPv4 :: "net_interface \<Rightarrow> octets option" where
  "validIPv4 i = List.find (\<lambda>ip. \<not> is_loopback ip) (List.map_filter id (niAddrs i))"

definition getMulticastInterfaces :: "net_interface list option \<Rightarrow> net_interface list" where
  "getMulticastInterfaces ifs =
     (case ifs of None \<Rightarrow> [] | Some xs \<Rightarrow> filter (\<lambda>i. niUp i \<and> niMulticast i \<and> validIPv4 i \<noteq> None) xs)"

section \<open>Announcements\<close>

record announce_info =
  anMagic :: string
  anPort :: int
  anFileName :: string
  anFileSize :: int
  anSaveDir :: string
  anToken :: string

definition Magic :: string where
  "Magic = ''gsp-discovery/1''"

definition defaultInterval :: int where
  "defaultInterval = 2 * 1000000000"

definition SenderAddr :: "announce_info \<Rightarrow> octets option \<Rightarrow> string" where
  "SenderAddr a src = JoinHostPort (case src of None \<Rightarrow> [] | Some ip \<Rightarrow> ip_string ip) (format_int (anPort a))"

text \<open>\<open>dial\<close> opens a socket bound to an address, \<open>dial None\<close> one on the default route. The result is the
  payload, the interval in nanoseconds and the sockets the payload is written to at once and at every
  tick.\<close>

definition announce_sockets :: "(octets option \<Rightarrow> 'c option) \<Rightarrow> net_interface list option \<Rightarrow> 'c list option" where
  "announce_sockets dial ifs =
     (let conns = List.map_filter (\<lambda>i. case validIPv4 i of None \<Rightarrow> None | Some ip \<Rightarrow> dial (Some ip)) (getMulticastInterfaces ifs)
      in if conns \<noteq> [] then Some conns else map_option (\<lambda>c. [c]) (dial None))"

definition Announce ::
  "(announce_info \<Rightarrow> byte list option) \<Rightarrow> (octets option \<Rightarrow> 'c option) \<Rightarrow> net_interface list option \<Rightarrow> announce_info \<Rightarrow> int \<Rightarrow>
   (byte list \<times> int \<times> 'c list) option" where
  "Announce marshal dial ifs info interval =
     (case marshal (info\<lparr>anMagic := Magic\<rparr>) of
        None \<Rightarrow> None
      | Some payload \<Rightarrow>
          (case announce_sockets dial ifs of
             None \<Rightarrow> None
           | Some conns \<Rightarrow> Some (payload, if interval \<le> 0 then defaultInterval else interval, conns)))"

text \<open>\<open>join\<close> joins the group on an interface, \<open>join None\<close> on the default one.\<close>

definition Listen :: "(net_interface option \<Rightarrow> bool) \<Rightarrow> net_interface list option \<Rightarrow> net_interface option list option" where
  "Listen join ifs =
     (let opened = filter join (map Some (getMulticastInterfaces ifs))
      in if opened \<noteq> [] then Some opened else if join None then Some [None] else None)"

text \<open>One read of a listener: nothing in time, an error, or a datagram with its source. The buffer takes
  2048 bytes; the rest of a longer datagram is lost. \<open>stopped\<close> is looked at before each read and
  after an error.\<close>

datatype listen_event = ReadTimeout | ReadFailure | Datagram "byte list" "octets option"

definition listen_buffer :: nat where
  "listen_buffer = 2048"

definition listen_accept :: "(byte list \<Rightarrow> announce_info option) \<Rightarrow> listen_event \<Rightarrow> (announce_info \<times> octets option) option" where
  "listen_accept unmarshal ev =
     (case ev of
        Datagram bs src \<Rightarrow>
          (case unmarshal (take listen_buffer bs) of
             None \<Rightarrow> None
           | Some info \<Rightarrow> if anMagic info \<noteq> Magic then None else Some (info, src))
      | _ \<Rightarrow> None)"

fun listen_loop :: "(byte list \<Rightarrow> announce_info option) \<Rightarrow> (bool \<times> listen_event) list \<Rightarrow> (announce_info \<times> octets option) list" where
  "listen_loop unmarshal [] = []"
| "listen_loop unmarshal ((stopped, ev) # evs) =
     (if stopped then []
      else (case listen_accept unmarshal ev of None \<Rightarrow> [] | Some h \<Rightarrow> [h]) @ listen_loop unmarshal evs)"

section \<open>Lemmas\<close>

lemma entryID_publish: "uid \<noteq> [] \<Longrightarrow> mdInfo e = publish_info uid \<Longrightarrow> entryID e = uid"
  by (simp add: entryID_def publish_info_def)

lemma usableD:
  "usable self (Some e) \<Longrightarrow> \<exists>ip. mdAddrV4 e = Some ip \<and> mdPort e \<noteq> 0 \<and> entryID e \<noteq> [] \<and> (self = [] \<or> entryID e \<noteq> self) \<and>
     entry_addr e = JoinHostPort (ip_string ip) (format_int (mdPort e))"
  by (auto simp: usable_def entry_addr_def)

definition found_from :: "string \<Rightarrow> service_entry option list \<Rightarrow> (string, string list) gomap \<Rightarrow> bool" where
  "found_from self es m \<longleftrightarrow>
     wf_map m \<and> (\<forall>uid addr. addr \<in> set (mset_of m uid) \<longleftrightarrow>
       (\<exists>e. Some e \<in> set es \<and> usable self (Some e) \<and> entryID e = uid \<and> entry_addr e = addr))"

lemma found_fromD:
  "found_from self es m \<Longrightarrow> addr \<in> set (mset_of m uid) \<Longrightarrow>
   \<exists>e. Some e \<in> set es \<and> usable self (Some e) \<and> entryID e = uid \<and> entry_addr e = addr"
  by (simp add: found_from_def)

lemma ip_string_split:
  "SplitHostPort (JoinHostPort (ip_string ip) (format_int p)) = Some (ip_string ip, format_int p)"
proof (rule split_join_host_port)
  obtain a b c d where ip: "ip = (a, b, c, d)" by (cases ip)
  show "plain_part (ip_string ip)"
    unfolding plain_part_def ip ip_string_def using dotted_chars [of _ a b c d] by fastforce
  have "x \<in> set (format_int p) \<Longrightarrow> x = CHR ''-'' \<or> is_digit x" for x
    using nat_digits_digits by (auto simp: format_int_def list_all_iff split: if_splits)
  then show "plain_part (format_int p)" unfolding plain_part_def by fastforce
  show "CHR '':'' \<notin> set (format_int p)" by (rule colon_not_in_format_int)
qed

lemma found_records: "found_from self es (records self es)"
proof (induction es rule: rev_induct)
  case Nil
  then show ?case by (simp add: found_from_def records_def)
next
  case (snoc e es)
  have r: "records self (es @ [e]) = collect_entry self e (records self es)" by (simp add: records_def)
  show ?case
  proof (cases "usable self e")
    case False
    then have "collect_entry self e m = m" for m by (cases e) (simp_all add: collect_entry_def)
    with snoc False show ?thesis by (auto simp: found_from_def r)
  next
    case True
    then obtain x where x: "e = Some x" by (cases e) (simp_all add: usable_def)
    have c: "collect_entry self e m = mset_add (entryID x) (entry_addr x) m" for m
      using True x by (simp add: collect_entry_def)
    have "wf_map (mset_add (entryID x) (entry_addr x) (records self es))" using snoc by (simp add: found_from_def)
    moreover have "addr \<in> set (mset_of (mset_add (entryID x) (entry_addr x) (records self es)) uid) \<longleftrightarrow>
        (\<exists>e'. Some e' \<in> set (es @ [e]) \<and> usable self (Some e') \<and> entryID e' = uid \<and> entry_addr e' = addr)" for uid addr
      using snoc True x by (auto simp: found_from_def gomap_simps)
    ultimately show ?thesis by (simp add: found_from_def r c)
  qed
qed

lemma live_table_inv:
  "wf_map live \<Longrightarrow> wf_map (live_table as live) \<and> fst ` set (live_table as live) = fst ` set live \<union> fst ` set as \<and>
   set (live_table as live) \<subseteq> set live \<union> set as"
proof (induction as live rule: live_table.induct)
  case (2 uid addr as live)
  show ?case
  proof (cases "mget live uid")
    case None
    then have "mput uid addr live = live @ [(uid, addr)]" by (simp add: mget_None mput_fresh)
    with 2 None show ?thesis by (auto simp: mget_None)
  next
    case (Some a)
    then have "uid \<in> fst ` set live" by (rule mget_SomeD)
    with 2 Some show ?thesis by auto
  qed
qed simp

lemma liveSender_Inr:
  "liveSender as = Inr addr \<longleftrightarrow> (\<exists>uid. live_table as [] = [(uid, addr)])"
  by (auto simp: liveSender_def Let_def split: list.splits)

lemma liveSender_one: "(\<exists>addr. liveSender as = Inr addr) \<longleftrightarrow> (\<exists>uid. fst ` set as = {uid})"
proof -
  define m where "m = live_table as []"
  have m: "wf_map m" "fst ` set m = fst ` set as" using live_table_inv [of "[]" as] by (simp_all add: m_def)
  have "(\<exists>uid addr. m = [(uid, addr)]) \<longleftrightarrow> (\<exists>uid. fst ` set m = {uid})"
  proof
    assume "\<exists>uid. fst ` set m = {uid}"
    then obtain uid where u: "set (mkeys m) = {uid}" by auto
    then have "length (mkeys m) = 1" using m(1) distinct_card [of "mkeys m"] by simp
    then show "\<exists>uid addr. m = [(uid, addr)]" by (cases m) (auto simp: length_Suc_conv)
  qed auto
  then show ?thesis by (simp add: liveSender_Inr m(2) flip: m_def) blast
qed

section \<open>Properties\<close>

text \<open>The search for a sender succeeds exactly when the records lead to one live session and no other:
  whatever the order of records and answers, an address is returned if and only if at least one of
  the addresses asked answered and all that did belong to the same session. The address is one that
  this session's own record gave and that answered, the searcher itself is never found, and dialling it
  reaches the record's IP address and port.\<close>

theorem lookup_unique:
  assumes "\<And>uid addr. (uid, addr) \<in> set (ask (records self (early @ late))) \<Longrightarrow> addr \<in> set (mset_of (records self (early @ late)) uid)"
  shows "((\<exists>addr. LookupSender self early late failure ask = Inr addr) \<longleftrightarrow>
      (\<exists>uid. fst ` set (ask (records self (early @ late))) = {uid})) \<and>
    (\<forall>addr. LookupSender self early late failure ask = Inr addr \<longrightarrow>
      (\<exists>e ip. Some e \<in> set (early @ late) \<and> mdAddrV4 e = Some ip \<and> mdPort e \<noteq> 0 \<and> entryID e \<noteq> [] \<and> (self = [] \<or> entryID e \<noteq> self) \<and>
        (entryID e, addr) \<in> set (ask (records self (early @ late))) \<and>
        SplitHostPort addr = Some (ip_string ip, format_int (mdPort e))))"
proof -
  let ?m = "records self (early @ late)"
  let ?as = "ask ?m"
  note f = found_records [of self "early @ late"]
  have some: "?as = []" if "?m = []"
  proof (cases "?as")
    case (Cons x xs)
    then have "snd x \<in> set (mset_of ?m (fst x))" using assms [of "fst x" "snd x"] by simp
    with that show ?thesis by simp
  qed simp
  have l: "LookupSender self early late failure ask = Inr addr \<longleftrightarrow> liveSender ?as = Inr addr" for addr
  proof (cases "?m = []")
    case True
    then have "liveSender ?as = Inl SendersOffline" using some by (simp add: liveSender_def)
    moreover have "LookupSender self early late failure ask = (case failure of Some e \<Rightarrow> Inl (QueryFailed e) | None \<Rightarrow> Inl NothingFound)"
      unfolding LookupSender_def Let_def by (rule if_not_P) (simp add: True)
    ultimately show ?thesis by (simp split: option.splits)
  next
    case False
    then have "LookupSender self early late failure ask = liveSender ?as" unfolding LookupSender_def Let_def by (rule if_P)
    then show ?thesis by simp
  qed
  have "\<exists>e ip. Some e \<in> set (early @ late) \<and> mdAddrV4 e = Some ip \<and> mdPort e \<noteq> 0 \<and> entryID e \<noteq> [] \<and> (self = [] \<or> entryID e \<noteq> self) \<and>
        (entryID e, addr) \<in> set ?as \<and> SplitHostPort addr = Some (ip_string ip, format_int (mdPort e))"
    if "liveSender ?as = Inr addr" for addr
  proof -
    have "\<exists>uid. live_table ?as [] = [(uid, addr)]" using that by (simp only: liveSender_Inr)
    then obtain uid where "live_table ?as [] = [(uid, addr)]" ..
    then have a: "(uid, addr) \<in> set ?as" using live_table_inv [of "[]" ?as] by auto
    have "addr \<in> set (mset_of ?m uid)" by (rule assms [OF a])
    from found_fromD [OF f this]
    obtain e where e: "Some e \<in> set (early @ late)" "usable self (Some e)" "entryID e = uid" "entry_addr e = addr"
      by (elim exE conjE)
    from usableD [OF e(2)] obtain ip where ip: "mdAddrV4 e = Some ip" "mdPort e \<noteq> 0" "entryID e \<noteq> []"
        "self = [] \<or> entryID e \<noteq> self" "entry_addr e = JoinHostPort (ip_string ip) (format_int (mdPort e))" by blast
    have "SplitHostPort addr = Some (ip_string ip, format_int (mdPort e))"
      using ip_string_split [of ip "mdPort e"] e(4) ip(5) by simp
    with a e ip(1-4) show ?thesis by (intro exI [of _ e] exI [of _ ip]) simp
  qed
  then show ?thesis using l liveSender_one [of ?as] by simp
qed

definition sample_entry_of :: "string \<Rightarrow> nat \<Rightarrow> service_entry" where
  "sample_entry_of uid d = \<lparr>mdAddrV4 = Some (10, 0, 0, d), mdPort = 80, mdInfo = publish_info uid\<rparr>"

theorem lookup_unique_witness:
  "(\<exists>addr. LookupSender ''me'' [Some (sample_entry_of ''a'' 1), None] [Some (sample_entry_of ''b'' 2)] None
     (\<lambda>found. [(''b'', JoinHostPort (dotted 10 0 0 2) (format_int 80))]) = Inr addr)"
proof -
  let ?ask = "\<lambda>found :: (string, string list) gomap. [(''b'', JoinHostPort (dotted 10 0 0 2) (format_int 80))]"
  let ?m = "records ''me'' ([Some (sample_entry_of ''a'' 1), None] @ [Some (sample_entry_of ''b'' 2)])"
  have m: "?m = [(''a'', [JoinHostPort (dotted 10 0 0 1) (format_int 80)]), (''b'', [JoinHostPort (dotted 10 0 0 2) (format_int 80)])]"
    by (simp add: records_def collect_entry_def usable_def sample_entry_of_def entryID_def publish_info_def entry_addr_def
        ip_string_def mset_add_def mset_of_def)
  have asked: "addr \<in> set (mset_of ?m uid)" if "(uid, addr) \<in> set (?ask ?m)" for uid addr
    unfolding m using that by (simp add: mset_of_def)
  have "fst ` set (?ask ?m) = {''b''}" by simp
  with lookup_unique [of ?ask "''me''" "[Some (sample_entry_of ''a'' 1), None]" "[Some (sample_entry_of ''b'' 2)]" None, OF asked]
  show ?thesis by blast
qed

text \<open>An announcement that fits the listener's buffer is heard. If JSON reads back what it wrote for it, then a
  listener that gets the payload before it is stopped hands over exactly the announcement, marked with the
  protocol's name, and the address it derives leads to the source's IP address and the announced
  port. A payload beyond 2048 bytes whose first 2048 are no JSON object is never handed over.\<close>

theorem announcement_heard:
  assumes "\<And>bs. marshal (info\<lparr>anMagic := Magic\<rparr>) = Some bs \<Longrightarrow> unmarshal bs = Some (info\<lparr>anMagic := Magic\<rparr>)"
    and "Announce marshal dial ifs info interval = Some (payload, every, conns)"
  shows "(length payload \<le> 2048 \<longrightarrow>
      listen_loop unmarshal ((False, Datagram payload (Some ip)) # evs) =
        (info\<lparr>anMagic := Magic\<rparr>, Some ip) # listen_loop unmarshal evs) \<and>
    SplitHostPort (SenderAddr info (Some ip)) = Some (ip_string ip, format_int (anPort info)) \<and>
    (unmarshal (take 2048 payload) = None \<longrightarrow> listen_loop unmarshal (replicate n (False, Datagram payload (Some ip))) = []) \<and>
    0 < every \<and> conns \<noteq> []"
proof -
  have m: "marshal (info\<lparr>anMagic := Magic\<rparr>) = Some payload" "every = (if interval \<le> 0 then defaultInterval else interval)"
    and c: "announce_sockets dial ifs = Some conns"
    using assms(2) by (auto simp: Announce_def split: option.splits)
  have "unmarshal payload = Some (info\<lparr>anMagic := Magic\<rparr>)" using assms(1) m(1) by blast
  moreover have "listen_loop unmarshal (replicate n (False, Datagram payload (Some ip))) = []"
    if "unmarshal (take 2048 payload) = None"
    using that by (induction n) (simp_all add: listen_accept_def listen_buffer_def)
  moreover have "conns \<noteq> []" using c by (auto simp: announce_sockets_def Let_def split: if_splits)
  ultimately show ?thesis
    using m(2) ip_string_split by (simp add: listen_accept_def listen_buffer_def SenderAddr_def defaultInterval_def)
qed

definition sample_announce :: announce_info where
  "sample_announce = \<lparr>anMagic = [], anPort = 80, anFileName = ''f'', anFileSize = 1, anSaveDir = [], anToken = ''t''\<rparr>"

definition sample_marshal :: "announce_info \<Rightarrow> byte list option" where
  "sample_marshal a = (if a = sample_announce\<lparr>anMagic := Magic\<rparr> then Some [1] else None)"

definition sample_unmarshal_info :: "byte list \<Rightarrow> announce_info option" where
  "sample_unmarshal_info bs = (if bs = [1] then Some (sample_announce\<lparr>anMagic := Magic\<rparr>) else None)"

theorem announcement_heard_witness:
  "listen_loop sample_unmarshal_info [(False, Datagram [1] (Some (10, 0, 0, 7)))] =
     [(sample_announce\<lparr>anMagic := Magic\<rparr>, Some (10, 0, 0, 7))]"
proof -
  have a: "Announce sample_marshal (\<lambda>ip. Some ()) None sample_announce 0 = Some ([1], defaultInterval, [()])"
    by (simp add: Announce_def sample_marshal_def announce_sockets_def getMulticastInterfaces_def map_filter_def)
  have r: "sample_unmarshal_info bs = Some (sample_announce\<lparr>anMagic := Magic\<rparr>)"
    if "sample_marshal (sample_announce\<lparr>anMagic := Magic\<rparr>) = Some bs" for bs
    using that by (simp add: sample_marshal_def sample_unmarshal_info_def split: if_splits)
  from announcement_heard [of sample_marshal sample_announce sample_unmarshal_info, OF r a, of "(10, 0, 0, 7)" "[]"] show ?thesis by simp
qed

end
