(* ===== verification/Web.thy ===== *)
theory Web
  imports Peers Discovery
begin

text \<open>
  The web interface (\<^verbatim>\<open>internal/webui/http.go\<close>): which requests are served, the actions they name, directory
  listings and uploads. JSON, URLs, multipart bodies and the file system are parameters; pages and
  event streams are output only.
\<close>

section \<open>Which requests are served\<close>

text \<open>\<open>rqOriginHost\<close> is the host of the \<^verbatim>\<open>Origin\<close> header: \<open>None\<close> without the header, \<open>Some None\<close> when it is no
  URL.\<close>

record web_request =
  rqMethod :: string
  rqPath :: string
  rqHost :: string
  rqOriginHost :: "string option option"
  rqFetchSite :: string
  rqToken :: string
  rqQueryToken :: string

datatype verdict = NotLocal | CrossSite | SessionExpired | Admitted

text \<open>\<^verbatim>\<open>IsLoopback\<close> on the groups of an address.\<close>

definition ip_loopback :: "nat list \<Rightarrow> bool" where
  "ip_loopback g =
     (case To4 g of Some (a, b, c, d) \<Rightarrow> a = 127 | None \<Rightarrow> g = [0, 0, 0, 0, 0, 0, 0, 1])"

definition request_host :: "string \<Rightarrow> string" where
  "request_host h = (case SplitHostPort h of Some (x, _) \<Rightarrow> x | None \<Rightarrow> h)"

definition local_host :: "string \<Rightarrow> bool" where
  "local_host h = (h = ''localhost'' \<or> (case ParseIP h of None \<Rightarrow> False | Some ip \<Rightarrow> ip_loopback ip))"

definition admit :: "string \<Rightarrow> web_request \<Rightarrow> verdict" where
  "admit csrf r =
     (if \<not> local_host (request_host (rqHost r)) then NotLocal
      else if (case rqOriginHost r of None \<Rightarrow> False | Some None \<Rightarrow> True | Some (Some h) \<Rightarrow> h \<noteq> rqHost r) then CrossSite
      else if rqFetchSite r = ''cross-site'' then CrossSite
      else if prefix ''/api/'' (rqPath r) \<and> rqPath r \<noteq> ''/api/session'' then
        (if (if rqPath r = ''/api/events'' then rqQueryToken r else rqToken r) \<noteq> csrf then SessionExpired else Admitted)
      else Admitted)"

datatype endpoint = EpSession | EpState | EpEvents | EpLocal | EpUpload | EpCancel | EpAction | EpBrowse | EpPage | EpStatic | EpNone

text \<open>The multiplexer's table; a method pattern \<^verbatim>\<open>GET\<close> also matches \<^verbatim>\<open>HEAD\<close>. Paths that are not clean are redirected
  before, and end here as \<open>EpNone\<close>.\<close>

definition endpoint_of :: "web_request \<Rightarrow> endpoint" where
  "endpoint_of r =
     (let get = (rqMethod r = ''GET'' \<or> rqMethod r = ''HEAD''); post = (rqMethod r = ''POST''); p = rqPath r
      in if get \<and> p = ''/api/session'' then EpSession
         else if get \<and> p = ''/api/state'' then EpState
         else if get \<and> p = ''/api/events'' then EpEvents
         else if get \<and> p = ''/api/local'' then EpLocal
         else if post \<and> p = ''/api/upload'' then EpUpload
         else if post \<and> p = ''/api/cancel'' then EpCancel
         else if post \<and> p = ''/api/action'' then EpAction
         else if post \<and> p = ''/api/browse'' then EpBrowse
         else if get \<and> prefix ''/static/'' p then EpStatic
         else if get \<and> p = ''/'' then EpPage
         else EpNone)"

definition serve :: "string \<Rightarrow> web_request \<Rightarrow> verdict + endpoint" where
  "serve csrf r = (case admit csrf r of Admitted \<Rightarrow> Inr (endpoint_of r) | v \<Rightarrow> Inl v)"

section \<open>Actions\<close>

record action_request =
  acMode :: string
  acAction :: string
  acPath :: string
  acListen :: string
  acConfig :: config
  acDispatch :: app_dispatch

text \<open>What an action runs: an operation, or a command in its own slot.\<close>

datatype web_action = RunOp action | RunProbe app_dispatch | RunDispatch app_dispatch | RunCommand app_dispatch

definition action_of :: "action_request \<Rightarrow> web_action option" where
  "action_of q =
     (let n = acAction q
      in if n = ''mode.select'' then Some (RunOp (ActMode (acMode q)))
         else if n = ''mode.reset'' then Some (RunOp (ActMode []))
         else if n = ''sender.start'' then Some (RunOp (ActSender (acPath q) (acListen q)))
         else if n = ''receiver.start'' then Some (RunOp (ActReceiver (acConfig q)))
         else if n = ''receiver.manual'' then Some (RunOp (ActManual (acConfig q)))
         else if n = ''file.stop'' then Some (RunOp ActFileStop)
         else if n = ''dispatch.auto'' then Some (RunOp (ActDistribute (acDispatch q)))
         else if n = ''dispatch.stop'' then Some (RunOp ActPause)
         else if n = ''sender.stop'' then Some (RunOp ActSenderStop)
         else if n = ''receiver.stop'' then Some (RunOp ActReceiverStop)
         else if n = ''probe'' then Some (RunProbe (acDispatch q))
         else if n = ''dispatch'' then Some (RunDispatch (acDispatch q))
         else if n = ''command'' then Some (RunCommand (acDispatch q))
         else None)"

text \<open>The answer's status and the application with the slot taken; \<open>decoded\<close> is \<open>None\<close> when the body is not one
  JSON object of the known fields.\<close>

definition web_act :: "action_request option \<Rightarrow> string \<Rightarrow> app \<Rightarrow> nat \<times> app" where
  "web_act decoded uid a =
     (case decoded of
        None \<Rightarrow> (400, a)
      | Some q \<Rightarrow>
          (case action_of q of
             None \<Rightarrow> (400, a)
           | Some act \<Rightarrow>
               (case (case act of RunCommand d \<Rightarrow> beginCommand uid a | _ \<Rightarrow> begin_op (acAction q) uid a) of
                  None \<Rightarrow> (409, a)
                | Some b \<Rightarrow> (202, b))))"

text \<open>The address a browse request is sent to.\<close>

definition browse_address :: "app \<Rightarrow> peer_info list \<Rightarrow> string \<Rightarrow> app_error + string" where
  "browse_address a snapshot uid =
     (if apHub a = None then Inl NoHub
      else
        (case List.find (\<lambda>p. piUUID p = uid \<and> \<not> piSelf p) snapshot of
           None \<Rightarrow> Inl AllOffline
         | Some p \<Rightarrow> if piAddr p = [] then Inl AllOffline else Inr (piAddr p)))"

text \<open>What a request does to the operations of the application: an action begins one, a cancellation marks one, and
  nothing else touches them. \<open>scope\<close> is the decoded body of a cancellation.\<close>

definition web_effect :: "string \<Rightarrow> web_request \<Rightarrow> action_request option \<Rightarrow> string option \<Rightarrow> string \<Rightarrow> app \<Rightarrow> app" where
  "web_effect csrf r decoded scope uid a =
     (case serve csrf r of
        Inr EpAction \<Rightarrow> snd (web_act decoded uid a)
      | Inr EpCancel \<Rightarrow> (case scope of None \<Rightarrow> a | Some sc \<Rightarrow> fst (cancel_app sc a))
      | _ \<Rightarrow> a)"

section \<open>Directory listings\<close>

text \<open>An entry of the directory: its name, whether it is a symbolic link or a directory, and its size unless its
  information cannot be read.\<close>

record dir_item =
  dtName :: string
  dtLink :: bool
  dtDir :: bool
  dtSize :: "int option"

record file_entry =
  feName :: string
  fePath :: string
  feDir :: bool
  feSize :: int

record listing =
  lsPath :: string
  lsParent :: string
  lsRoot :: string
  lsEntries :: "file_entry list"
  lsTruncated :: bool

definition listing_limit :: nat where
  "listing_limit = 1000"

definition listed :: "bool \<Rightarrow> dir_item \<Rightarrow> bool" where
  "listed only_dirs d \<longleftrightarrow> \<not> (dtLink d \<or> prefix ''.gosilver-'' (dtName d) \<or> only_dirs \<and> \<not> dtDir d) \<and> dtSize d \<noteq> None"

definition file_entry_of :: "string \<Rightarrow> dir_item \<Rightarrow> file_entry" where
  "file_entry_of abs_dir d =
     \<lparr>feName = dtName d, fePath = path_Join abs_dir (dtName d), feDir = dtDir d, feSize = (case dtSize d of None \<Rightarrow> 0 | Some n \<Rightarrow> n)\<rparr>"

text \<open>One batch: the entries appended until the limit is reached.\<close>

fun list_batch :: "string \<Rightarrow> bool \<Rightarrow> dir_item list \<Rightarrow> file_entry list \<Rightarrow> file_entry list \<times> bool" where
  "list_batch dir only [] out = (out, False)"
| "list_batch dir only (d # ds) out =
     (if \<not> listed only d then list_batch dir only ds out
      else
        (let out' = out @ [file_entry_of dir d]
         in if listing_limit \<le> length out' then (out', True) else list_batch dir only ds out'))"

text \<open>How \<^verbatim>\<open>ReadDir\<close> ends a batch; after the last batch given the directory is at its end.\<close>

datatype batch_end = BatchMore | BatchEOF | BatchFailed

fun list_batches :: "string \<Rightarrow> bool \<Rightarrow> (dir_item list \<times> batch_end) list \<Rightarrow> file_entry list \<Rightarrow> (file_entry list \<times> bool) option" where
  "list_batches dir only [] out = Some (out, False)"
| "list_batches dir only ((ds, e) # bs) out =
     (let (out', truncated) = list_batch dir only ds out
      in if truncated \<or> e = BatchEOF then Some (out', truncated)
         else if e = BatchFailed then None
         else list_batches dir only bs out')"

definition sort_entries :: "file_entry list \<Rightarrow> file_entry list" where
  "sort_entries es = sort_key (\<lambda>e. if feDir e then 0 else 1 :: nat) (sort_key feName es)"

text \<open>\<open>absolute\<close> is \<^verbatim>\<open>filepath.Abs\<close>, \<open>is_file\<close> tells that a path exists and is no directory, \<open>open_dir\<close> gives the
  batches read.\<close>

definition listDirectory ::
  "(string \<Rightarrow> string option) \<Rightarrow> (string \<Rightarrow> bool) \<Rightarrow> (string \<Rightarrow> (dir_item list \<times> batch_end) list option) \<Rightarrow> string \<Rightarrow> string \<Rightarrow> bool \<Rightarrow> listing option" where
  "listDirectory absolute is_file open_dir p rdir only_dirs =
     (case absolute p of
        None \<Rightarrow> None
      | Some a \<Rightarrow>
          (let dir = (if is_file a then path_Dir a else a)
           in case open_dir dir of
                None \<Rightarrow> None
              | Some batches \<Rightarrow>
                  (case list_batches dir only_dirs batches [] of
                     None \<Rightarrow> None
                   | Some (es, truncated) \<Rightarrow>
                       Some \<lparr>lsPath = dir, lsParent = (if rdir \<noteq> [] \<and> dir = rdir then [] else path_Dir dir), lsRoot = rdir,
                         lsEntries = sort_entries es, lsTruncated = truncated\<rparr>)))"

section \<open>Uploads\<close>

text \<open>A part of the body: an error, or a named file with whether its bytes were copied and its file closed
  without an error.\<close>

datatype upload_part = PartError | Part string bool bool

datatype upload_error = NotMultipart | NoTemp | BadPart | BadUploadName | TooManyFiles | UploadMkdir | UploadOpen | UploadCopy | NoFiles | UploadReadDir | UploadClosed

fun upload_parts ::
  "(string \<Rightarrow> bool) \<Rightarrow> (string \<Rightarrow> bool) \<Rightarrow> string \<Rightarrow> upload_part list \<Rightarrow> string list \<Rightarrow> nat \<Rightarrow> string list \<Rightarrow> (upload_error + nat) \<times> string list" where
  "upload_parts mk op temp [] seen cnt files = (Inr cnt, files)"
| "upload_parts mk op temp (PartError # ps) seen cnt files = (Inl BadPart, files)"
| "upload_parts mk op temp (Part name copied shut # ps) seen cnt files =
     (if \<not> SafeName name \<or> name \<in> set seen then (Inl BadUploadName, files)
      else if MaxEntries < Suc cnt then (Inl TooManyFiles, files)
      else
        (let target = path_Join temp name
         in if \<not> mk (path_Dir target) then (Inl UploadMkdir, files)
            else if \<not> op target then (Inl UploadOpen, files)
            else if \<not> copied \<or> \<not> shut then (Inl UploadCopy, files @ [target])
            else upload_parts mk op temp ps (List.insert name seen) (Suc cnt) (files @ [target])))"

text \<open>The outcome, the directories the application will remove when it closes, whether the temporary directory is
  kept, and the files created in it. \<open>found\<close> is what \<^verbatim>\<open>ReadDir\<close> says is in it.\<close>

definition upload ::
  "(string \<Rightarrow> bool) \<Rightarrow> (string \<Rightarrow> bool) \<Rightarrow> bool \<Rightarrow> string option \<Rightarrow> upload_part list \<Rightarrow> string list option \<Rightarrow> bool \<Rightarrow> string list \<Rightarrow>
   (upload_error + string \<times> nat) \<times> string list \<times> bool \<times> string list" where
  "upload mk op multipart temp parts found gone uploads =
     (if \<not> multipart then (Inl NotMultipart, uploads, False, [])
      else
        (case temp of
           None \<Rightarrow> (Inl NoTemp, uploads, False, [])
         | Some tmp \<Rightarrow>
             (case upload_parts mk op tmp parts [] 0 [] of
                (Inl e, files) \<Rightarrow> (Inl e, uploads, False, files)
              | (Inr cnt, files) \<Rightarrow>
                  if cnt = 0 then (Inl NoFiles, uploads, False, files)
                  else
                    (case found of
                       None \<Rightarrow> (Inl UploadReadDir, uploads, False, files)
                     | Some names \<Rightarrow>
                         if gone then (Inl UploadClosed, uploads, False, files)
                         else (Inr (if length names = 1 then path_Join tmp (hd names) else tmp, cnt), uploads @ [tmp], True, files)))))"

section \<open>Lemmas\<close>

text \<open>Admitted requests.\<close>

lemma serve_admitted: "serve csrf r = Inr ep \<Longrightarrow> admit csrf r = Admitted" "serve csrf r = Inr ep \<Longrightarrow> ep = endpoint_of r"
  by (auto simp: serve_def split: verdict.splits)

lemma admit_guard:
  assumes "admit csrf r = Admitted"
  shows "local_host (request_host (rqHost r))" "rqOriginHost r = None \<or> rqOriginHost r = Some (Some (rqHost r))"
    "rqFetchSite r \<noteq> ''cross-site''"
  using assms by (auto simp: admit_def split: if_splits option.splits)

lemma api_path:
  "ep \<in> {EpState, EpLocal, EpUpload, EpCancel, EpAction, EpBrowse, EpEvents} \<Longrightarrow> endpoint_of r = ep \<Longrightarrow>
   prefix ''/api/'' (rqPath r) \<and> rqPath r \<noteq> ''/api/session'' \<and> (rqPath r = ''/api/events'' \<longleftrightarrow> ep = EpEvents)"
  by (auto simp: endpoint_of_def Let_def split: if_splits)

lemma endpoint_token:
  assumes "admit csrf r = Admitted"
  shows "endpoint_of r \<in> {EpState, EpLocal, EpUpload, EpCancel, EpAction, EpBrowse} \<longrightarrow> rqToken r = csrf"
    and "endpoint_of r = EpEvents \<longrightarrow> rqQueryToken r = csrf"
  using assms api_path [of "endpoint_of r" r] by (auto simp: admit_def split: if_splits)

lemma endpoint_post: "endpoint_of r \<in> {EpUpload, EpCancel, EpAction, EpBrowse} \<longrightarrow> rqMethod r = ''POST''"
  by (simp add: endpoint_of_def Let_def)

lemma local_dotted:
  assumes "a < 256" "b < 256" "c < 256" "d < 256" and "plain_part port" "CHR '':'' \<notin> set port"
  shows "local_host (request_host (JoinHostPort (dotted a b c d) port)) \<longleftrightarrow> a = 127"
proof -
  have "plain_part (dotted a b c d)" unfolding plain_part_def using dotted_chars [of _ a b c d] by fastforce
  then have "request_host (JoinHostPort (dotted a b c d) port) = dotted a b c d"
    using assms(5,6) by (simp add: request_host_def split_join_host_port)
  moreover have "dotted a b c d \<noteq> ''localhost''"
  proof
    assume "dotted a b c d = ''localhost''"
    then have "CHR ''l'' \<in> set (dotted a b c d)" by simp
    then show False using dotted_chars [of "CHR ''l''" a b c d] by (simp add: is_digit_def)
  qed
  ultimately show ?thesis using assms(1-4) by (simp add: local_host_def ParseIP_dotted ip_loopback_def To4_def)
qed


fun batch_items :: "(dir_item list \<times> batch_end) list \<Rightarrow> dir_item list" where
  "batch_items [] = []"
| "batch_items ((ds, e) # bs) = (if e = BatchMore then ds @ batch_items bs else ds)"

definition kept_items :: "bool \<Rightarrow> dir_item list \<Rightarrow> dir_item list" where
  "kept_items only ds = filter (listed only) ds"

lemma kept_append [simp]: "kept_items only (xs @ ys) = kept_items only xs @ kept_items only ys"
  by (simp add: kept_items_def)

lemma list_batch_spec:
  "length out < listing_limit \<Longrightarrow>
   list_batch dir only ds out =
     (take listing_limit (out @ map (file_entry_of dir) (kept_items only ds)),
      listing_limit \<le> length out + length (kept_items only ds))"
proof (induction ds arbitrary: out)
  case (Cons d ds)
  show ?case
  proof (cases "listed only d")
    case True
    show ?thesis
    proof (cases "listing_limit \<le> Suc (length out)")
      case full: True
      with Cons.prems have "listing_limit = Suc (length out)" by simp
      moreover from this have "listing_limit - length out = Suc 0" by simp
      ultimately show ?thesis using True by (simp add: kept_items_def Let_def)
    next
      case False
      with Cons.IH [of "out @ [file_entry_of dir d]"] True show ?thesis by (simp add: kept_items_def Let_def)
    qed
  next
    case False
    with Cons show ?thesis by (simp add: kept_items_def)
  qed
qed (simp add: kept_items_def)

lemma list_batches_spec:
  "length out < listing_limit \<Longrightarrow> list_batches dir only bs out = Some (es, truncated) \<Longrightarrow>
   es = take listing_limit (out @ map (file_entry_of dir) (kept_items only (batch_items bs))) \<and>
   (truncated \<longleftrightarrow> listing_limit \<le> length out + length (kept_items only (batch_items bs)))"
proof (induction bs arbitrary: out)
  case Nil
  then show ?case by (auto simp: kept_items_def)
next
  case (Cons b bs)
  obtain ds e where b: "b = (ds, e)" by (cases b)
  let ?k = "kept_items only ds"
  note l = list_batch_spec [OF Cons.prems(1), of dir only ds]
  show ?case
  proof (cases "listing_limit \<le> length out + length ?k")
    case True
    have "es = take listing_limit (out @ map (file_entry_of dir) ?k)" "truncated"
      using Cons.prems(2) l True by (simp_all add: b)
    with True show ?thesis by (auto simp: b)
  next
    case False
    then have l': "list_batch dir only ds out = (out @ map (file_entry_of dir) ?k, False)"
      using l by simp
    show ?thesis
    proof (cases e)
      case BatchMore
      with Cons.prems(2) l' have "list_batches dir only bs (out @ map (file_entry_of dir) ?k) = Some (es, truncated)"
        by (simp add: b)
      from Cons.IH [OF _ this] False BatchMore show ?thesis by (simp add: b add.assoc)
    next
      case BatchEOF
      with Cons.prems(2) l' False show ?thesis by (auto simp: b)
    next
      case BatchFailed
      with Cons.prems(2) l' show ?thesis by (simp add: b)
    qed
  qed
qed

definition entries_sorted :: "file_entry list \<Rightarrow> bool" where
  "entries_sorted es \<longleftrightarrow>
     (\<forall>i j. i < j \<longrightarrow> j < length es \<longrightarrow>
        (feDir (es ! i) \<and> \<not> feDir (es ! j)) \<or> (feDir (es ! i) = feDir (es ! j) \<and> feName (es ! i) \<le> feName (es ! j)))"

lemma sort_entries_parts:
  "sort_entries es = filter feDir (sort_key feName es) @ filter (\<lambda>e. \<not> feDir e) (sort_key feName es)"
proof -
  have "sort_key (\<lambda>e. if feDir e then 0 else 1 :: nat) xs = filter feDir xs @ filter (\<lambda>e. \<not> feDir e) xs" for xs :: "file_entry list"
  proof (induction xs)
    case (Cons x xs)
    have d: "insort_key (\<lambda>e. if feDir e then 0 else 1 :: nat) x (as @ bs) = x # as @ bs"
      if "feDir x" for as bs :: "file_entry list"
      using that by (cases "as @ bs") simp_all
    have n: "insort_key (\<lambda>e. if feDir e then 0 else 1 :: nat) x (filter feDir ys @ filter (\<lambda>e. \<not> feDir e) zs) =
        filter feDir ys @ x # filter (\<lambda>e. \<not> feDir e) zs" if "\<not> feDir x" for ys zs
    proof (induction ys)
      case Nil
      have "filter (\<lambda>e. \<not> feDir e) zs = w # ws \<Longrightarrow> \<not> feDir w" for w ws by (metis filter_eq_ConsD)
      with that show ?case by (cases "filter (\<lambda>e. \<not> feDir e) zs") auto
    qed (use that in simp)
    show ?case using Cons d n by simp
  qed simp
  then show ?thesis by (simp add: sort_entries_def)
qed

lemma sort_entries_sorted: "entries_sorted (sort_entries es) \<and> mset (sort_entries es) = mset es"
proof
  let ?s = "sort_key feName es"
  let ?a = "filter feDir ?s" and ?b = "filter (\<lambda>e. \<not> feDir e) ?s"
  have sa: "sorted (map feName ?a)" "sorted (map feName ?b)" by (simp_all add: sorted_filter)
  have r: "sorted_wrt (\<lambda>x y. (feDir x \<and> \<not> feDir y) \<or> (feDir x = feDir y \<and> feName x \<le> feName y)) (?a @ ?b)"
    unfolding sorted_wrt_append
  proof (intro conjI ballI)
    show "sorted_wrt (\<lambda>x y. (feDir x \<and> \<not> feDir y) \<or> (feDir x = feDir y \<and> feName x \<le> feName y)) ?a"
      by (rule sorted_wrt_mono_rel [OF _ sa(1) [unfolded sorted_map]]) auto
    show "sorted_wrt (\<lambda>x y. (feDir x \<and> \<not> feDir y) \<or> (feDir x = feDir y \<and> feName x \<le> feName y)) ?b"
      by (rule sorted_wrt_mono_rel [OF _ sa(2) [unfolded sorted_map]]) auto
  qed auto
  then show "entries_sorted (sort_entries es)"
    unfolding entries_sorted_def sort_entries_parts by (auto simp only: sorted_wrt_iff_nth_less)
  show "mset (sort_entries es) = mset es" by (simp add: sort_entries_def)
qed

lemma upload_parts_spec:
  assumes "proper ts" and "upload_parts mk op (abs_path ts) ps seen cnt files = (r, files')" and "distinct seen" and "length seen = cnt"
    and "\<forall>f \<in> set files. \<exists>cs. proper cs \<and> cs \<noteq> [] \<and> f = abs_path (ts @ cs)"
  shows "(\<forall>f \<in> set files'. \<exists>cs. proper cs \<and> cs \<noteq> [] \<and> f = abs_path (ts @ cs)) \<and>
    (\<forall>n. r = Inr n \<longrightarrow> n = cnt + length ps \<and> (n \<le> MaxEntries \<or> ps = []) \<and> distinct (map (\<lambda>p. case p of Part name _ _ \<Rightarrow> name | PartError \<Rightarrow> []) ps) \<and>
       (\<forall>p \<in> set ps. \<exists>name. p = Part name True True \<and> SafeName name \<and> name \<notin> set seen))"
  using assms(2-5)
proof (induction ps arbitrary: seen cnt files)
  case (Cons p ps)
  show ?case
  proof (cases p)
    case PartError
    with Cons.prems show ?thesis by auto
  next
    case (Part name copied shut)
    show ?thesis
    proof (cases "\<not> SafeName name \<or> name \<in> set seen \<or> MaxEntries < Suc cnt")
      case True
      with Cons.prems Part show ?thesis by (auto split: if_splits)
    next
      case False
      then obtain cs where cs: "cs \<noteq> []" "proper cs" "name = join_with slash cs" by (metis safe_obtain)
      have target: "path_Join (abs_path ts) name = abs_path (ts @ cs)" using join_abs [OF assms(1) cs(2)] cs(3) by simp
      let ?t = "abs_path (ts @ cs)"
      have inside: "\<forall>f \<in> set (files @ [?t]). \<exists>cs. proper cs \<and> cs \<noteq> [] \<and> f = abs_path (ts @ cs)"
        using Cons.prems(4) cs by auto
      show ?thesis
      proof (cases "mk (path_Dir ?t) \<and> op ?t \<and> copied \<and> shut")
        case stop: False
        with Cons.prems False Part target inside show ?thesis by (auto simp: Let_def split: if_splits)
      next
        case True
        then have up: "upload_parts mk op (abs_path ts) ps (List.insert name seen) (Suc cnt) (files @ [?t]) = (r, files')"
          using Cons.prems(1) False Part target by (simp add: Let_def)
        have "length (List.insert name seen) = Suc cnt" using False Cons.prems(3) by simp
        from Cons.IH [OF up _ this inside] Cons.prems(2) False True Part show ?thesis
          by (auto simp: image_iff split: upload_part.splits) blast
      qed
    qed
  qed
qed auto

lemma part_names:
  assumes "distinct (map (\<lambda>p. case p of Part name _ _ \<Rightarrow> name | PartError \<Rightarrow> []) parts)"
    and "\<forall>p \<in> set parts. \<exists>name. p = Part name True True \<and> SafeName name"
  shows "\<exists>names. parts = map (\<lambda>x. Part x True True) names \<and> distinct names \<and> (\<forall>x \<in> set names. SafeName x)"
proof -
  let ?f = "\<lambda>p. case p of Part name _ _ \<Rightarrow> name | PartError \<Rightarrow> []"
  have "map (\<lambda>x. Part x True True) (map ?f parts) = parts"
    unfolding map_map by (rule map_idI) (use assms(2) in fastforce)
  moreover have "\<forall>x \<in> set (map ?f parts). SafeName x" using assms(2) by fastforce
  ultimately show ?thesis using assms(1) by metis
qed

lemma web_act_status:
  "fst (web_act decoded uid a) = 409 \<longleftrightarrow>
     (\<exists>q act. decoded = Some q \<and> action_of q = Some act \<and>
        (apClosed a \<or> op_running (if acAction q = ''command'' then apCommandOp a else apOp a)))"
  "fst (web_act decoded uid a) \<noteq> 202 \<Longrightarrow> snd (web_act decoded uid a) = a"
proof -
  have c: "(\<exists>d. act = RunCommand d) \<longleftrightarrow> acAction q = ''command''" if "action_of q = Some act" for q act
    using that by (auto simp: action_of_def Let_def split: if_splits)
  show "fst (web_act decoded uid a) = 409 \<longleftrightarrow>
     (\<exists>q act. decoded = Some q \<and> action_of q = Some act \<and>
        (apClosed a \<or> op_running (if acAction q = ''command'' then apCommandOp a else apOp a)))"
    using c by (auto simp: web_act_def begin_op_def beginCommand_def split: option.splits web_action.splits)
  show "fst (web_act decoded uid a) \<noteq> 202 \<Longrightarrow> snd (web_act decoded uid a) = a"
    by (simp add: web_act_def split: option.splits)
qed

lemma web_act_step: "snd (web_act decoded uid a) = a \<or> (\<exists>t'. app_step (a, t) (snd (web_act decoded uid a), t'))"
proof (cases "\<exists>q act. decoded = Some q \<and> action_of q = Some act \<and>
      (case act of RunCommand d \<Rightarrow> beginCommand uid a | _ \<Rightarrow> begin_op (acAction q) uid a) \<noteq> None")
  case True
  then obtain q act b where q: "decoded = Some q" "action_of q = Some act"
      "(case act of RunCommand d \<Rightarrow> beginCommand uid a | _ \<Rightarrow> begin_op (acAction q) uid a) = Some b" by auto
  then have b: "snd (web_act decoded uid a) = b" by (simp add: web_act_def)
  have begun: "\<exists>t'. app_step (a, t) (b, t')" if "begin_op (acAction q) uid a = Some b" for act'
    using step_begin [OF that] by blast
  show ?thesis
  proof (cases act)
    case (RunCommand d)
    with q(3) show ?thesis unfolding b using step_command [of uid a b t] by auto
  qed (use q(3) begun in \<open>unfold b, auto\<close>)
next
  case False
  then have "snd (web_act decoded uid a) = a" by (auto simp: web_act_def split: option.splits)
  then show ?thesis by simp
qed

lemma web_effect_step: "web_effect csrf r decoded scope uid a = a \<or> (\<exists>t'. app_step (a, t) (web_effect csrf r decoded scope uid a, t'))"
  using web_act_step [of decoded uid a t] step_cancel [of a t]
  by (auto simp: web_effect_def split: sum.splits endpoint.splits option.splits)

lemma upload_result:
  assumes "upload mk op multipart (Some tmp) parts found gone uploads = (r, uploads', keep, files)"
    and "upload_parts mk op tmp parts [] 0 [] = (q, fs)"
  shows "(files = [] \<or> files = fs) \<and>
    (case r of
       Inl e \<Rightarrow> \<not> keep \<and> uploads' = uploads
     | Inr (sel, n) \<Rightarrow> q = Inr n \<and> n \<noteq> 0 \<and> keep \<and> uploads' = uploads @ [tmp] \<and> \<not> gone)"
  using assms by (cases q; cases found) (auto simp: upload_def split: if_splits)

section \<open>Properties\<close>

text \<open>C21: a request is served only when it is addressed to this machine, which for an IPv4 literal is 127.0.0.0/8,
  and comes from its own pages; every endpoint but the page, its assets and the session needs the token, and those that
  change something need a POST with the token in a header.\<close>

theorem request_guarded:
  assumes "serve csrf r = Inr ep"
  shows "local_host (request_host (rqHost r)) \<and>
    (\<forall>a b c d port. a < 256 \<and> b < 256 \<and> c < 256 \<and> d < 256 \<and> plain_part port \<and> CHR '':'' \<notin> set port \<and>
       rqHost r = JoinHostPort (dotted a b c d) port \<longrightarrow> a = 127) \<and>
    (rqOriginHost r = None \<or> rqOriginHost r = Some (Some (rqHost r))) \<and> rqFetchSite r \<noteq> ''cross-site'' \<and>
    (ep \<in> {EpState, EpLocal, EpUpload, EpCancel, EpAction, EpBrowse} \<longrightarrow> rqToken r = csrf) \<and>
    (ep = EpEvents \<longrightarrow> rqQueryToken r = csrf) \<and>
    (ep \<in> {EpUpload, EpCancel, EpAction, EpBrowse} \<longrightarrow> rqMethod r = ''POST'')"
proof -
  note s = serve_admitted [OF assms]
  have "a = 127" if "a < 256" "b < 256" "c < 256" "d < 256" "plain_part port" "CHR '':'' \<notin> set port"
    "rqHost r = JoinHostPort (dotted a b c d) port" for a b c d port
    using admit_guard(1) [OF s(1)] local_dotted [OF that(1-6)] that(7) by simp
  then have loc: "\<forall>a b c d port. a < 256 \<and> b < 256 \<and> c < 256 \<and> d < 256 \<and> plain_part port \<and> CHR '':'' \<notin> set port \<and>
       rqHost r = JoinHostPort (dotted a b c d) port \<longrightarrow> a = 127" by blast
  show ?thesis
    by (intro conjI loc admit_guard [OF s(1)] endpoint_token [OF s(1), folded s(2)] endpoint_post [of r, folded s(2)])
qed


text \<open>C24: a listing holds the first thousand entries that are no links, no files of this program and, for a remote
  browser, directories, as they come from the file system, each once, directories first and by name. It is marked
  truncated when there are a thousand of them, also when nothing is missing.\<close>

theorem listing_exact:
  assumes "listDirectory absolute is_file open_dir p rdir only = Some l" and "open_dir (lsPath l) = Some batches"
    and "items = kept_items only (batch_items batches)"
  shows "mset (lsEntries l) = mset (map (file_entry_of (lsPath l)) (take 1000 items)) \<and>
    entries_sorted (lsEntries l) \<and>
    (lsTruncated l \<longleftrightarrow> 1000 \<le> length items) \<and>
    (\<forall>e \<in> set (lsEntries l). \<not> prefix ''.gosilver-'' (feName e) \<and> fePath e = path_Join (lsPath l) (feName e) \<and> (only \<longrightarrow> feDir e)) \<and>
    (length items = 1000 \<longrightarrow> lsTruncated l \<and> mset (lsEntries l) = mset (map (file_entry_of (lsPath l)) items))"
proof -
  obtain es truncated where l: "list_batches (lsPath l) only batches [] = Some (es, truncated)"
      "lsEntries l = sort_entries es" "lsTruncated l = truncated"
    using assms(1,2) by (auto simp: listDirectory_def Let_def split: option.splits)
  have es: "es = map (file_entry_of (lsPath l)) (take 1000 items)" "truncated \<longleftrightarrow> 1000 \<le> length items"
    using list_batches_spec [OF _ l(1)] by (simp_all add: assms(3) listing_limit_def take_map)
  have "set (lsEntries l) = set es" using sort_entries_sorted [of es] l(2) by (metis set_mset_mset)
  also have "\<dots> \<subseteq> file_entry_of (lsPath l) ` set items" using es(1) set_take_subset [of 1000 items] by auto
  finally have "\<forall>e \<in> set (lsEntries l). \<not> prefix ''.gosilver-'' (feName e) \<and> fePath e = path_Join (lsPath l) (feName e) \<and> (only \<longrightarrow> feDir e)"
    unfolding assms(3) kept_items_def listed_def file_entry_of_def by auto
  with l(2,3) es sort_entries_sorted [of es] show ?thesis by (simp add: sort_entries_sorted [THEN conjunct2])
qed


section \<open>Witnesses\<close>

definition sample_request :: web_request where
  "sample_request =
     \<lparr>rqMethod = ''POST'', rqPath = ''/api/action'', rqHost = ''localhost'', rqOriginHost = None, rqFetchSite = [],
      rqToken = ''t'', rqQueryToken = []\<rparr>"

lemma sample_served: "serve ''t'' sample_request = Inr EpAction"
  by code_simp

theorem request_guarded_witness:
  "serve ''t'' sample_request = Inr EpAction \<and> rqToken sample_request = ''t'' \<and> rqMethod sample_request = ''POST''"
  using sample_served request_guarded [OF sample_served] by blast


definition sample_items :: "dir_item list" where
  "sample_items =
     [\<lparr>dtName = ''b'', dtLink = False, dtDir = False, dtSize = Some 3\<rparr>, \<lparr>dtName = ''l'', dtLink = True, dtDir = False, dtSize = Some 1\<rparr>,
      \<lparr>dtName = ''z'', dtLink = False, dtDir = True, dtSize = Some 0\<rparr>]"

theorem listing_exact_witness:
  "\<exists>l. listDirectory Some (\<lambda>x. False) (\<lambda>x. Some [(sample_items, BatchEOF)]) ''/w'' [] False = Some l \<and>
     map feName (lsEntries l) = [''z'', ''b''] \<and> \<not> lsTruncated l"
proof -
  have "map_option (\<lambda>l. map feName (lsEntries l)) (listDirectory Some (\<lambda>x. False) (\<lambda>x. Some [(sample_items, BatchEOF)]) ''/w'' [] False) =
      Some [''z'', ''b'']"
    by (simp add: Let_def listDirectory_def sample_items_def listed_def listing_limit_def sort_entries_parts filter_sort file_entry_of_def)
  then obtain l where l: "listDirectory Some (\<lambda>x. False) (\<lambda>x. Some [(sample_items, BatchEOF)]) ''/w'' [] False = Some l"
      "map feName (lsEntries l) = [''z'', ''b'']"
    by auto
  from listing_exact [OF l(1) refl refl] have "lsTruncated l \<longleftrightarrow> 1000 \<le> length (kept_items False (batch_items [(sample_items, BatchEOF)]))"
    by blast
  moreover have "length (kept_items False (batch_items [(sample_items, BatchEOF)])) = 2" by code_simp
  ultimately have "\<not> lsTruncated l" by simp
  with l show ?thesis by (intro exI [of _ l] conjI)
qed


end
