(* ===== verification/Node.thy ===== *)
theory Node
  imports Web AppTypes Library FileName
begin

text \<open>
  What is built around a session: its listener and control requests (\<^verbatim>\<open>internal/gsp_sdk/server/session.go\<close>), the
  remote calls of the client SDK (\<^verbatim>\<open>internal/gsp_sdk/client\<close>), the rest of the embeddable library
  (\<^verbatim>\<open>pkg/gosilver/gosilver.go\<close>, \<^verbatim>\<open>internal/sender\<close>), the services an application opens outside its locks
  (\<^verbatim>\<open>internal/webui\<close>) and the program's start (\<^verbatim>\<open>cmd/main.go\<close>).
\<close>

section \<open>Listeners\<close>

record node =
  ndSession :: session
  ndListening :: bool

datatype start_error = SessionClosed | SessionStarted | ListenFailed

text \<open>\<open>bound\<close> is the address \<^verbatim>\<open>net.Listen\<close> gives.\<close>

definition Session_Start :: "string option \<Rightarrow> node \<Rightarrow> start_error option \<times> node" where
  "Session_Start bound n =
     (if seDone (ndSession n) then (Some SessionClosed, n)
      else if ndListening n then (Some SessionStarted, n)
      else
        (case bound of
           None \<Rightarrow> (Some ListenFailed, n)
         | Some addr \<Rightarrow> (None, n\<lparr>ndSession := (ndSession n)\<lparr>seAddr := addr\<rparr>, ndListening := True\<rparr>)))"

text \<open>A turn of the accept loop for a socket, which it may close at once; the loop ends with the session.\<close>

definition node_accept :: "conn \<Rightarrow> node \<Rightarrow> node \<times> bool" where
  "node_accept c n = (n\<lparr>ndSession := accept_conn c (ndSession n)\<rparr>, \<not> seDone (ndSession n))"

text \<open>\<^verbatim>\<open>Stop\<close> before it waits for the handlers.\<close>

definition Session_Stop :: "node \<Rightarrow> node" where
  "Session_Stop n = (if seDone (ndSession n) then n else n\<lparr>ndSession := stop_begin (ndSession n), ndListening := False\<rparr>)"

text \<open>\<^verbatim>\<open>Port\<close>; the addresses of listeners carry port numbers.\<close>

definition Session_Port :: "session \<Rightarrow> int" where
  "Session_Port s =
     (case SplitHostPort (seAddr s) of
        None \<Rightarrow> 0
      | Some (_, p) \<Rightarrow> (case atoi p of None \<Rightarrow> 0 | Some n \<Rightarrow> n))"

text \<open>\<open>sent\<close> tells that the start message went out on a connection.\<close>

definition BroadcastStart :: "(conn \<Rightarrow> bool) \<Rightarrow> session \<Rightarrow> nat" where
  "BroadcastStart sent s = length (filter sent (broadcast_targets s))"

section \<open>Control requests and calls\<close>

text \<open>The response of a node: a value and the text of an error, empty when there is none.\<close>

record 'v control_response =
  crValue :: "'v option"
  crError :: string

definition Session_Control :: "('q \<Rightarrow> 'v option \<times> string) option \<Rightarrow> 'q \<Rightarrow> 'v control_response" where
  "Session_Control handler q =
     (case handler of
        None \<Rightarrow> \<lparr>crValue = None, crError = ''receiver control unavailable''\<rparr>
      | Some h \<Rightarrow> (case h q of (v, e) \<Rightarrow> \<lparr>crValue = v, crError = e\<rparr>))"

text \<open>The bytes written; nothing when the response cannot be encoded.\<close>

definition control_bytes :: "('v control_response \<Rightarrow> byte list option) \<Rightarrow> 'v control_response \<Rightarrow> byte list" where
  "control_bytes marshal resp = (case marshal resp of None \<Rightarrow> [] | Some p \<Rightarrow> frame TypeJSON p)"

datatype remote_error = NotMarshalled | CallFailed call_error | Remote string | BadValue

text \<open>\<open>payload_ok\<close>: the arguments can be encoded. The raw value is decoded by \<open>out\<close> when the caller wants it.\<close>

definition client_Call ::
  "bool \<Rightarrow> bool \<Rightarrow> bool \<Rightarrow> (byte list \<Rightarrow> (byte list option \<times> string) option) \<Rightarrow> (byte list option \<Rightarrow> 'a option) option \<Rightarrow> reader \<Rightarrow>
   remote_error + 'a option" where
  "client_Call payload_ok borrowed went unmarshal out rd =
     (if \<not> payload_ok then Inl NotMarshalled
      else
        (case fst (exchange borrowed went (Some unmarshal) rd) of
           Inl e \<Rightarrow> Inl (CallFailed e)
         | Inr None \<Rightarrow> Inl (CallFailed BadJSON)
         | Inr (Some (value, err)) \<Rightarrow>
             if err \<noteq> [] then Inl (Remote err)
             else
               (case out of
                  None \<Rightarrow> Inr None
                | Some f \<Rightarrow> (case f value of None \<Rightarrow> Inl BadValue | Some x \<Rightarrow> Inr (Some x)))))"

text \<open>\<^verbatim>\<open>GetNodeStatus\<close>: the answer is the other node's UUID, whether it is a sender and whether it has a file.\<close>

definition client_GetNodeStatus ::
  "bool \<Rightarrow> bool \<Rightarrow> (byte list \<Rightarrow> (string \<times> bool \<times> bool) option) \<Rightarrow> reader \<Rightarrow> call_error + string \<times> bool \<times> bool" where
  "client_GetNodeStatus borrowed went unmarshal rd =
     (case fst (exchange borrowed went (Some unmarshal) rd) of
        Inl e \<Rightarrow> Inl e
      | Inr None \<Rightarrow> Inl BadJSON
      | Inr (Some (uid, sender, has)) \<Rightarrow> if \<not> sender \<or> uid = [] then Inl NotASender else Inr (uid, sender, has))"

text \<open>Reports expect no answer; the result is the error.\<close>

definition client_Report :: "bool \<Rightarrow> bool \<Rightarrow> call_error option" where
  "client_Report borrowed went =
     (case fst (exchange borrowed went (None :: (byte list \<Rightarrow> unit option) option) []) of Inl e \<Rightarrow> Some e | Inr _ \<Rightarrow> None)"

text \<open>What becomes of a borrowed connection when the call is over.\<close>

datatype returned = ToPool | Discarded

definition borrow_finish :: "bool \<Rightarrow> returned" where
  "borrow_finish ok = (if ok then ToPool else Discarded)"

text \<open>The deadline of a borrowed connection: 20 seconds, or the context's if that is earlier.\<close>

definition ioTimeout :: time where
  "ioTimeout = 20 * second"

definition borrow_deadline :: "time \<Rightarrow> time option \<Rightarrow> time" where
  "borrow_deadline now ctx = (case ctx of None \<Rightarrow> now + ioTimeout | Some d \<Rightarrow> if d < now + ioTimeout then d else now + ioTimeout)"

text \<open>The SDK's own state: the control connection with the identity, and the zone.\<close>

definition NewGspSdk :: "string list \<Rightarrow> control_state \<times> string" where
  "NewGspSdk identity =
     (\<lparr>csConn = None, csPeerID = (if identity \<noteq> [] then hd identity else [])\<rparr>,
      if 1 < length identity then identity ! 1 else [])"

text \<open>\<^verbatim>\<open>Close\<close> gives the connections it closes besides those of the pool.\<close>

definition Sdk_Close :: "control_state \<Rightarrow> control_state \<times> conn list" where
  "Sdk_Close st = (st\<lparr>csConn := None\<rparr>, case csConn st of None \<Rightarrow> [] | Some c \<Rightarrow> [c])"

section \<open>The library\<close>

record peer_progress =
  ppUUID :: string
  ppAddr :: string
  ppOwned :: nat
  ppTotal :: nat
  ppPercentage :: rat

text \<open>The percentage is the exact quotient of the one computed in floating point.\<close>

definition Server_Snapshot :: "session option \<Rightarrow> peer_progress list" where
  "Server_Snapshot s =
     (case s of
        None \<Rightarrow> []
      | Some session \<Rightarrow>
          map (\<lambda>p. \<lparr>ppUUID = piUUID p, ppAddr = piAddr p, ppOwned = piChunks p, ppTotal = peer_info.piTotal p,
                    ppPercentage = (if 0 < peer_info.piTotal p then of_nat (piChunks p) * 100 / of_nat (peer_info.piTotal p) else 0)\<rparr>)
            (filter (\<lambda>p. \<not> piSelf p) (Snapshot session)))"

definition Server_Port :: "session option \<Rightarrow> int" where
  "Server_Port s = (case s of None \<Rightarrow> 0 | Some session \<Rightarrow> Session_Port session)"

text \<open>\<^verbatim>\<open>download\<close>, with what each of its steps gave: listening, the sender's file, registration, the directory for the
  file; \<open>runto\<close> is the download engine. The result is the error or the path written.\<close>

datatype client_error = NoListener start_error | NoFileStatus call_error | NotRegistered | NoSaveDir | DownloadFailed

definition Client_download ::
  "start_error option \<Rightarrow> call_error + file_status \<Rightarrow> bool \<Rightarrow> string option \<Rightarrow> (string \<Rightarrow> bool) \<Rightarrow> string \<Rightarrow> (string \<Rightarrow> file_status \<Rightarrow> bool) \<Rightarrow>
   client_error + string" where
  "Client_download started meta registered exe mkdir saveDir runto =
     (case started of
        Some e \<Rightarrow> Inl (NoListener e)
      | None \<Rightarrow>
          (case meta of
             Inl e \<Rightarrow> Inl (NoFileStatus e)
           | Inr m \<Rightarrow>
               if \<not> registered then Inl NotRegistered
               else
                 (case resolveSavePath exe mkdir saveDir (fsrFileName m) of
                    None \<Rightarrow> Inl NoSaveDir
                  | Some path \<Rightarrow> if runto path m then Inr path else Inl DownloadFailed)))"

text \<open>A report of the engine, as the library's caller sees it.\<close>

definition progress_percent :: "int \<Rightarrow> int \<Rightarrow> rat" where
  "progress_percent n all = (if 0 < all then of_int n * 100 / of_int all else 100)"

text \<open>\<^verbatim>\<open>sender.Run\<close>: it serves until the context ends and returns the context's error.\<close>

datatype sender_end = NotStarted server_error | ContextEnded

definition sender_Run :: "bool \<Rightarrow> bool \<Rightarrow> bool \<Rightarrow> sender_end \<times> lib_server" where
  "sender_Run open_ok main_ok start_ok =
     (case Server_Start open_ok main_ok start_ok NewServer of
        (s, Some e) \<Rightarrow> (NotStarted e, s)
      | (s, None) \<Rightarrow> (ContextEnded, Server_Stop s))"

section \<open>Browsing a receiver\<close>

text \<open>The agent's answer to a browse request with the right key: the directories of the directory it resolves to. \<open>NotListed\<close>
  stands for any error of the listing.\<close>

datatype browse_error = NotResolved agent_error | NotListed

definition agent_browse ::
  "sys \<Rightarrow> nodes \<Rightarrow> (string \<Rightarrow> string option) \<Rightarrow> (string \<Rightarrow> bool) \<Rightarrow> (string \<Rightarrow> (dir_item list \<times> batch_end) list option) \<Rightarrow>
   agent \<Rightarrow> string \<Rightarrow> (browse_error + listing) option" where
  "agent_browse w ns absolute is_file open_dir r path =
     (case agent_resolve (paths_of w ns) (agRoot r) path of
        None \<Rightarrow> None
      | Some (Inl e) \<Rightarrow> Some (Inl (NotResolved e))
      | Some (Inr d) \<Rightarrow>
          Some (case listDirectory absolute is_file open_dir d [] True of None \<Rightarrow> Inl NotListed | Some l \<Rightarrow> Inr l))"

section \<open>Services opened outside the locks\<close>

text \<open>What the functions of the application open and shut, in order.\<close>

datatype service = SvSession | SvMDNS | SvSdk | SvData | SvFile | SvContent

datatype effect = Opened service | Shut service

text \<open>\<^verbatim>\<open>ensureSender\<close> between its sections: the session started, its record published, the operation cancelled.\<close>

definition ensure_work :: "bool \<Rightarrow> bool \<Rightarrow> bool \<Rightarrow> bool \<times> effect list" where
  "ensure_work started published cancelled =
     (if \<not> started then (False, [])
      else
        (let es = Opened SvSession # (if published then [Opened SvMDNS] else [])
         in if cancelled then (False, es @ Shut SvSession # (if published then [Shut SvMDNS] else [])) else (True, es)))"

text \<open>\<^verbatim>\<open>close\<close> of a source, which retires the content but not the hub's session.\<close>

definition source_close :: "effect list" where
  "source_close = [Shut SvContent, Shut SvFile, Shut SvData]"

text \<open>\<^verbatim>\<open>startSource\<close> between its sections; \<open>ensured\<close> is what \<^verbatim>\<open>ensureSender\<close> returned, whose hub stays.\<close>

definition source_work :: "bool \<Rightarrow> bool \<Rightarrow> bool \<Rightarrow> bool \<Rightarrow> bool \<Rightarrow> bool \<times> effect list" where
  "source_work prepared opened ensured main_ok cancelled =
     (if \<not> prepared then (False, [])
      else if \<not> opened then (False, [Opened SvData, Shut SvData])
      else if \<not> ensured then (False, [Opened SvData, Opened SvFile, Shut SvFile, Shut SvData])
      else if \<not> main_ok then (False, [Opened SvData, Opened SvFile, Shut SvFile, Shut SvData])
      else if cancelled then (False, [Opened SvData, Opened SvFile, Opened SvContent] @ source_close)
      else (True, [Opened SvData, Opened SvFile, Opened SvContent]))"

text \<open>\<^verbatim>\<open>close\<close> of an agent.\<close>

definition agent_close :: "effect list" where
  "agent_close = [Shut SvSdk, Shut SvSession]"

datatype agent_start =
    StartNotFound | StartCancelled | StartBadDir | StartNoListen | StartNoStatus | StartNotRegistered | StartLate | StartDone

text \<open>\<^verbatim>\<open>startAgent\<close> between its sections. \<open>found\<close>: an address was given or discovered; \<open>early\<close> and \<open>late\<close>: the operation
  was cancelled before or after the calls. An agent is closed whole even when its session did not start.\<close>

definition agent_work :: "bool \<Rightarrow> bool \<Rightarrow> bool \<Rightarrow> bool \<Rightarrow> bool \<Rightarrow> bool \<Rightarrow> bool \<Rightarrow> agent_start \<times> effect list" where
  "agent_work found early dir_ok listens status registered late =
     (if \<not> found then (StartNotFound, [])
      else if early then (StartCancelled, [])
      else if \<not> dir_ok then (StartBadDir, [])
      else if \<not> listens then (StartNoListen, [Opened SvSession, Opened SvSdk] @ agent_close)
      else if \<not> status then (StartNoStatus, [Opened SvSession, Opened SvSdk] @ agent_close)
      else if \<not> registered then (StartNotRegistered, [Opened SvSession, Opened SvSdk] @ agent_close)
      else if late then (StartLate, [Opened SvSession, Opened SvSdk] @ agent_close)
      else (StartDone, [Opened SvSession, Opened SvSdk]))"

definition held :: "effect list \<Rightarrow> service list" where
  "held es = foldl (\<lambda>h e. case e of Opened s \<Rightarrow> h @ [s] | Shut s \<Rightarrow> remove1 s h) [] es"

section \<open>The program\<close>

datatype main_result = BadWebAddr | NotLoopback | BadConfig | NoWebListener | Served app

text \<open>\<^verbatim>\<open>run\<close> up to serving: \<open>listens\<close> tells that the address could be bound.\<close>

definition main_run :: "(string \<Rightarrow> string option) \<Rightarrow> string option \<Rightarrow> bool \<Rightarrow> string \<Rightarrow> config \<Rightarrow> main_result" where
  "main_run absolute getwd listens uiAddr c =
     (case SplitHostPort uiAddr of
        None \<Rightarrow> BadWebAddr
      | Some (host, _) \<Rightarrow>
          if host \<noteq> ''localhost'' \<and> (case ParseIP host of None \<Rightarrow> True | Some ip \<Rightarrow> \<not> ip_loopback ip) then NotLoopback
          else
            (case New absolute getwd c of
               None \<Rightarrow> BadConfig
             | Some a \<Rightarrow> if listens then Served a else NoWebListener))"

section \<open>Calls from end to end\<close>

lemma decode_json:
  assumes "length p < 2 ^ 32"
  shows "fst (decode_bounded limit (frame TypeJSON p)) =
    (if limit < word_of_nat (length p) then Inl (FrameExceeds limit) else Inr (packet_of (TypeJSON, p)))"
  using frame_of_append [of "packet_of (TypeJSON, p)" "[]"] read_full_append [of p "length p" "[]"] header_fields [of TypeJSON p] assms
  by (simp add: decode_bounded_def frame_packet packet_of_def read_full_append unat_length_payload Let_def)

lemma limit_less: "n < 2 ^ 32 \<Longrightarrow> frame_limit < word_of_nat n \<longleftrightarrow> 4194304 < n"
  by (simp add: frame_limit_def word_less_nat_alt unat_of_nat)

lemma exchange_frame:
  assumes "length p < 2 ^ 32"
  shows "fst (exchange True True (Some f) (frame TypeJSON p)) =
    (if 4194304 < length p then Inl (BadFrame (FrameExceeds frame_limit))
     else (case f p of None \<Rightarrow> Inl BadJSON | Some x \<Rightarrow> Inr (Some x)))"
  using assms by (auto simp: exchange_def decode_json limit_less packet_of_def split: option.splits)

lemma call_control:
  assumes "marshal resp = Some bs" and "length bs < 2 ^ 32" and "unmarshal bs = Some (raw, crError resp)"
  shows "client_Call True True True unmarshal out (control_bytes marshal resp) =
    (if 4194304 < length bs then Inl (CallFailed (BadFrame (FrameExceeds frame_limit)))
     else if crError resp \<noteq> [] then Inl (Remote (crError resp))
     else (case out of None \<Rightarrow> Inr None | Some f \<Rightarrow> (case f raw of None \<Rightarrow> Inl BadValue | Some x \<Rightarrow> Inr (Some x))))"
  using assms by (simp add: client_Call_def control_bytes_def exchange_frame)

text \<open>The agent as the handler of its session's control requests; \<open>err_text\<close> are the texts of its errors.\<close>

definition agent_response :: "(agent_error \<Rightarrow> string) \<Rightarrow> control_reply \<Rightarrow> control_reply option \<times> string" where
  "agent_response err_text reply = (case reply of Refused e \<Rightarrow> (None, err_text e) | _ \<Rightarrow> (Some reply, []))"

lemma control_start:
  assumes "control w ns meta new_id token (ReqStart spec) r = Some (reply, r')"
  shows "(\<exists>e. reply = Refused e \<and> r' = r) \<or>
    (reply = TaskReply (agTask r') \<and> token = agToken r \<and> tsID (agTask r') = spID spec \<and> tsStatus (agTask r') \<in> {TRunning, TSeeding} \<and>
     (r' \<noteq> r \<longrightarrow> validateSpec spec = Some None \<and> meta = Some (spMeta spec) \<and> \<not> task_running r \<and> \<not> agStopped r))"
proof (cases "token = agToken r")
  case True
  show ?thesis
  proof (cases "start_look True spec r")
    case (Same t)
    then have "t = agTask r" "tsID t = spID spec" "tsStatus t \<in> {TRunning, TSeeding}"
      by (auto simp: start_look_def split: if_splits)
    with Same True assms show ?thesis by (auto simp: control_def)
  next
    case IsBusy
    with True assms show ?thesis by (auto simp: control_def)
  next
    case Go
    obtain x where x: "start_checks w ns meta r spec = Some x" using assms True Go by (auto simp: control_def split: option.splits)
    show ?thesis
    proof (cases x)
      case (Inl e)
      with x Go True assms show ?thesis by (auto simp: control_def)
    next
      case (Inr p)
      have c: "validateSpec spec = Some None \<and> meta = Some (spMeta spec)"
        using x Inr by (auto simp: start_checks_def split: option.splits sum.splits if_splits)
      show ?thesis
      proof (cases "launch ''download'' (spID spec) r")
        case (Inl e)
        with x Inr Go True assms show ?thesis by (auto simp: control_def)
      next
        case l: (Inr r1)
        then have "r' = r1" "reply = TaskReply (agTask r1)" using x Inr Go True assms by (auto simp: control_def)
        with l c True show ?thesis by (auto simp: launch_def task_running_def split: if_splits)
      qed
    qed
  qed
qed (use assms in \<open>auto simp: control_def\<close>)

section \<open>Properties\<close>


text \<open>A peer other than the session itself never owns more chunks than there are.\<close>

lemma owned_le_total:
  assumes "reg_inv s" and "uid \<noteq> seUUID s" and "mget (sePeerOwners s) uid = Some owned"
  shows "length owned \<le> length (seChunkOwners s)"
proof -
  have d: "distinct owned" "wf_map (seChunkOwners s)"
    using assms(1,3) by (auto simp: reg_inv_def maps_ok_def mset_of_def dest: spec [where x = uid])
  have "set owned \<subseteq> fst ` set (seChunkOwners s)"
  proof
    fix i
    assume "i \<in> set owned"
    then have "i \<in> set (mset_of (sePeerOwners s) uid)" using assms(3) by (simp add: mset_of_def)
    then have "uid \<in> set (mset_of (seChunkOwners s) i)" using assms(1,2) by (auto simp: reg_inv_def owners_ok_def)
    then have "mget (seChunkOwners s) i \<noteq> None" by (cases "mget (seChunkOwners s) i") (simp_all add: mset_of_def)
    then show "i \<in> fst ` set (seChunkOwners s)" by (simp add: map_of_eq_None_iff)
  qed
  then have "card (set owned) \<le> card (fst ` set (seChunkOwners s))" by (simp add: card_mono)
  then show ?thesis using d by (metis distinct_card set_map length_map)
qed

text \<open>C17: in every reachable state of a session the library shows each receiver with at most as many chunks as there are
  and a percentage between 0 and 100, which is 100 exactly when it has every chunk of a file that is not empty; the
  session itself is never shown, and no receiver twice.\<close>

theorem snapshot_bounds:
  assumes "reachable_session s"
  shows "(\<forall>p \<in> set (Server_Snapshot (Some s)). ppOwned p \<le> ppTotal p \<and> 0 \<le> ppPercentage p \<and> ppPercentage p \<le> 100 \<and>
      (ppPercentage p = 100 \<longleftrightarrow> ppOwned p = ppTotal p \<and> 0 < ppTotal p) \<and> ppUUID p \<noteq> seUUID s) \<and>
    distinct (map ppUUID (Server_Snapshot (Some s)))"
proof -
  have inv: "reg_inv s" using assms by (rule sess.reach_inv)
  have bound: "piChunks p \<le> peer_info.piTotal p" if "p \<in> set (Snapshot s)" "\<not> piSelf p" for p
    using that owned_le_total [OF inv] by (auto simp: Snapshot_def peer_info_of_def split: option.splits)
  have ids: "piUUID p \<noteq> seUUID s" if "p \<in> set (Snapshot s)" "\<not> piSelf p" for p
    using that by (auto simp: Snapshot_def peer_info_of_def)
  have "map piUUID (Snapshot s) = map fst (sePeers s)" by (auto simp: Snapshot_def peer_info_of_def)
  then have "distinct (map piUUID (filter (\<lambda>p. \<not> piSelf p) (Snapshot s)))"
    using inv by (intro distinct_map_filter) (simp add: reg_inv_def maps_ok_def)
  moreover have "0 \<le> q \<and> q \<le> 100 \<and> (q = 100 \<longleftrightarrow> n = m \<and> 0 < m)"
    if "n \<le> m" and "q = (if 0 < m then of_nat n * 100 / of_nat m else 0)" for n m :: nat and q :: rat
    using that by (auto simp: divide_le_eq divide_eq_eq)
  ultimately show ?thesis
    using bound ids by (auto simp: Server_Snapshot_def comp_def)
qed

text \<open>What a start opens it shuts again when it fails: the sender service, a source and an agent leave nothing open
  after an error, wherever it happens, and exactly their parts after a success.\<close>

theorem start_leaks_nothing:
  "(case ensure_work started published cancelled of
      (ok, es) \<Rightarrow> held es = (if ok then SvSession # (if published then [SvMDNS] else []) else [])) \<and>
   (case source_work prepared opened ensured main_ok cancelled of
      (ok, es) \<Rightarrow> held es = (if ok then [SvData, SvFile, SvContent] else []) \<and> held (es @ source_close) = []) \<and>
   (case agent_work found early dir_ok listens status registered late of
      (out, es) \<Rightarrow> held es = (if out = StartDone then [SvSession, SvSdk] else []) \<and> held (es @ agent_close) = [])"
  by (simp add: ensure_work_def source_work_def agent_work_def held_def source_close_def agent_close_def)

text \<open>The web interface is served only on this machine: the program serves only when the address to bind names
  localhost or a loopback address, which for an IPv4 literal is 127.0.0.0/8, the configuration is accepted and nothing
  runs yet; then every request served is a local one, too.\<close>

theorem interface_is_local:
  assumes "main_run absolute getwd listens uiAddr c = Served a"
  shows "(\<exists>host port. SplitHostPort uiAddr = Some (host, port) \<and> local_host host) \<and>
    (\<forall>x y z u port. x < 256 \<and> y < 256 \<and> z < 256 \<and> u < 256 \<and> plain_part port \<and> CHR '':'' \<notin> set port \<and>
       uiAddr = JoinHostPort (dotted x y z u) port \<longrightarrow> x = 127) \<and>
    listens \<and> config_typed (apConfig a) \<and> app_ids a = {} \<and> \<not> apClosed a \<and>
    (\<forall>csrf r ep. serve csrf r = Inr ep \<longrightarrow> local_host (request_host (rqHost r)))"
proof -
  obtain host port where hp: "SplitHostPort uiAddr = Some (host, port)" "local_host host"
    using assms by (auto simp: main_run_def local_host_def split: option.splits prod.splits if_splits)
  have a: "New absolute getwd c = Some a" "listens"
    using assms by (auto simp: main_run_def split: option.splits prod.splits if_splits)
  have r: "request_host uiAddr = host" using hp(1) by (simp add: request_host_def)
  have dots: "x = 127" if "x < 256" "y < 256" "z < 256" "u < 256" "plain_part port" "CHR '':'' \<notin> set port"
    "uiAddr = JoinHostPort (dotted x y z u) port" for x y z u port
    using local_dotted [OF that(1-6)] hp(2) r that(7) by simp
  have "config_typed (apConfig a) \<and> app_ids a = {} \<and> \<not> apClosed a"
    using a(1) by (auto simp: New_def config_typed_def app_ids_def split: if_splits option.splits)
  moreover have "local_host (request_host (rqHost r))" if "serve csrf r = Inr ep" for csrf r ep
    using admit_guard(1) [OF serve_admitted(1) [OF that]] .
  ultimately show ?thesis using hp a(2) dots by blast
qed

text \<open>The listing is that of the directory the agent's control names.\<close>

lemma browse_is_control:
  assumes "agent_browse w ns absolute is_file open_dir r path = Some (Inr l)"
  shows "\<exists>d. control w ns meta new_id (agToken r) (ReqBrowse path) r = Some (Listing d, r) \<and>
    listDirectory absolute is_file open_dir d [] True = Some l"
  using assms by (auto simp: agent_browse_def control_def split: option.splits sum.splits)

text \<open>The other calls.\<close>

lemma status_iff_sender:
  assumes "marshal (NodeStatus s) = bs" and "length bs \<le> 4194304" and "unmarshal bs = Some (NodeStatus s)"
  shows "client_GetNodeStatus True True unmarshal (frame TypeJSON bs) =
    (if seIsMain s \<and> seUUID s \<noteq> [] then Inr (NodeStatus s) else Inl NotASender)"
proof -
  have "length bs < 2 ^ 32" using assms(2) by simp
  from exchange_frame [OF this, of unmarshal] assms show ?thesis
    by (simp add: client_GetNodeStatus_def NodeStatus_def)
qed

lemma report_outcome: "client_Report b w = (if \<not> b then Some NoConnection else if \<not> w then Some WriteFailed else None)"
  by (simp add: client_Report_def exchange_def)

lemma deadline_bound: "borrow_deadline now ctx \<le> now + ioTimeout \<and> (\<forall>d. ctx = Some d \<longrightarrow> borrow_deadline now ctx \<le> d)"
  by (auto simp: borrow_deadline_def split: option.splits)

text \<open>A session listens at most once, on one address, and never again after it was stopped.\<close>

lemma listens_once:
  assumes "Session_Start bound n = (None, n')"
  shows "ndListening n' \<and> bound = Some (seAddr (ndSession n')) \<and> Session_Start bound' n' = (Some SessionStarted, n') \<and>
    Session_Start bound' (Session_Stop n') = (Some SessionClosed, Session_Stop n') \<and> \<not> ndListening (Session_Stop n')"
  using assms by (auto simp: Session_Start_def Session_Stop_def stop_begin_def split: if_splits option.splits)

text \<open>A library download writes into its directory, whatever name the sender announces.\<close>

lemma download_inside:
  assumes "Client_download started meta registered exe mkdir saveDir runto = Inr path" and "saveDir = abs_path ds" and "proper ds"
  shows "\<exists>m. meta = Inr m \<and> path = abs_path (ds @ [SanitizeFileName (fsrFileName m)]) \<and> clean_comps path = ds @ [SanitizeFileName (fsrFileName m)]"
proof -
  obtain m where m: "meta = Inr m" "resolveSavePath exe mkdir saveDir (fsrFileName m) = Some path"
    using assms(1) by (auto simp: Client_download_def split: option.splits sum.splits if_splits)
  from save_path_inside [OF assms(2,3) m(2)] m(1) show ?thesis by blast
qed

lemma sender_run_clean: "snd (sender_Run a b c) = NewServer"
  by (simp add: sender_Run_def Server_Start_def Server_Stop_def NewServer_def Let_def)

section \<open>Witnesses\<close>

definition busy_agent :: agent where
  "busy_agent = sample_agent\<lparr>agTask := \<lparr>tsID = ''t'', tsKind = ''download'', tsStatus = TRunning, tsOutput = []\<rparr>\<rparr>"

definition busy_response :: "control_reply control_response" where
  "busy_response = Session_Control (Some (\<lambda>q. agent_response (\<lambda>e. ''refused'') (TaskReply (agTask busy_agent)))) ()"


theorem snapshot_bounds_witness:
  "map ppUUID (Server_Snapshot (Some sample_session)) = [''p''] \<and> ppPercentage (hd (Server_Snapshot (Some sample_session))) \<le> 100"
proof
  show one: "map ppUUID (Server_Snapshot (Some sample_session)) = [''p'']"
    by (simp add: Server_Snapshot_def Snapshot_def peer_info_of_def sample_session_def AddPeer_def MarkSender_def NewGspSession_def new_peer_def)
  then have "hd (Server_Snapshot (Some sample_session)) \<in> set (Server_Snapshot (Some sample_session))" by auto
  with snapshot_bounds [OF sample_session_reachable] show "ppPercentage (hd (Server_Snapshot (Some sample_session))) \<le> 100" by blast
qed

theorem interface_is_local_witness:
  "main_run Some None True ''localhost:0'' sample_config = Served sample_app \<and> config_typed (apConfig sample_app)"
proof -
  have "SplitHostPort ''localhost:0'' = Some (''localhost'', ''0'')" by code_simp
  then have s: "main_run Some None True ''localhost:0'' sample_config = Served sample_app"
    using sample_app_new by (simp add: main_run_def)
  from interface_is_local [OF s] s show ?thesis by blast
qed

end
