(* ===== verification/Swarm.thy ===== *)
theory Swarm
  imports Client Download
begin

text \<open>
  One distribution: a sender and any number of receivers, each a session with its download engine, that
  ask one another for chunks. The parts are those of the other theories: the session's methods
  (\<open>sess_step\<close>), the engine (\<open>dl_step\<close>), the handler \<open>GetChunk\<close> with its three critical sections, the bytes
  on the connection and \<open>fetch\<close>. Whom a worker asks is left open, since the hub's answer may be out of
  date when it is used; what the hub's answers are is the subject of \<open>Dispatch\<close>.
\<close>

section \<open>The state\<close>

record member =
  mbSession :: session
  mbLoad :: download

text \<open>A chunk request on its way: where it was sent (\<open>None\<close> is the sender), from whom, the session when
  \<^verbatim>\<open>HasChunk\<close> looked and the turns of \<^verbatim>\<open>AcquireUploadSlot\<close> so far.\<close>

record request =
  rqPlace :: "string option"
  rqIndex :: int
  rqFrom :: string
  rqLook :: session
  rqTurns :: "(time \<times> session) list"

record swarm =
  swHub :: session
  swMembers :: "string \<Rightarrow> member option"
  swRequests :: "request list"

definition session_at :: "string option \<Rightarrow> swarm \<Rightarrow> session option" where
  "session_at v sw = (case v of None \<Rightarrow> Some (swHub sw) | Some u \<Rightarrow> map_option mbSession (swMembers sw u))"

definition set_member :: "string \<Rightarrow> member option \<Rightarrow> swarm \<Rightarrow> swarm" where
  "set_member u nd sw = sw\<lparr>swMembers := (swMembers sw)(u := nd)\<rparr>"

definition set_session :: "string option \<Rightarrow> session \<Rightarrow> swarm \<Rightarrow> swarm" where
  "set_session v s sw =
     (case v of
        None \<Rightarrow> sw\<lparr>swHub := s\<rparr>
      | Some u \<Rightarrow> set_member u (map_option (\<lambda>nd. nd\<lparr>mbSession := s\<rparr>) (swMembers sw u)) sw)"

definition bytes_at :: "string \<Rightarrow> swarm \<Rightarrow> byte list" where
  "bytes_at u sw = (case swMembers sw u of None \<Rightarrow> [] | Some nd \<Rightarrow> snd (dlFile (mbLoad nd)))"

definition set_requests :: "request list \<Rightarrow> swarm \<Rightarrow> swarm" where
  "set_requests qs sw = sw\<lparr>swRequests := qs\<rparr>"

section \<open>The steps\<close>

text \<open>What a session does besides serving chunks does not change what it offers, as long as the
  distribution lasts.\<close>

definition same_content :: "session \<Rightarrow> session \<Rightarrow> bool" where
  "same_content s t \<longleftrightarrow>
     seChunkProvider t = seChunkProvider s \<and> seIsMain t = seIsMain s \<and> seChunkHash t = seChunkHash s \<and>
     seUploads t = seUploads s"

text \<open>A request that holds an upload slot, and the session after the handler gave the slot back.\<close>

definition holding :: "request \<Rightarrow> bool" where
  "holding q \<longleftrightarrow> HasChunk (rqIndex q) (rqLook q) \<and> acquireUpload (rqTurns q) = None"

definition slot_back :: "request \<Rightarrow> session \<Rightarrow> session" where
  "slot_back q s = (if holding q then ReleaseUploadSlot s else s)"

text \<open>What is read to answer: a receiver reads the file it is downloading; the sender reads whatever its
  file contains, which is the source as long as size, time and identity of the file did not change.\<close>

definition reads_file ::
  "byte list \<Rightarrow> string option \<Rightarrow> swarm \<Rightarrow> file_stat option \<Rightarrow> file_stat option \<Rightarrow> byte list \<Rightarrow> bool" where
  "reads_file source v sw before after data \<longleftrightarrow>
     (case v of
        None \<Rightarrow> (let ck = seChunkProvider (swHub sw) in Unchanged ck before \<and> Unchanged ck after \<longrightarrow> data = source)
      | Some u \<Rightarrow> data = bytes_at u sw)"

definition answer_bytes ::
  "(chunk_info \<Rightarrow> byte list) \<Rightarrow> request \<Rightarrow> session \<Rightarrow> byte list \<Rightarrow> file_stat option \<Rightarrow> file_stat option \<Rightarrow> byte list"
where
  "answer_bytes encode q s data before after =
     concat (map (reply_bytes encode) (GetChunk (Some (rqIndex q))
       \<lparr>crLook = rqLook q, crTurns = rqTurns q, crRead = s, crData = data, crBefore = before, crAfter = after\<rparr>))"

text \<open>The receiving side: \<^verbatim>\<open>FetchChunk\<close> and, when it succeeded, \<^verbatim>\<open>AddChunk\<close>.\<close>

definition receive :: "(byte list \<Rightarrow> chunk_info option) \<Rightarrow> reader \<Rightarrow> nat \<Rightarrow> int \<Rightarrow> member \<Rightarrow> member" where
  "receive unmarshal r w i nd =
     (case fetch True True unmarshal i r (dlFile (mbLoad nd)) of
        (Inl e, f, _) \<Rightarrow> nd\<lparr>mbLoad := (mbLoad nd)\<lparr>dlFile := f\<rparr>\<rparr>
      | (Inr (n, c), f, _) \<Rightarrow>
          nd\<lparr>mbSession := AddChunk i c (mbSession nd), mbLoad := worker_saved w i f (mbLoad nd)\<rparr>)"

text \<open>\<open>joined\<close>: \<^verbatim>\<open>RunTo\<close> begins, up to the workers; none of the node's earlier requests is on its way any
  more (what happens otherwise is \<open>unverified_chunk_served\<close>). \<open>engine\<close> is every move of the engine but a
  successful fetch, which is \<open>answered\<close>: any beginning of the answer arrives, so that a connection that
  breaks is one of the cases.\<close>

inductive swarm_step ::
  "byte list \<Rightarrow> (chunk_info \<Rightarrow> byte list) \<Rightarrow> (byte list \<Rightarrow> chunk_info option) \<Rightarrow> swarm \<Rightarrow> swarm \<Rightarrow> bool"
for source encode unmarshal where
  joined: "swMembers sw u = None \<Longrightarrow> reachable_session s \<Longrightarrow> \<not> seIsMain s \<Longrightarrow> seUploads s = 0 \<Longrightarrow>
    fsSize st = int (length source) \<Longrightarrow> ck = NewFileChunk f (Some st) \<Longrightarrow> set order = {0..<GetChunkNum ck} \<Longrightarrow>
    \<forall>q \<in> set (swRequests sw). rqPlace q \<noteq> Some u \<and> rqFrom q \<noteq> u \<Longrightarrow>
    swarm_step source encode unmarshal sw
      (set_member u (Some \<lparr>mbSession = BeSendSub f (Some st) s,
         mbLoad = dl_start (ck, truncate_to (length source) []) (GetChunkNum ck) order\<rparr>) sw)"
| left: "swarm_step source encode unmarshal sw (set_member u None sw)"
| other: "session_at v sw = Some s \<Longrightarrow> sess_step s t \<Longrightarrow> same_content s t \<Longrightarrow>
    swarm_step source encode unmarshal sw (set_session v t sw)"
| engine: "swMembers sw u = Some nd \<Longrightarrow> dl_step (\<lambda>_ _. False) (mbLoad nd) d \<Longrightarrow>
    swarm_step source encode unmarshal sw (set_member u (Some (nd\<lparr>mbLoad := d\<rparr>)) sw)"
| asked: "swMembers sw u = Some nd \<Longrightarrow> w < length (dlWorkers (mbLoad nd)) \<Longrightarrow> dlWorkers (mbLoad nd) ! w = WTry i k \<Longrightarrow>
    session_at v sw = Some s \<Longrightarrow>
    swarm_step source encode unmarshal sw
      (set_requests (\<lparr>rqPlace = v, rqIndex = i, rqFrom = u, rqLook = s, rqTurns = []\<rparr> # swRequests sw) sw)"
| turned: "q \<in> set (swRequests sw) \<Longrightarrow> session_at (rqPlace q) sw = Some s \<Longrightarrow> HasChunk (rqIndex q) (rqLook q) \<Longrightarrow>
    acquireUpload (rqTurns q) = Some SlotTimeout \<Longrightarrow>
    swarm_step source encode unmarshal sw
      (set_requests (q\<lparr>rqTurns := rqTurns q @ [(now, s)]\<rparr> # remove1 q (swRequests sw))
         (set_session (rqPlace q) (snd (acquire_turn now s)) sw))"
| answered: "q \<in> set (swRequests sw) \<Longrightarrow> session_at (rqPlace q) sw = Some s \<Longrightarrow>
    reads_file source (rqPlace q) sw before after data \<Longrightarrow>
    sw1 = set_requests (remove1 q (swRequests sw)) (set_session (rqPlace q) (slot_back q s) sw) \<Longrightarrow>
    swMembers sw1 (rqFrom q) = Some nd \<Longrightarrow> w < length (dlWorkers (mbLoad nd)) \<Longrightarrow>
    dlWorkers (mbLoad nd) ! w = WTry (rqIndex q) k \<Longrightarrow>
    swarm_step source encode unmarshal sw
      (set_member (rqFrom q)
        (Some (receive unmarshal (take n (answer_bytes encode q s data before after)) w (rqIndex q) nd)) sw1)"
| dropped: "q \<in> set (swRequests sw) \<Longrightarrow>
    swarm_step source encode unmarshal sw
      (set_requests (remove1 q (swRequests sw))
        (case session_at (rqPlace q) sw of None \<Rightarrow> sw | Some s \<Rightarrow> set_session (rqPlace q) (slot_back q s) sw))"

definition swarm_init :: "byte list \<Rightarrow> swarm \<Rightarrow> bool" where
  "swarm_init source sw \<longleftrightarrow>
     reachable_session (swHub sw) \<and> seIsMain (swHub sw) \<and> chunked_ok (seChunkProvider (swHub sw), source) \<and>
     seUploads (swHub sw) = 0 \<and> swMembers sw = (\<lambda>_. None) \<and> swRequests sw = []"

section \<open>The invariant\<close>

definition source_block :: "byte list \<Rightarrow> int \<Rightarrow> int \<Rightarrow> byte list \<Rightarrow> bool" where
  "source_block source num i bs \<longleftrightarrow> 0 \<le> i \<and> i < num \<and> bs = block source (nat i)"

definition hub_ok :: "byte list \<Rightarrow> session \<Rightarrow> bool" where
  "hub_ok source s \<longleftrightarrow> reachable_session s \<and> seIsMain s \<and> chunked_ok (seChunkProvider s, source)"

definition load_from :: "byte list \<Rightarrow> download \<Rightarrow> bool" where
  "load_from source d \<longleftrightarrow>
     (let ck = fst (dlFile d); num = GetChunkNum ck
      in chunked_ok (ck, source) \<and>
         (\<exists>f0. fst f0 = ck \<and> length (snd f0) = length source \<and> dl_inv (source_block source num) f0 num d))"

definition chunks_rel :: "byte list \<Rightarrow> (int, 32 word) gomap \<Rightarrow> int list \<Rightarrow> bool" where
  "chunks_rel source hash has \<longleftrightarrow>
     (\<forall>i. mget hash i = (if i \<in> set has then Some (ChecksumIEEE (block source (nat i))) else None))"

definition member_ok :: "byte list \<Rightarrow> member \<Rightarrow> bool" where
  "member_ok source nd \<longleftrightarrow>
     reachable_session (mbSession nd) \<and> \<not> seIsMain (mbSession nd) \<and>
     seChunkProvider (mbSession nd) = fst (dlFile (mbLoad nd)) \<and> load_from source (mbLoad nd) \<and>
     chunks_rel source (seChunkHash (mbSession nd)) (dlHas (mbLoad nd))"

text \<open>What a session offered when a request looked, it still offers.\<close>

definition offers_at_least :: "session \<Rightarrow> session \<Rightarrow> bool" where
  "offers_at_least look s \<longleftrightarrow>
     seChunkProvider look = seChunkProvider s \<and> seIsMain look = seIsMain s \<and>
     (\<forall>i. HasChunk i look \<longrightarrow> HasChunk i s)"

definition requests_ok :: "swarm \<Rightarrow> bool" where
  "requests_ok sw \<longleftrightarrow>
     (\<forall>q \<in> set (swRequests sw). \<forall>s. session_at (rqPlace q) sw = Some s \<longrightarrow> offers_at_least (rqLook q) s)"

definition slots_held :: "swarm \<Rightarrow> bool" where
  "slots_held sw \<longleftrightarrow>
     (\<forall>v s. session_at v sw = Some s \<longrightarrow>
        seUploads s = length (filter (\<lambda>q. rqPlace q = v \<and> holding q) (swRequests sw)))"

definition swarm_inv :: "byte list \<Rightarrow> swarm \<Rightarrow> bool" where
  "swarm_inv source sw \<longleftrightarrow>
     hub_ok source (swHub sw) \<and> (\<forall>u nd. swMembers sw u = Some nd \<longrightarrow> member_ok source nd) \<and>
     requests_ok sw \<and> slots_held sw"

section \<open>What each step keeps\<close>

lemma session_at_simps [simp]:
  "session_at v (set_requests qs sw) = session_at v sw"
  "session_at v (set_session v' s sw) = (if v = v' \<and> session_at v sw \<noteq> None then Some s else session_at v sw)"
  "session_at v (set_member u nd sw) = (if v = Some u then map_option mbSession nd else session_at v sw)"
  by (auto simp: session_at_def set_requests_def set_session_def set_member_def map_option.compositionality comp_def
      split: option.splits)

lemma swarm_fields [simp]:
  "swHub (set_requests qs sw) = swHub sw" "swHub (set_member u nd sw) = swHub sw"
  "swHub (set_session v s sw) = (if v = None then s else swHub sw)"
  "swMembers (set_requests qs sw) = swMembers sw" "swMembers (set_member u nd sw) = (swMembers sw)(u := nd)"
  "swRequests (set_requests qs sw) = qs" "swRequests (set_member u nd sw) = swRequests sw"
  "swRequests (set_session v s sw) = swRequests sw"
  by (auto simp: set_requests_def set_session_def set_member_def split: option.splits)

lemma members_set_session:
  "swMembers (set_session v s sw) u =
     (if v = Some u then map_option (\<lambda>nd. nd\<lparr>mbSession := s\<rparr>) (swMembers sw u) else swMembers sw u)"
  by (auto simp: set_session_def split: option.splits)

lemma acquire_append:
  "acquireUpload ts = Some SlotTimeout \<Longrightarrow> acquireUpload (ts @ [(now, s)]) =
     (case fst (acquire_turn now s) of
        SlotStopped \<Rightarrow> Some SessionStopped | SlotTaken \<Rightarrow> None | SlotRetry \<Rightarrow> Some SlotTimeout)"
  by (induction ts rule: acquireUpload.induct) (auto split: slot_result.splits)

text \<open>Sessions that offer the same.\<close>

definition offers_same :: "session \<Rightarrow> session \<Rightarrow> bool" where
  "offers_same s t \<longleftrightarrow>
     seChunkProvider t = seChunkProvider s \<and> seIsMain t = seIsMain s \<and> seChunkHash t = seChunkHash s"

lemma same_content_offers: "same_content s t \<Longrightarrow> offers_same s t"
  by (simp add: same_content_def offers_same_def)

lemma acquire_offers [simp]: "offers_same s (snd (acquire_turn now s))"
  by (simp add: acquire_turn_def offers_same_def)

lemma slot_back_offers [simp]: "offers_same s (slot_back q s)"
  by (simp add: slot_back_def ReleaseUploadSlot_def offers_same_def)

lemma offers_same_least: "offers_same s t \<Longrightarrow> offers_at_least look s \<Longrightarrow> offers_at_least look t"
  by (simp add: offers_same_def offers_at_least_def HasChunk_def)

lemma offers_least_add: "offers_at_least look s \<Longrightarrow> offers_at_least look (AddChunk i c s)"
  by (auto simp: offers_at_least_def HasChunk_def AddChunk_def gomap_simps split: if_splits)

lemma offers_least_refl [simp]: "offers_at_least s s"
  by (simp add: offers_at_least_def)

lemma hub_ok_same: "hub_ok source s \<Longrightarrow> reachable_session t \<Longrightarrow> offers_same s t \<Longrightarrow> hub_ok source t"
  by (simp add: hub_ok_def offers_same_def)

lemma member_ok_same:
  "member_ok source nd \<Longrightarrow> reachable_session t \<Longrightarrow> offers_same (mbSession nd) t \<Longrightarrow> member_ok source (nd\<lparr>mbSession := t\<rparr>)"
  by (simp add: member_ok_def offers_same_def)

lemma reach_acquire: "reachable_session s \<Longrightarrow> reachable_session (snd (acquire_turn now s))"
  by (rule reach_step) (auto intro: sess_step.acquire)

lemma reach_slot_back: "reachable_session s \<Longrightarrow> reachable_session (slot_back q s)"
  by (auto simp: slot_back_def intro: reach_step sess_step.release_slot)

text \<open>A session changes, and the requests still look at what is there.\<close>

lemma sessions_ok_set:
  assumes "hub_ok source (swHub sw)" and "\<forall>u nd. swMembers sw u = Some nd \<longrightarrow> member_ok source nd"
    and "session_at v sw = Some s" and "reachable_session s \<Longrightarrow> reachable_session t" and "offers_same s t"
  shows "hub_ok source (swHub (set_session v t sw)) \<and>
    (\<forall>u nd. swMembers (set_session v t sw) u = Some nd \<longrightarrow> member_ok source nd)"
proof (cases v)
  case None
  then have "s = swHub sw" using assms(3) by (simp add: session_at_def)
  then have "hub_ok source t"
    using assms(1,4,5) hub_ok_same [of source s t] by (simp add: hub_ok_def)
  with None assms(2) show ?thesis by (simp add: members_set_session)
next
  case (Some u)
  then obtain nd where nd: "swMembers sw u = Some nd" "s = mbSession nd"
    using assms(3) by (auto simp: session_at_def)
  then have "member_ok source (nd\<lparr>mbSession := t\<rparr>)"
    using assms(2,4,5) by (intro member_ok_same) (auto simp: member_ok_def)
  with Some nd assms(1,2) show ?thesis by (auto simp: members_set_session)
qed

lemma requests_ok_set:
  "requests_ok sw \<Longrightarrow> session_at v sw = Some s \<Longrightarrow> offers_same s t \<Longrightarrow> requests_ok (set_session v t sw)"
  by (auto simp: requests_ok_def offers_same_least)

lemma requests_ok_fewer: "requests_ok sw \<Longrightarrow> set qs \<subseteq> set (swRequests sw) \<Longrightarrow> requests_ok (set_requests qs sw)"
  by (auto simp: requests_ok_def)

lemma requests_ok_turn:
  assumes "requests_ok sw" and "q \<in> set (swRequests sw)"
  shows "requests_ok (set_requests (q\<lparr>rqTurns := ts\<rparr> # remove1 q (swRequests sw)) sw)"
  unfolding requests_ok_def
proof (intro ballI allI impI)
  fix p s
  assume "p \<in> set (swRequests (set_requests (q\<lparr>rqTurns := ts\<rparr> # remove1 q (swRequests sw)) sw))"
    and s: "session_at (rqPlace p) (set_requests (q\<lparr>rqTurns := ts\<rparr> # remove1 q (swRequests sw)) sw) = Some s"
  then have "p = q\<lparr>rqTurns := ts\<rparr> \<or> p \<in> set (swRequests sw)" by (auto dest: notin_set_remove1)
  with assms s show "offers_at_least (rqLook p) s" by (auto simp: requests_ok_def)
qed

text \<open>The slots: what a change of one request does to the number of those that hold one.\<close>

definition held_at :: "string option \<Rightarrow> request list \<Rightarrow> nat" where
  "held_at v qs = length (filter (\<lambda>q. rqPlace q = v \<and> holding q) qs)"

lemma slots_held_iff: "slots_held sw \<longleftrightarrow> (\<forall>v s. session_at v sw = Some s \<longrightarrow> seUploads s = held_at v (swRequests sw))"
  by (simp add: slots_held_def held_at_def)

lemma held_at_Cons [simp]:
  "held_at v (q # qs) = (if rqPlace q = v \<and> holding q then Suc (held_at v qs) else held_at v qs)"
  by (simp add: held_at_def)

lemma held_at_remove:
  "q \<in> set qs \<Longrightarrow> held_at v qs = held_at v (remove1 q qs) + (if rqPlace q = v \<and> holding q then 1 else 0)"
  by (induction qs) auto

lemma uploads_slot_back: "seUploads (slot_back q s) = seUploads s - (if holding q then 1 else 0)"
  by (simp add: slot_back_def ReleaseUploadSlot_def)

lemma uploads_acquire:
  "seUploads (snd (acquire_turn now s)) = seUploads s + (if fst (acquire_turn now s) = SlotTaken then 1 else 0)"
  by (simp add: acquire_turn_def)

lemma slots_released:
  assumes "slots_held sw" and "q \<in> set (swRequests sw)" and "session_at (rqPlace q) sw = Some s"
  shows "slots_held (set_requests (remove1 q (swRequests sw)) (set_session (rqPlace q) (slot_back q s) sw))"
  using assms held_at_remove [OF assms(2)] by (auto simp: slots_held_iff uploads_slot_back)

lemma slots_turned:
  assumes "slots_held sw" and "q \<in> set (swRequests sw)" and "session_at (rqPlace q) sw = Some s"
    and "HasChunk (rqIndex q) (rqLook q)" and "acquireUpload (rqTurns q) = Some SlotTimeout"
  shows "slots_held (set_requests (q\<lparr>rqTurns := rqTurns q @ [(now, s)]\<rparr> # remove1 q (swRequests sw))
      (set_session (rqPlace q) (snd (acquire_turn now s)) sw))"
proof -
  have "\<not> holding q" using assms(5) by (simp add: holding_def)
  moreover have "holding (q\<lparr>rqTurns := rqTurns q @ [(now, s)]\<rparr>) \<longleftrightarrow> fst (acquire_turn now s) = SlotTaken"
    using assms(4) acquire_append [OF assms(5)] by (auto simp: holding_def split: slot_result.splits)
  ultimately show ?thesis
    using assms(1,3) held_at_remove [OF assms(2)] by (auto simp: slots_held_iff uploads_acquire)
qed

text \<open>A node begins: what it has, it has none of.\<close>

lemma truncate_empty: "truncate_to n [] = replicate n 0"
  by (simp add: truncate_to_def)

lemma member_ok_start:
  assumes "reachable_session s" and "\<not> seIsMain s" and "fsSize st = int (length source)"
    and "ck = NewFileChunk f (Some st)" and "set order = {0..<GetChunkNum ck}" and "int (length source) \<le> 2 ^ 62"
  shows "member_ok source \<lparr>mbSession = BeSendSub f (Some st) s,
    mbLoad = dl_start (ck, truncate_to (length source) []) (GetChunkNum ck) order\<rparr>"
proof -
  let ?f = "(ck, truncate_to (length source) [])" and ?num = "GetChunkNum ck"
  have ws: "well_sized ck (length source)" using assms(3,4,6) by (simp add: well_sized_def NewFileChunk_def)
  then have ok: "chunked_ok (ck, source)" "chunked_ok ?f" by (simp_all add: chunked_ok_def truncate_empty)
  have "dl_init ?f ?num (dl_start ?f ?num order)" using ok(2) assms(5) by (auto simp: dl_init_def)
  then have "dl_inv (source_block source ?num) ?f ?num (dl_start ?f ?num order)" by (rule dl_inv_init)
  moreover have "reachable_session (BeSendSub f (Some st) s)" using assms(1) by (rule reach_step) (rule sess_step.sub)
  ultimately show ?thesis
    using assms(2,4) ok(1)
    by (auto simp: member_ok_def load_from_def Let_def chunks_rel_def BeSendSub_def dl_start_def truncate_empty
        intro!: exI [of _ "replicate (length source) 0"])
qed

lemma dl_step_mono: "dl_step good d e \<Longrightarrow> (\<And>i bs. good i bs \<Longrightarrow> good' i bs) \<Longrightarrow> dl_step good' d e"
  by (induction rule: dl_step.induct) (auto intro: dl_step.intros)

lemma quiet_step: "dl_step (\<lambda>_ _. False) d e \<Longrightarrow> dlFile e = dlFile d \<and> dlHas e = dlHas d"
  by (induction rule: dl_step.induct) (auto simp: dl_ops split: list.splits)

lemma load_from_quiet: "load_from source d \<Longrightarrow> dl_step (\<lambda>_ _. False) d e \<Longrightarrow> load_from source e"
  using quiet_step [of d e] dl_inv_step [OF dl_step_mono [of "\<lambda>_ _. False" d e]]
  by (auto simp: load_from_def Let_def)

lemma member_ok_engine:
  "member_ok source nd \<Longrightarrow> dl_step (\<lambda>_ _. False) (mbLoad nd) d \<Longrightarrow> member_ok source (nd\<lparr>mbLoad := d\<rparr>)"
  using load_from_quiet [of source "mbLoad nd" d] quiet_step [of "mbLoad nd" d] by (simp add: member_ok_def)

section \<open>What is served and what is received\<close>

definition json_ok :: "byte list \<Rightarrow> (chunk_info \<Rightarrow> byte list) \<Rightarrow> (byte list \<Rightarrow> chunk_info option) \<Rightarrow> bool" where
  "json_ok source encode unmarshal \<longleftrightarrow>
     (\<forall>x. 0 \<le> ciIndex x \<and> ChunkSize * ciIndex x < int (length source) \<longrightarrow>
        unmarshal (encode x) = Some x \<and> length (encode x) \<le> 4096)"

text \<open>The answer to a request for chunk \<open>i\<close>: an error, or the source's chunk.\<close>

definition honest_answer :: "byte list \<Rightarrow> int \<Rightarrow> reply list \<Rightarrow> bool" where
  "honest_answer source i rs \<longleftrightarrow>
     rs = [ChunkError i] \<or>
     rs = [ChunkReply i (ChecksumIEEE (block source (nat i))), ChunkData (block source (nat i))]"

lemma block_of_has:
  assumes "load_from source d" and "i \<in> set (dlHas d)"
  shows "block (snd (dlFile d)) (nat i) = block source (nat i)"
proof -
  obtain f0 where f0: "dl_inv (source_block source (GetChunkNum (fst (dlFile d)))) f0 (GetChunkNum (fst (dlFile d))) d"
    using assms(1) by (auto simp: load_from_def Let_def)
  then have ok: "chunked_ok (dlFile d)" and "\<exists>bs. source_block source (GetChunkNum (fst (dlFile d))) i bs \<and>
      rd_block (dlFile d) i = Inr bs"
    using assms(2) by (auto simp: dl_inv_def dl_content_def)
  then show ?thesis by (auto simp: source_block_def rd_block_eq)
qed

lemma load_file_ok:
  "load_from source d \<Longrightarrow> chunked_ok (dlFile d) \<and> length (snd (dlFile d)) = length source"
  by (auto simp: load_from_def Let_def dl_inv_def dl_content_def)

lemma served_by_member:
  assumes nd: "member_ok source nd" and look: "offers_at_least look (mbSession nd)"
  shows "honest_answer source i (GetChunk (Some i) \<lparr>crLook = look, crTurns = ts, crRead = mbSession nd,
      crData = snd (dlFile (mbLoad nd)), crBefore = before, crAfter = after\<rparr>)"
proof (cases "HasChunk i look")
  case True
  let ?d = "mbLoad nd"
  have d: "load_from source ?d" and p: "seChunkProvider (mbSession nd) = fst (dlFile ?d)" "\<not> seIsMain (mbSession nd)"
    using nd by (simp_all add: member_ok_def)
  have ws: "well_sized (seChunkProvider (mbSession nd)) (length (snd (dlFile ?d)))"
    using load_file_ok [OF d] unfolding p(1) chunked_ok_def by (rule conjunct1)
  have has: "HasChunk i (mbSession nd)" using True look by (simp add: offers_at_least_def)
  then have i: "0 \<le> i" "i < GetChunkNum (seChunkProvider (mbSession nd))" "i \<in> set (dlHas ?d)"
    using nd p(2) by (auto simp: HasChunk_def member_ok_def chunks_rel_def split: if_splits)
  have "SessionReadChunk (snd (dlFile ?d)) before after i (nat ChunkSize) (mbSession nd) =
      Inr (block source (nat i))"
    using read_main_block [OF ws _ i(1,2)] p(2) block_of_has [OF d i(3)] by simp
  moreover have "GetChunkSize (seChunkProvider look) = ChunkSize"
    using look ws by (simp add: offers_at_least_def GetChunkSize_def well_sized_def)
  ultimately show ?thesis using True by (simp add: GetChunk_def honest_answer_def split: option.splits)
qed (simp add: GetChunk_def honest_answer_def)

lemma served_by_hub:
  assumes hub: "hub_ok source s" and look: "offers_at_least look s"
    and data: "Unchanged (seChunkProvider s) before \<Longrightarrow> Unchanged (seChunkProvider s) after \<Longrightarrow> data = source"
  shows "honest_answer source i (GetChunk (Some i) \<lparr>crLook = look, crTurns = ts, crRead = s,
      crData = data, crBefore = before, crAfter = after\<rparr>)"
proof (cases "HasChunk i look")
  case True
  have main: "seIsMain s" and ws: "well_sized (seChunkProvider s) (length source)"
    using hub by (simp_all add: hub_ok_def chunked_ok_def)
  have has: "HasChunk i s" using True look by (simp add: offers_at_least_def)
  then have i: "0 \<le> i" "i < GetChunkNum (seChunkProvider s)" by (simp_all add: HasChunk_def split: if_splits)
  have "(\<exists>e. SessionReadChunk data before after i (nat ChunkSize) s = Inl e) \<or>
      SessionReadChunk data before after i (nat ChunkSize) s = Inr (block source (nat i))"
  proof (cases "Unchanged (seChunkProvider s) before \<and> Unchanged (seChunkProvider s) after")
    case True
    then show ?thesis using data read_main_block [of s source before "after" i] ws i by simp
  next
    case False
    then show ?thesis using main by (simp add: SessionReadChunk_def Let_def split: sum.splits)
  qed
  moreover have "GetChunkSize (seChunkProvider look) = ChunkSize"
    using look ws by (simp add: offers_at_least_def GetChunkSize_def well_sized_def)
  ultimately show ?thesis using True by (auto simp: GetChunk_def honest_answer_def split: option.splits)
qed (simp add: GetChunk_def honest_answer_def)

lemma answer_honest:
  assumes "swarm_inv source sw" and "q \<in> set (swRequests sw)" and "session_at (rqPlace q) sw = Some s"
    and "reads_file source (rqPlace q) sw before after data"
  shows "honest_answer source (rqIndex q) (GetChunk (Some (rqIndex q)) \<lparr>crLook = rqLook q, crTurns = rqTurns q,
      crRead = s, crData = data, crBefore = before, crAfter = after\<rparr>)"
proof -
  have look: "offers_at_least (rqLook q) s" using assms(1-3) by (auto simp: swarm_inv_def requests_ok_def)
  show ?thesis
  proof (cases "rqPlace q")
    case None
    then show ?thesis
      using assms(1,3,4) look
      by (intro served_by_hub) (auto simp: session_at_def swarm_inv_def reads_file_def Let_def)
  next
    case (Some u)
    then obtain nd where nd: "swMembers sw u = Some nd" "s = mbSession nd" using assms(3) by (auto simp: session_at_def)
    then have "data = snd (dlFile (mbLoad nd))" using assms(4) Some by (simp add: reads_file_def bytes_at_def)
    with nd assms(1) look show ?thesis by (simp add: swarm_inv_def served_by_member)
  qed
qed

text \<open>A worker that still wants the chunk and receives any beginning of an honest answer.\<close>

lemma received_exactly:
  assumes nd: "member_ok source nd" and w: "w < length (dlWorkers (mbLoad nd))" "dlWorkers (mbLoad nd) ! w = WTry i k"
    and json: "json_ok source encode unmarshal" and rs: "honest_answer source i rs"
  obtains (nothing) "receive unmarshal (take n (concat (map (reply_bytes encode) rs))) w i nd = nd"
      "rs = [ChunkError i] \<or> n < length (concat (map (reply_bytes encode) rs))"
  | (chunk) f where "receive unmarshal (take n (concat (map (reply_bytes encode) rs))) w i nd =
      nd\<lparr>mbSession := AddChunk i (ChecksumIEEE (block source (nat i))) (mbSession nd), mbLoad := worker_saved w i f (mbLoad nd)\<rparr>"
      "dl_step (source_block source (GetChunkNum (fst (dlFile (mbLoad nd))))) (mbLoad nd) (worker_saved w i f (mbLoad nd))"
      "fst f = fst (dlFile (mbLoad nd))" "i \<notin> set (dlHas (mbLoad nd))"
proof -
  let ?d = "mbLoad nd" and ?b = "block source (nat i)" and ?all = "concat (map (reply_bytes encode) rs)"
  let ?num = "GetChunkNum (fst (dlFile ?d))"
  have ld: "load_from source ?d" using nd by (simp add: member_ok_def)
  then have ok: "chunked_ok (dlFile ?d)" "length (snd (dlFile ?d)) = length source" using load_file_ok by blast+
  obtain f0 where inv: "dl_inv (source_block source ?num) f0 ?num ?d" using ld by (auto simp: load_from_def Let_def)
  have "i \<in> {0..<?num}"
    using inv w by (auto simp: dl_inv_def dl_range_def)
  then have i: "0 \<le> i" "i < ?num" by auto
  have new: "i \<notin> set (dlHas ?d)"
  proof -
    have "wchunk ?d w = Some i" "\<not> wsaved ?d w" using w by (simp_all add: wchunk_def wsaved_def)
    then show ?thesis using inv by (auto simp: dl_inv_def dl_claims_def claims_rel_def)
  qed
  have ws: "well_sized (fst (dlFile ?d)) (length source)" using ok by (simp add: chunked_ok_def)
  have js: "unmarshal (encode x) = Some x" "length (encode x) \<le> 4096" if "ciIndex x = i" for x
    using json that i chunk_index_valid [OF ws, of i] by (auto simp: json_ok_def)
  define f where "f = (fst (dlFile ?d), put_block (snd (dlFile ?d)) (nat i) ?b)"
  have wr: "wr_block (dlFile ?d) i ?b = Inr f"
    using wr_block_Inr [OF ok(1), of i ?b f] i ok(2) by (simp add: f_def length_block)
  have step: "dl_step (source_block source ?num) ?d (worker_saved w i f ?d)"
    using i by (intro dl_step.fetched [OF w _ wr]) (simp add: source_block_def)
  show ?thesis
  proof (cases "fst (fetch True True unmarshal i (take n ?all) (dlFile ?d))")
    case (Inl e)
    then obtain f' ok' where f': "fetch True True unmarshal i (take n ?all) (dlFile ?d) = (Inl e, f', ok')"
      by (metis prod.collapse)
    then have "receive unmarshal (take n ?all) w i nd = nd"
      using fetch_error [OF f'] by (simp add: receive_def)
    moreover have "rs = [ChunkError i] \<or> n < length ?all"
    proof (rule ccontr)
      assume not: "\<not> (rs = [ChunkError i] \<or> n < length ?all)"
      then have "rs = [ChunkReply i (ChecksumIEEE ?b), ChunkData ?b]" using rs by (simp add: honest_answer_def)
      moreover have "take n ?all = ?all" using not by simp
      ultimately show False using f' fetch_data [of unmarshal encode _ i ?b, OF js refl _ wr] by (simp add: length_block)
    qed
    ultimately show ?thesis by (rule nothing)
  next
    case (Inr x)
    then obtain f' ok' where f': "fetch True True unmarshal i (take n ?all) (dlFile ?d) = (Inr x, f', ok')"
      by (metis prod.collapse)
    from fetch_more [OF f', of "drop n ?all"]
    have full: "fetch True True unmarshal i ?all (dlFile ?d) = (Inr x, f', ok')" by simp
    have "rs \<noteq> [ChunkError i]" using full fetch_refused [of unmarshal encode _ i "dlFile ?d", OF js refl] by auto
    then have "rs = [ChunkReply i (ChecksumIEEE ?b), ChunkData ?b]" using rs by (simp add: honest_answer_def)
    then have "x = (length ?b, ChecksumIEEE ?b)" "f' = f"
      using full fetch_data [of unmarshal encode _ i ?b, OF js refl _ wr] by (simp_all add: length_block)
    with f' have "receive unmarshal (take n ?all) w i nd =
        nd\<lparr>mbSession := AddChunk i (ChecksumIEEE ?b) (mbSession nd), mbLoad := worker_saved w i f ?d\<rparr>"
      by (simp add: receive_def)
    from chunk [OF this step _ new] show ?thesis by (simp add: f_def)
  qed
qed

lemma worker_saved_fields [simp]:
  "dlFile (worker_saved w i f d) = f" "dlHas (worker_saved w i f d) = List.insert i (dlHas d)"
  by (simp_all add: worker_saved_def)

lemma member_ok_receive:
  assumes nd: "member_ok source nd" and w: "w < length (dlWorkers (mbLoad nd))" "dlWorkers (mbLoad nd) ! w = WTry i k"
    and json: "json_ok source encode unmarshal" and rs: "honest_answer source i rs"
    and nd': "nd' = receive unmarshal (take n (concat (map (reply_bytes encode) rs))) w i nd"
  shows "member_ok source nd' \<and> (\<forall>look. offers_at_least look (mbSession nd) \<longrightarrow> offers_at_least look (mbSession nd')) \<and>
    seUploads (mbSession nd') = seUploads (mbSession nd)"
proof (rule received_exactly [OF nd w json rs, of n])
  assume "receive unmarshal (take n (concat (map (reply_bytes encode) rs))) w i nd = nd"
  with nd nd' show ?thesis by simp
next
  fix f
  let ?d = "worker_saved w i f (mbLoad nd)" and ?s = "AddChunk i (ChecksumIEEE (block source (nat i))) (mbSession nd)"
  assume eq: "receive unmarshal (take n (concat (map (reply_bytes encode) rs))) w i nd =
      nd\<lparr>mbSession := ?s, mbLoad := ?d\<rparr>"
    and step: "dl_step (source_block source (GetChunkNum (fst (dlFile (mbLoad nd))))) (mbLoad nd) ?d"
    and f: "fst f = fst (dlFile (mbLoad nd))" and new: "i \<notin> set (dlHas (mbLoad nd))"
  have "load_from source ?d"
    using nd f dl_inv_step [OF step] by (auto simp: member_ok_def load_from_def Let_def)
  moreover have "reachable_session ?s"
    using nd by (auto simp: member_ok_def intro: reach_step sess_step.add_chunk)
  moreover have "chunks_rel source (seChunkHash ?s) (dlHas ?d)"
    using nd new by (auto simp: member_ok_def chunks_rel_def AddChunk_def gomap_simps)
  moreover have "seChunkProvider ?s = seChunkProvider (mbSession nd)" "seIsMain ?s = seIsMain (mbSession nd)"
      "seUploads ?s = seUploads (mbSession nd)"
    by (simp_all add: AddChunk_def)
  ultimately show ?thesis using nd f nd' eq by (simp add: member_ok_def offers_least_add)
qed

lemma swarm_inv_init: "swarm_init source sw \<Longrightarrow> swarm_inv source sw"
  by (auto simp: swarm_init_def swarm_inv_def hub_ok_def requests_ok_def slots_held_def session_at_def split: option.splits)

lemma swarm_invI:
  assumes "hub_ok source (swHub sw)" and "\<And>u nd. swMembers sw u = Some nd \<Longrightarrow> member_ok source nd"
    and "requests_ok sw" and "slots_held sw"
  shows "swarm_inv source sw"
  using assms by (simp add: swarm_inv_def)

text \<open>A session moves on and a request goes, or stays with one more turn.\<close>

lemma swarm_inv_session:
  assumes inv: "swarm_inv source sw" and v: "session_at v sw = Some s" and reach: "reachable_session s \<Longrightarrow> reachable_session t"
    and same: "offers_same s t"
  shows "hub_ok source (swHub (set_session v t sw)) \<and>
    (\<forall>u nd. swMembers (set_session v t sw) u = Some nd \<longrightarrow> member_ok source nd) \<and> requests_ok (set_session v t sw)"
  using sessions_ok_set [OF _ _ v reach same, of source] requests_ok_set [OF _ v same] inv
  by (simp add: swarm_inv_def)

lemma swarm_inv_finish:
  assumes inv: "swarm_inv source sw" and q: "q \<in> set (swRequests sw)" and s: "session_at (rqPlace q) sw = Some s"
  shows "swarm_inv source (set_requests (remove1 q (swRequests sw)) (set_session (rqPlace q) (slot_back q s) sw))"
proof -
  note set = swarm_inv_session [OF inv s reach_slot_back slot_back_offers, of q]
  have "requests_ok (set_requests (remove1 q (swRequests sw)) (set_session (rqPlace q) (slot_back q s) sw))"
    using set by (intro requests_ok_fewer) (simp_all add: set_remove1_subset)
  moreover have "slots_held (set_requests (remove1 q (swRequests sw)) (set_session (rqPlace q) (slot_back q s) sw))"
    using inv q s by (intro slots_released) (simp_all add: swarm_inv_def)
  ultimately show ?thesis using set by (intro swarm_invI) auto
qed

lemma swarm_inv_member:
  assumes inv: "swarm_inv source sw" and u: "swMembers sw u = Some nd" and ok: "member_ok source nd'"
    and look: "\<And>look. offers_at_least look (mbSession nd) \<Longrightarrow> offers_at_least look (mbSession nd')"
    and up: "seUploads (mbSession nd') = seUploads (mbSession nd)"
  shows "swarm_inv source (set_member u (Some nd') sw)"
proof (rule swarm_invI)
  have at: "session_at (Some u) sw = Some (mbSession nd)" using u by (simp add: session_at_def)
  show "requests_ok (set_member u (Some nd') sw)"
    using inv at look by (auto simp: swarm_inv_def requests_ok_def)
  show "slots_held (set_member u (Some nd') sw)"
    using inv at up by (auto simp: swarm_inv_def slots_held_iff)
qed (use inv ok in \<open>auto simp: swarm_inv_def split: if_splits\<close>)

lemma remove_request: "q \<notin> set qs \<Longrightarrow> remove1 q qs = qs"
  by (rule remove1_idem)

lemma swarm_inv_step:
  assumes json: "json_ok source encode unmarshal" and step: "swarm_step source encode unmarshal sw sw'"
    and inv: "swarm_inv source sw"
  shows "swarm_inv source sw'"
  using step
proof cases
  case (joined u s st ck f order)
  have size: "int (length source) \<le> 2 ^ 62"
    using inv by (simp add: swarm_inv_def hub_ok_def chunked_ok_def well_sized_def)
  note ok = member_ok_start [OF joined(3,4,6,7,8) size]
  show ?thesis
    unfolding joined(1)
  proof (rule swarm_invI, goal_cases)
    case (2 v nd)
    then show ?case using inv ok by (auto simp: swarm_inv_def split: if_splits)
  next
    case 3
    then show ?case using inv joined(9) by (auto simp: swarm_inv_def requests_ok_def)
  next
    case 4
    have "held_at (Some u) (swRequests sw) = 0" using joined(9) by (simp add: held_at_def filter_empty_conv)
    then show ?case using inv joined(5) by (auto simp: swarm_inv_def slots_held_iff BeSendSub_def)
  qed (use inv in \<open>simp add: swarm_inv_def\<close>)
next
  case (left u)
  then show ?thesis using inv
    by (auto simp: swarm_inv_def requests_ok_def slots_held_def intro!: swarm_invI split: if_splits)
next
  case (other v s t)
  have reach: "reachable_session t" if "reachable_session s" using that other(3) by (rule reach_step)
  note set = swarm_inv_session [OF inv other(2) reach same_content_offers [OF other(4)]]
  have "slots_held sw'"
    using inv other by (auto simp: swarm_inv_def slots_held_iff same_content_def)
  with set show ?thesis unfolding other(1) by (intro swarm_invI) auto
next
  case (engine u nd d)
  show ?thesis
    unfolding engine(1)
    by (rule swarm_inv_member [OF inv engine(2) member_ok_engine [OF _ engine(3)]])
      (use inv engine in \<open>auto simp: swarm_inv_def\<close>)
next
  case (asked u nd w i k v s)
  have "\<not> holding \<lparr>rqPlace = v, rqIndex = i, rqFrom = u, rqLook = s, rqTurns = []\<rparr>" by (simp add: holding_def)
  then show ?thesis
    using inv asked(5) unfolding asked(1)
    by (intro swarm_invI) (auto simp: swarm_inv_def requests_ok_def slots_held_iff)
next
  case (turned q s now)
  note set = swarm_inv_session [OF inv turned(3) reach_acquire acquire_offers, of now]
  have "requests_ok sw'"
    using requests_ok_turn [OF conjunct2 [OF conjunct2 [OF set]], of q] turned(2) unfolding turned(1) by simp
  moreover have "slots_held sw'"
    unfolding turned(1) using inv turned(2-5) by (intro slots_turned) (simp_all add: swarm_inv_def)
  ultimately show ?thesis using set unfolding turned(1) by (intro swarm_invI) auto
next
  case (answered q s before "after" data sw1 nd w k n)
  have inv1: "swarm_inv source sw1" unfolding answered(5) by (rule swarm_inv_finish [OF inv answered(2,3)])
  then have nd: "member_ok source nd" using answered(6) by (simp add: swarm_inv_def)
  note rec = member_ok_receive [OF nd answered(7,8) json answer_honest [OF inv answered(2-4)] refl, of n]
  show ?thesis
    unfolding answered(1) answer_bytes_def
    by (rule swarm_inv_member [OF inv1 answered(6)]) (use rec in auto)
next
  case (dropped q)
  show ?thesis
  proof (cases "session_at (rqPlace q) sw")
    case None
    have "slots_held (set_requests (remove1 q (swRequests sw)) sw)"
      using inv None held_at_remove [OF dropped(2)] by (auto simp: swarm_inv_def slots_held_iff)
    moreover have "requests_ok (set_requests (remove1 q (swRequests sw)) sw)"
      using inv by (intro requests_ok_fewer) (simp_all add: swarm_inv_def set_remove1_subset)
    ultimately show ?thesis using None inv unfolding dropped(1) by (simp add: swarm_inv_def)
  next
    case (Some s)
    then show ?thesis using swarm_inv_finish [OF inv dropped(2) Some] unfolding dropped(1) by simp
  qed
qed

interpretation swarm: invariant_system "swarm_init source" "swarm_step source encode unmarshal"
  "\<lambda>sw. json_ok source encode unmarshal \<longrightarrow> swarm_inv source sw" for source encode unmarshal
  by unfold_locales (simp_all add: swarm_inv_init, blast intro: swarm_inv_step)

section \<open>What follows\<close>

lemma load_joined:
  assumes "load_from source d" and "dl_joined d" and "\<not> dlCancelled d"
  shows "snd (dlFile d) = source"
proof -
  let ?ck = "fst (dlFile d)"
  obtain f0 where f0: "fst f0 = ?ck" "length (snd f0) = length source" and ok: "chunked_ok (?ck, source)"
    and inv: "dl_inv (source_block source (GetChunkNum ?ck)) f0 (GetChunkNum ?ck) d"
    using assms(1) by (auto simp: load_from_def Let_def)
  have "dlFile d = (fst f0, source)"
  proof (rule dl_copy [OF inv assms(2,3)])
    show "rd_block (fst f0, source) i = Inr bs" if "source_block source (GetChunkNum ?ck) i bs" for i bs
      using that ok f0(1) by (simp add: source_block_def rd_block_eq)
  qed (use ok f0 in simp_all)
  then show ?thesis by simp
qed

text \<open>The sender, with a free slot and its file as it was, serves any chunk of any receiver.\<close>

lemma hub_serves:
  assumes inv: "swarm_inv source sw" and json: "json_ok source encode unmarshal"
    and free: "fst (acquire_turn now (swHub sw)) = SlotTaken"
    and u: "swMembers sw u = Some nd" and w: "w < length (dlWorkers (mbLoad nd))" "dlWorkers (mbLoad nd) ! w = WTry i k"
  shows "\<exists>nd' f. (swarm_step source encode unmarshal)\<^sup>*\<^sup>* sw (set_member u (Some nd') sw) \<and>
    mbLoad nd' = worker_saved w i f (mbLoad nd) \<and>
    dl_step (source_block source (GetChunkNum (fst (dlFile (mbLoad nd))))) (mbLoad nd) (mbLoad nd')"
proof -
  let ?S = "swarm_step source encode unmarshal"
  let ?s = "swHub sw" and ?b = "block source (nat i)"
  let ?q0 = "\<lparr>rqPlace = None, rqIndex = i, rqFrom = u, rqLook = ?s, rqTurns = []\<rparr>"
  let ?q1 = "?q0\<lparr>rqTurns := [(now, ?s)]\<rparr>" and ?s1 = "snd (acquire_turn now ?s)"
  let ?sw1 = "set_requests (?q0 # swRequests sw) sw"
  let ?sw2 = "set_requests (?q1 # swRequests sw) (set_session None ?s1 ?sw1)"
  have hub: "seIsMain ?s" "chunked_ok (seChunkProvider ?s, source)" using inv by (simp_all add: swarm_inv_def hub_ok_def)
  then have ws: "well_sized (seChunkProvider ?s) (length source)" by (simp add: chunked_ok_def)
  have nd: "member_ok source nd" using inv u by (simp add: swarm_inv_def)
  have range: "0 \<le> i" "i < GetChunkNum (seChunkProvider ?s)"
  proof -
    obtain f0 where "dl_range (GetChunkNum (fst (dlFile (mbLoad nd)))) (mbLoad nd)"
      and "well_sized (fst (dlFile (mbLoad nd))) (length source)"
      using nd by (auto simp: member_ok_def load_from_def Let_def dl_inv_def chunked_ok_def)
    then have "i \<in> {0..<GetChunkNum (seChunkProvider ?s)}"
      using w chunk_num_eq [OF ws] chunk_num_eq [of "fst (dlFile (mbLoad nd))"] by (auto simp: dl_range_def)
    then show "0 \<le> i" "i < GetChunkNum (seChunkProvider ?s)" by auto
  qed
  then have has: "HasChunk i ?s" using hub(1) well_sized_stat [OF ws] by (auto simp: HasChunk_def)
  have turn: "acquireUpload [(now, ?s)] = None" using free by simp
  have s1: "seChunkProvider ?s1 = seChunkProvider ?s" "seIsMain ?s1" "ReleaseUploadSlot ?s1 = ?s"
    using free hub(1) by (auto simp: acquire_turn_def ReleaseUploadSlot_def split: if_splits)
  obtain st where st: "fcStat (seChunkProvider ?s) = Some st" using well_sized_stat [OF ws] by blast
  then have same: "Unchanged (seChunkProvider ?s) (Some st)" by (simp add: Unchanged_def)
  have "SessionReadChunk source (Some st) (Some st) i (nat ChunkSize) ?s1 = Inr ?b"
    using read_main_block [of ?s1 source "Some st" "Some st" i] s1 ws same range by simp
  moreover have "GetChunkSize (seChunkProvider ?s) = ChunkSize" using ws by (simp add: GetChunkSize_def well_sized_def)
  ultimately have answer: "GetChunk (Some i) \<lparr>crLook = ?s, crTurns = [(now, ?s)], crRead = ?s1, crData = source,
      crBefore = Some st, crAfter = Some st\<rparr> = [ChunkReply i (ChecksumIEEE ?b), ChunkData ?b]" (is "_ = ?rs")
    using has turn by (simp add: GetChunk_def)
  let ?bytes = "concat (map (reply_bytes encode) ?rs)"
  let ?nd' = "receive unmarshal (take (length ?bytes) ?bytes) w i nd"
  have 1: "?S sw ?sw1" using swarm_step.asked [OF u w, of None ?s] by (simp add: session_at_def)
  have 2: "?S ?sw1 ?sw2"
    using swarm_step.turned [of ?q0 ?sw1 ?s source encode unmarshal now] has by (simp add: session_at_def)
  have undo: "set_requests (remove1 ?q1 (swRequests ?sw2)) (set_session None (slot_back ?q1 ?s1) ?sw2) = sw"
    using has turn s1(3) by (simp add: slot_back_def holding_def set_requests_def set_session_def)
  have "?S ?sw2 (set_member (rqFrom ?q1) (Some (receive unmarshal
      (take (length ?bytes) (answer_bytes encode ?q1 ?s1 source (Some st) (Some st))) w (rqIndex ?q1) nd)) sw)"
  proof (rule swarm_step.answered)
    show "session_at (rqPlace ?q1) ?sw2 = Some ?s1" by (simp add: session_at_def)
    show "reads_file source (rqPlace ?q1) ?sw2 (Some st) (Some st) source" by (simp add: reads_file_def)
    show "sw = set_requests (remove1 ?q1 (swRequests ?sw2)) (set_session (rqPlace ?q1) (slot_back ?q1 ?s1) ?sw2)"
      using undo by simp
    show "dlWorkers (mbLoad nd) ! w = WTry (rqIndex ?q1) k" using w by simp
  qed (use u w in simp_all)
  then have 3: "?S ?sw2 (set_member u (Some ?nd') sw)" using answer by (simp add: answer_bytes_def)
  from 1 2 3 have run: "?S\<^sup>*\<^sup>* sw (set_member u (Some ?nd') sw)" by (meson converse_rtranclp_into_rtranclp rtranclp.rtrancl_refl)
  have honest: "honest_answer source i ?rs" by (simp add: honest_answer_def)
  show ?thesis
  proof (rule received_exactly [OF nd w json honest, of "length ?bytes"])
    fix f
    assume eq: "?nd' = nd\<lparr>mbSession := AddChunk i (ChecksumIEEE ?b) (mbSession nd), mbLoad := worker_saved w i f (mbLoad nd)\<rparr>"
      and st: "dl_step (source_block source (GetChunkNum (fst (dlFile (mbLoad nd))))) (mbLoad nd) (worker_saved w i f (mbLoad nd))"
    have load: "mbLoad ?nd' = worker_saved w i f (mbLoad nd)" unfolding eq by simp
    with run st show ?thesis by (intro exI [of _ ?nd'] exI [of _ f]) simp
  qed auto
qed

lemma saved_measure:
  assumes "w < length (dlWorkers d)" and "dlWorkers d ! w = WTry i k"
  shows "dl_measure (worker_saved w i f d) < dl_measure d"
  using weight_update [OF assms(1), of "WSaved i"] assms
  by (simp add: dl_measure_def worker_saved_def worker_weight_def)

lemma member_parts:
  assumes "member_ok source nd"
  shows "dl_feeder (mbLoad nd)" and "dlRemaining (mbLoad nd) \<noteq> [] \<Longrightarrow> dlWorkers (mbLoad nd) \<noteq> []"
proof -
  obtain f0 count where "dl_inv (source_block source count) f0 count (mbLoad nd)"
    using assms by (auto simp: member_ok_def load_from_def Let_def)
  then have r: "dl_range count (mbLoad nd)" and fd: "dl_feeder (mbLoad nd)" by (simp_all add: dl_inv_def)
  show "dl_feeder (mbLoad nd)" by (rule fd)
  show "dlWorkers (mbLoad nd) \<noteq> []" if "dlRemaining (mbLoad nd) \<noteq> []" using workers_remain [OF r that] .
qed

text \<open>One move towards the end of \<open>u\<close>'s download, the sender serving what is fetched.\<close>

lemma swarm_progress:
  assumes inv: "swarm_inv source sw" and json: "json_ok source encode unmarshal"
    and free: "fst (acquire_turn now (swHub sw)) = SlotTaken"
    and u: "swMembers sw u = Some nd" and no: "\<not> dl_joined (mbLoad nd)" and live: "\<not> dlCancelled (mbLoad nd)"
  shows "\<exists>nd'. (swarm_step source encode unmarshal)\<^sup>*\<^sup>* sw (set_member u (Some nd') sw) \<and>
    dl_measure (mbLoad nd') < dl_measure (mbLoad nd) \<and> \<not> dlCancelled (mbLoad nd')"
proof -
  have nd: "member_ok source nd" using inv u by (simp add: swarm_inv_def)
  consider w i k where "w < length (dlWorkers (mbLoad nd))" "dlWorkers (mbLoad nd) ! w = WTry i k"
    | d where "dl_step (\<lambda>_ _. False) (mbLoad nd) d" "dl_measure d < dl_measure (mbLoad nd)"
        "dlCancelled d = dlCancelled (mbLoad nd)"
    using move_or_try [OF member_parts [OF nd] no] by blast
  then show ?thesis
  proof cases
    case (1 w i k)
    from hub_serves [OF inv json free u 1] obtain nd' f
      where "(swarm_step source encode unmarshal)\<^sup>*\<^sup>* sw (set_member u (Some nd') sw)"
        and load: "mbLoad nd' = worker_saved w i f (mbLoad nd)" by blast
    then show ?thesis using saved_measure [OF 1, of f] live by (intro exI [of _ nd']) (simp add: worker_saved_def)
  next
    case (2 d)
    have "swarm_step source encode unmarshal sw (set_member u (Some (nd\<lparr>mbLoad := d\<rparr>)) sw)"
      using u 2(1) by (rule swarm_step.engine)
    then show ?thesis using 2 live by (intro exI [of _ "nd\<lparr>mbLoad := d\<rparr>"]) auto
  qed
qed

lemma swarm_finishes:
  assumes "swarm_inv source sw" and json: "json_ok source encode unmarshal"
    and "fst (acquire_turn now (swHub sw)) = SlotTaken"
    and "swMembers sw u = Some nd" and "\<not> dlCancelled (mbLoad nd)"
  shows "\<exists>sw' nd'. (swarm_step source encode unmarshal)\<^sup>*\<^sup>* sw sw' \<and> swMembers sw' u = Some nd' \<and>
    dl_joined (mbLoad nd') \<and> \<not> dlCancelled (mbLoad nd')"
  using assms(1,3-)
proof (induction "dl_measure (mbLoad nd)" arbitrary: sw nd rule: less_induct)
  case less
  show ?case
  proof (cases "dl_joined (mbLoad nd)")
    case True
    with less.prems show ?thesis by blast
  next
    case False
    from swarm_progress [OF less.prems(1) json less.prems(2,3) False less.prems(4)] obtain nd'
      where run: "(swarm_step source encode unmarshal)\<^sup>*\<^sup>* sw (set_member u (Some nd') sw)"
        and nd': "dl_measure (mbLoad nd') < dl_measure (mbLoad nd)" "\<not> dlCancelled (mbLoad nd')" by blast
    have "swarm_inv source (set_member u (Some nd') sw)"
      using swarm.run_inv [OF run] json less.prems(1) by blast
    from less.hyps [OF nd'(1) this _ _ nd'(2)] less.prems(2) obtain sw' nd''
      where "(swarm_step source encode unmarshal)\<^sup>*\<^sup>* (set_member u (Some nd') sw) sw'" "swMembers sw' u = Some nd''"
        "dl_joined (mbLoad nd'')" "\<not> dlCancelled (mbLoad nd'')" by auto
    with run show ?thesis by (meson rtranclp_trans)
  qed
qed

section \<open>Properties\<close>

text \<open>C1: whatever the nodes of a distribution do and in whatever order, the source spreads and nothing
  else does. Every chunk a receiver offers is the source's chunk, recorded with its checksum; every
  answer on its way is an error or the source's chunk; a receiver whose workers have left without being
  cancelled holds the source file; and at each node the slots in use are those of the requests it is
  serving, at most eight.\<close>

theorem swarm_sound:
  assumes "reachable (swarm_init source) (swarm_step source encode unmarshal) sw" and "json_ok source encode unmarshal"
  shows "(\<forall>u nd. swMembers sw u = Some nd \<longrightarrow>
      (\<forall>i. HasChunk i (mbSession nd) \<longrightarrow> block (bytes_at u sw) (nat i) = block source (nat i) \<and>
         mget (seChunkHash (mbSession nd)) i = Some (ChecksumIEEE (block source (nat i)))) \<and>
      (dl_joined (mbLoad nd) \<and> \<not> dlCancelled (mbLoad nd) \<longrightarrow> bytes_at u sw = source)) \<and>
    (\<forall>q \<in> set (swRequests sw). \<forall>s before after data. session_at (rqPlace q) sw = Some s \<longrightarrow>
       reads_file source (rqPlace q) sw before after data \<longrightarrow>
       honest_answer source (rqIndex q) (GetChunk (Some (rqIndex q)) \<lparr>crLook = rqLook q, crTurns = rqTurns q,
         crRead = s, crData = data, crBefore = before, crAfter = after\<rparr>)) \<and>
    (\<forall>v s. session_at v sw = Some s \<longrightarrow>
       seUploads s = length (filter (\<lambda>q. rqPlace q = v \<and> holding q) (swRequests sw)) \<and> seUploads s \<le> 8)"
proof (intro conjI allI impI ballI)
  have inv: "swarm_inv source sw" using swarm.reach_inv [OF assms(1)] assms(2) by blast
  {
    fix u nd
    assume u: "swMembers sw u = Some nd"
    then have nd: "member_ok source nd" using inv by (simp add: swarm_inv_def)
    then have load: "load_from source (mbLoad nd)" by (simp add: member_ok_def)
    have bytes: "bytes_at u sw = snd (dlFile (mbLoad nd))" using u by (simp add: bytes_at_def)
    {
      fix i
      assume "HasChunk i (mbSession nd)"
      then have "mget (seChunkHash (mbSession nd)) i \<noteq> None"
        using nd by (auto simp: HasChunk_def member_ok_def split: if_splits)
      moreover have rel: "mget (seChunkHash (mbSession nd)) i =
          (if i \<in> set (dlHas (mbLoad nd)) then Some (ChecksumIEEE (block source (nat i))) else None)"
        using nd by (simp add: member_ok_def chunks_rel_def)
      ultimately have has: "i \<in> set (dlHas (mbLoad nd))" by (simp split: if_splits)
      then show "mget (seChunkHash (mbSession nd)) i = Some (ChecksumIEEE (block source (nat i)))" using rel by simp
      show "block (bytes_at u sw) (nat i) = block source (nat i)"
        unfolding bytes by (rule block_of_has [OF load has])
    }
    assume "dl_joined (mbLoad nd) \<and> \<not> dlCancelled (mbLoad nd)"
    then show "bytes_at u sw = source" unfolding bytes by (auto intro: load_joined [OF load])
  next
    fix q s before "after" data
    assume "q \<in> set (swRequests sw)" "session_at (rqPlace q) sw = Some s" "reads_file source (rqPlace q) sw before after data"
    then show "honest_answer source (rqIndex q) (GetChunk (Some (rqIndex q)) \<lparr>crLook = rqLook q, crTurns = rqTurns q,
        crRead = s, crData = data, crBefore = before, crAfter = after\<rparr>)"
      by (rule answer_honest [OF inv])
  next
    fix v s
    assume s: "session_at v sw = Some s"
    then show "seUploads s = length (filter (\<lambda>q. rqPlace q = v \<and> holding q) (swRequests sw))"
      using inv by (simp add: swarm_inv_def slots_held_def)
    have "reachable_session s"
      using inv s by (cases v) (auto simp: session_at_def swarm_inv_def hub_ok_def member_ok_def)
    then have "slots_ok s" using sess.reach_inv by (auto simp: reg_inv_def)
    then show "seUploads s \<le> 8" by (simp add: slots_ok_def upload_cap_def)
  }
qed

text \<open>A distribution for the witnesses: a sender with a file of two bytes and one receiver that has just begun.\<close>

definition sample_file_stat :: file_stat where
  "sample_file_stat = \<lparr>fsName = ''f'', fsSize = 2, fsModTime = 0, fsIdent = 1, fsRegular = True\<rparr>"

definition sample_hub :: session where
  "sample_hub = MarkSender (BeSendSub 4 (Some sample_file_stat) (NewGspSession '':0'' ''hub''))"

definition sample_begin :: swarm where
  "sample_begin = \<lparr>swHub = sample_hub, swMembers = (\<lambda>_. None), swRequests = []\<rparr>"

definition sample_swarm :: swarm where
  "sample_swarm =
     set_member ''r'' (Some \<lparr>mbSession = BeSendSub 5 (Some sample_file_stat) (NewGspSession '':0'' ''r''),
       mbLoad = dl_start (NewFileChunk 5 (Some sample_file_stat), truncate_to 2 []) 1 [0]\<rparr>) sample_begin"

lemma sample_geometry:
  "well_sized (NewFileChunk n (Some sample_file_stat)) 2" "GetChunkNum (NewFileChunk n (Some sample_file_stat)) = 1"
proof -
  show ws: "well_sized (NewFileChunk n (Some sample_file_stat)) 2"
    by (simp add: well_sized_def NewFileChunk_def sample_file_stat_def)
  show "GetChunkNum (NewFileChunk n (Some sample_file_stat)) = 1"
    using chunk_num_eq [OF ws] by (simp add: ChunkSize_num)
qed

lemma new_session_reachable: "reachable_session (NewGspSession addr uuid)"
  by (rule reach_init) (auto simp: sess_init_def)

lemma sample_hub_reachable: "reachable_session sample_hub"
  unfolding sample_hub_def
  by (rule reach_step [OF reach_step [OF new_session_reachable sess_step.sub] sess_step.mark])

lemma sample_json: "json_ok [7, 9] sample_encode sample_unmarshal"
  unfolding json_ok_def
proof (intro allI impI)
  fix x :: chunk_info
  assume "0 \<le> ciIndex x \<and> ChunkSize * ciIndex x < int (length [7, 9 :: byte])"
  then have "ciIndex x = 0" by (simp add: ChunkSize_num)
  then show "sample_unmarshal (sample_encode x) = Some x \<and> length (sample_encode x) \<le> 4096"
    by (simp add: sample_unmarshal_def sample_encode_def get_put_uint32)
qed

lemma sample_hub_fields:
  "seChunkProvider sample_hub = NewFileChunk 4 (Some sample_file_stat)" "seIsMain sample_hub" "seUploads sample_hub = 0"
  "fst (acquire_turn 0 sample_hub) = SlotTaken"
  by (simp_all add: sample_hub_def MarkSender_def BeSendSub_def NewGspSession_def acquire_turn_def
      upload_limit_now_def upload_cap_def)

lemma sample_swarm_reachable:
  "reachable (swarm_init [7, 9]) (swarm_step [7, 9] sample_encode sample_unmarshal) sample_swarm"
proof -
  have "swarm_init [7, 9] sample_begin"
    using sample_hub_reachable sample_hub_fields sample_geometry(1) [of 4]
    by (simp add: swarm_init_def sample_begin_def chunked_ok_def numeral_2_eq_2)
  then have start: "reachable (swarm_init [7, 9]) (swarm_step [7, 9] sample_encode sample_unmarshal) sample_begin"
    by (rule reach_init)
  have "swarm_step [7, 9] sample_encode sample_unmarshal sample_begin
      (set_member ''r'' (Some \<lparr>mbSession = BeSendSub 5 (Some sample_file_stat) (NewGspSession '':0'' ''r''),
        mbLoad = dl_start (NewFileChunk 5 (Some sample_file_stat), truncate_to (length [7, 9 :: byte]) [])
          (GetChunkNum (NewFileChunk 5 (Some sample_file_stat))) [0]\<rparr>) sample_begin)"
  proof (rule swarm_step.joined)
    show "fsSize sample_file_stat = int (length [7, 9 :: byte])" by (simp add: sample_file_stat_def)
    show "\<not> seIsMain (NewGspSession '':0'' ''r'')" "seUploads (NewGspSession '':0'' ''r'') = 0"
      by (simp_all add: NewGspSession_def)
  qed (auto simp: sample_begin_def sample_geometry new_session_reachable)
  then have "swarm_step [7, 9] sample_encode sample_unmarshal sample_begin sample_swarm"
    by (simp add: sample_swarm_def sample_geometry numeral_2_eq_2)
  with start show ?thesis by (rule reach_step)
qed

theorem swarm_sound_witness: "seUploads (mbSession (the (swMembers sample_swarm ''r''))) \<le> 8"
proof -
  have "session_at (Some ''r'') sample_swarm = Some (mbSession (the (swMembers sample_swarm ''r'')))"
    by (simp add: session_at_def sample_swarm_def)
  then show ?thesis using swarm_sound [OF sample_swarm_reachable sample_json] by blast
qed

text \<open>C2: every receiver can get the file. From every reachable state in which its download is not cancelled
  and the sender has a free upload slot, the distribution can go on so that its workers leave with the
  whole source file, whatever the other receivers did before.\<close>

theorem swarm_completes:
  assumes "reachable (swarm_init source) (swarm_step source encode unmarshal) sw" and "json_ok source encode unmarshal"
    and "fst (acquire_turn now (swHub sw)) = SlotTaken"
    and "swMembers sw u = Some nd" and "\<not> dlCancelled (mbLoad nd)"
  shows "\<exists>sw' nd'. (swarm_step source encode unmarshal)\<^sup>*\<^sup>* sw sw' \<and> swMembers sw' u = Some nd' \<and>
    dl_joined (mbLoad nd') \<and> \<not> dlCancelled (mbLoad nd') \<and> bytes_at u sw' = source"
proof -
  have inv: "swarm_inv source sw" using swarm.reach_inv [OF assms(1)] assms(2) by blast
  from swarm_finishes [OF this assms(2-5)] obtain sw' nd'
    where run: "(swarm_step source encode unmarshal)\<^sup>*\<^sup>* sw sw'" and nd': "swMembers sw' u = Some nd'"
      "dl_joined (mbLoad nd')" "\<not> dlCancelled (mbLoad nd')" by blast
  have "swarm_inv source sw'" using swarm.run_inv [OF run] inv assms(2) by blast
  then have "load_from source (mbLoad nd')" using nd'(1) by (simp add: swarm_inv_def member_ok_def)
  then have "bytes_at u sw' = source" using load_joined nd' by (simp add: bytes_at_def)
  with run nd' show ?thesis by blast
qed

theorem swarm_completes_witness:
  "\<exists>sw. (swarm_step [7, 9] sample_encode sample_unmarshal)\<^sup>*\<^sup>* sample_swarm sw \<and> bytes_at ''r'' sw = [7, 9]"
proof -
  have "fst (acquire_turn 0 (swHub sample_swarm)) = SlotTaken"
    by (simp add: sample_swarm_def sample_begin_def sample_hub_fields)
  moreover have "swMembers sample_swarm ''r'' = Some (the (swMembers sample_swarm ''r''))"
    "\<not> dlCancelled (mbLoad (the (swMembers sample_swarm ''r'')))"
    by (simp_all add: sample_swarm_def dl_start_def)
  ultimately show ?thesis using swarm_completes [OF sample_swarm_reachable sample_json] by blast
qed

end
