(* ===== verification/Attempt.thy ===== *)
theory Attempt
  imports Client Download
begin

text \<open>
  How a worker gets one chunk (\<^verbatim>\<open>internal/receiver/download.go\<close>, inside the loop over \<^verbatim>\<open>jobs\<close>): up to three
  attempts, each asking the sender for sources and trying them in order, with the sender as the last
  resort. What the worker reports, announces and waits for is a list of events. \<open>Download\<close> has each attempt
  as one step; \<open>attempts_refine\<close> shows that the loops written out here do take those steps.
\<close>

section \<open>Sources\<close>

type_synonym supplier = "string \<times> string"

text \<open>The candidates of an answer, the sender appended when it is not among them; \<open>addr\<close> is the sender.\<close>

definition is_central :: "string \<Rightarrow> supplier \<Rightarrow> bool" where
  "is_central addr c \<longleftrightarrow> fst c = [] \<or> fst c = addr"

definition chunk_candidates :: "string \<Rightarrow> want_resp \<Rightarrow> supplier list" where
  "chunk_candidates addr loc =
     (let cs = (if rsSources loc = [] then [(rsAddr loc, rsUUID loc)] else rsSources loc)
      in if list_ex (is_central addr) cs then cs else cs @ [([], [])])"

definition provider_of :: "string \<Rightarrow> supplier \<Rightarrow> string" where
  "provider_of addr c = (if fst c = [] then addr else fst c)"

section \<open>One attempt\<close>

datatype event =
    Trying string
  | ReportFailed string
  | ReportOwn
  | ReportDone string
  | Waiting nat

datatype attempt_end =
    CtxGone
  | Fetched nat "32 word" string
  | AttemptFailed call_error

text \<open>What the environment does in one attempt: whether the context still lives when the attempt begins,
  before each candidate and while waiting afterwards, what \<^verbatim>\<open>WantChunk\<close> answers, and what each connection
  gives (obtained, request written, bytes).\<close>

record attempt_env =
  aeLive :: bool
  aeWant :: "call_error + want_resp"
  aeLiveAt :: "nat \<Rightarrow> bool"
  aeConn :: "nat \<Rightarrow> bool \<times> bool \<times> reader"
  aeWoken :: bool

definition fetch_from ::
  "(byte list \<Rightarrow> chunk_info option) \<Rightarrow> int \<Rightarrow> bool \<times> bool \<times> reader \<Rightarrow> chunked \<Rightarrow> (call_error + nat \<times> 32 word) \<times> chunked"
where
  "fetch_from unmarshal i cn f =
     (case cn of (borrowed, written, r) \<Rightarrow>
        (case fetch borrowed written unmarshal i r f of (res, f', _) \<Rightarrow> (res, f')))"

text \<open>The loop over the candidates; \<open>j\<close> counts them and \<open>err\<close> is the error so far.\<close>

fun try_candidates ::
  "(byte list \<Rightarrow> chunk_info option) \<Rightarrow> string \<Rightarrow> int \<Rightarrow> attempt_env \<Rightarrow> nat \<Rightarrow> supplier list \<Rightarrow> call_error option \<Rightarrow>
   chunked \<Rightarrow> attempt_end \<times> chunked \<times> event list" where
  "try_candidates unmarshal addr i env j [] err f =
     ((case err of None \<Rightarrow> Fetched 0 0 [] | Some e \<Rightarrow> AttemptFailed e), f, [])"
| "try_candidates unmarshal addr i env j (c # cs) err f =
     (if \<not> aeLiveAt env j then (CtxGone, f, [])
      else
        (case fetch_from unmarshal i (aeConn env j) f of
           (Inr (n, crc), f') \<Rightarrow> (Fetched n crc (snd c), f', [Trying (provider_of addr c)])
         | (Inl e, f') \<Rightarrow>
             (case try_candidates unmarshal addr i env (Suc j) cs (Some e) f' of
                (res, g, evs) \<Rightarrow> (res, g, Trying (provider_of addr c) # ReportFailed (snd c) # evs))))"

definition attempt ::
  "(byte list \<Rightarrow> chunk_info option) \<Rightarrow> string \<Rightarrow> int \<Rightarrow> attempt_env \<Rightarrow> chunked \<Rightarrow> attempt_end \<times> chunked \<times> event list" where
  "attempt unmarshal addr i env f =
     (if \<not> aeLive env then (CtxGone, f, [])
      else
        (case aeWant env of
           Inl e \<Rightarrow> (AttemptFailed e, f, [])
         | Inr loc \<Rightarrow>
             (case try_candidates unmarshal addr i env 0 (chunk_candidates addr loc) None f of
                (Fetched n crc u, f', evs) \<Rightarrow> (Fetched n crc u, f', evs @ [ReportOwn, ReportDone u])
              | r \<Rightarrow> r)))"

section \<open>All attempts at a chunk\<close>

definition backoff_ms :: "nat \<Rightarrow> nat" where
  "backoff_ms k = (k + 1) * 200"

text \<open>\<open>envs k\<close> is the environment of attempt \<open>k\<close>; \<open>left\<close> the attempts that remain.\<close>

fun attempts ::
  "(byte list \<Rightarrow> chunk_info option) \<Rightarrow> string \<Rightarrow> int \<Rightarrow> (nat \<Rightarrow> attempt_env) \<Rightarrow> nat \<Rightarrow> chunked \<Rightarrow>
   attempt_end \<times> chunked \<times> event list" where
  "attempts unmarshal addr i envs left f =
     (let k = max_attempts - left
      in case attempt unmarshal addr i (envs k) f of
           (AttemptFailed e, f', evs) \<Rightarrow>
             (case left of
                0 \<Rightarrow> (AttemptFailed e, f', evs)
              | Suc 0 \<Rightarrow> (AttemptFailed e, f', evs)
              | Suc (Suc rest) \<Rightarrow>
                  (if \<not> aeWoken (envs k) then (CtxGone, f', evs @ [Waiting (backoff_ms k)])
                   else (case attempts unmarshal addr i envs (Suc rest) f' of
                           (res, g, evs') \<Rightarrow> (res, g, evs @ Waiting (backoff_ms k) # evs'))))
         | r \<Rightarrow> r)"

definition fetch_chunk ::
  "(byte list \<Rightarrow> chunk_info option) \<Rightarrow> string \<Rightarrow> int \<Rightarrow> (nat \<Rightarrow> attempt_env) \<Rightarrow> chunked \<Rightarrow>
   attempt_end \<times> chunked \<times> event list" where
  "fetch_chunk unmarshal addr i envs f = attempts unmarshal addr i envs max_attempts f"

section \<open>Progress\<close>

text \<open>\<^verbatim>\<open>emitLocked\<close>: the chunks being fetched with their providers, by index. \<^verbatim>\<open>active\<close> is a map, visited in
  any order.\<close>

record progress =
  pgActive :: "(int \<times> string) list"
  pgTotal :: int
  pgDone :: int
  pgBytes :: int
  pgFinished :: bool

definition emitLocked :: "(int, string) gomap \<Rightarrow> int \<Rightarrow> int \<Rightarrow> int \<Rightarrow> progress" where
  "emitLocked active chunks saved received =
     \<lparr>pgActive = sort_key fst active, pgTotal = chunks, pgDone = saved, pgBytes = received, pgFinished = False\<rparr>"

section \<open>Lemmas\<close>

lemma candidates_nonempty_central: "\<exists>c \<in> set (chunk_candidates addr loc). provider_of addr c = addr"
proof (cases "list_ex (is_central addr) (if rsSources loc = [] then [(rsAddr loc, rsUUID loc)] else rsSources loc)")
  case True
  then obtain c where "c \<in> set (chunk_candidates addr loc)" "is_central addr c"
    by (auto simp: chunk_candidates_def Let_def list_ex_iff)
  then show ?thesis by (auto simp: is_central_def provider_of_def)
next
  case False
  then show ?thesis by (auto simp: chunk_candidates_def Let_def provider_of_def)
qed

lemma fetch_from_error: "fetch_from unmarshal i cn f = (Inl e, f') \<Longrightarrow> f' = f"
  by (cases cn) (auto simp: fetch_from_def dest: fetch_error split: prod.splits)

lemma fetch_from_result:
  "fetch_from unmarshal i cn f = (Inr (n, crc), f') \<Longrightarrow>
     \<exists>bs. wr_block f i bs = Inr f' \<and> n = length bs \<and> crc = ChecksumIEEE bs"
  by (cases cn) (auto simp: fetch_from_def dest: fetch_result split: prod.splits)

text \<open>A live pass over the candidates: the errors before the first success, if there is one.\<close>

definition outcome_at ::
  "(byte list \<Rightarrow> chunk_info option) \<Rightarrow> int \<Rightarrow> attempt_env \<Rightarrow> chunked \<Rightarrow> nat \<Rightarrow> call_error + nat \<times> 32 word" where
  "outcome_at unmarshal i env f j = fst (fetch_from unmarshal i (aeConn env j) f)"

definition failed_events :: "string \<Rightarrow> supplier list \<Rightarrow> event list" where
  "failed_events addr cs = concat (map (\<lambda>c. [Trying (provider_of addr c), ReportFailed (snd c)]) cs)"

lemma try_all_fail:
  assumes "\<forall>k < length cs. aeLiveAt env (j + k)"
    and "\<forall>k < length cs. \<exists>e. outcome_at unmarshal i env f (j + k) = Inl e" and "cs \<noteq> [] \<or> err = Some e0"
  shows "\<exists>e. try_candidates unmarshal addr i env j cs err f = (AttemptFailed e, f, failed_events addr cs) \<and>
    (cs \<noteq> [] \<longrightarrow> outcome_at unmarshal i env f (j + length cs - 1) = Inl e)"
  using assms
proof (induction cs arbitrary: j err e0)
  case (Cons c cs)
  then obtain e where e: "outcome_at unmarshal i env f j = Inl e" by (auto dest: spec [of _ 0])
  then have ff: "fetch_from unmarshal i (aeConn env j) f = (Inl e, f)"
    using fetch_from_error [of unmarshal i "aeConn env j" f e] by (simp add: outcome_at_def) (metis prod.collapse)
  have live: "aeLiveAt env j" using Cons.prems(1) by (auto dest: spec [of _ 0])
  have "\<exists>e'. try_candidates unmarshal addr i env (Suc j) cs (Some e) f = (AttemptFailed e', f, failed_events addr cs) \<and>
    (cs \<noteq> [] \<longrightarrow> outcome_at unmarshal i env f (Suc j + length cs - 1) = Inl e')"
    using Cons.prems(1,2) by (intro Cons.IH) (auto dest: spec [of _ "Suc _"])
  then obtain e' where e': "try_candidates unmarshal addr i env (Suc j) cs (Some e) f = (AttemptFailed e', f, failed_events addr cs)"
    "cs \<noteq> [] \<longrightarrow> outcome_at unmarshal i env f (Suc j + length cs - 1) = Inl e'" by blast
  then show ?case using e live ff by (cases "cs = []") (auto simp: failed_events_def)
qed (auto simp: failed_events_def)

lemma try_first_success:
  assumes "m < length cs" and "\<forall>k \<le> m. aeLiveAt env (j + k)"
    and "\<forall>k < m. \<exists>e. outcome_at unmarshal i env f (j + k) = Inl e"
    and "fetch_from unmarshal i (aeConn env (j + m)) f = (Inr (n, crc), f')"
  shows "try_candidates unmarshal addr i env j cs err f =
    (Fetched n crc (snd (cs ! m)), f', failed_events addr (take m cs) @ [Trying (provider_of addr (cs ! m))])"
  using assms
proof (induction m arbitrary: j cs err)
  case 0
  then show ?case by (cases cs) (auto simp: failed_events_def)
next
  case (Suc m)
  then obtain c cs' where cs: "cs = c # cs'" by (cases cs) auto
  obtain e where e: "outcome_at unmarshal i env f j = Inl e" using Suc.prems(3) by (auto dest: spec [of _ 0])
  then have ff: "fetch_from unmarshal i (aeConn env j) f = (Inl e, f)"
    using fetch_from_error [of unmarshal i "aeConn env j" f e] by (simp add: outcome_at_def) (metis prod.collapse)
  have "try_candidates unmarshal addr i env (Suc j) cs' (Some e) f =
      (Fetched n crc (snd (cs' ! m)), f', failed_events addr (take m cs') @ [Trying (provider_of addr (cs' ! m))])"
    using Suc.prems cs by (intro Suc.IH) (auto dest: spec [of _ "Suc _"])
  moreover have "aeLiveAt env j" using Suc.prems(2) by (auto dest: spec [of _ 0])
  ultimately show ?case using cs ff by (simp add: failed_events_def)
qed

declare attempts.simps [simp del]

text \<open>How an attempt can end, cancelled or not.\<close>

definition end_ok ::
  "(byte list \<Rightarrow> chunk_info option) \<Rightarrow> int \<Rightarrow> attempt_env \<Rightarrow> chunked \<Rightarrow> attempt_end \<Rightarrow> chunked \<Rightarrow> bool" where
  "end_ok unmarshal i env f res f' \<longleftrightarrow>
     (case res of
        CtxGone \<Rightarrow> f' = f \<and> (\<not> aeLive env \<or> (\<exists>j. \<not> aeLiveAt env j))
      | Fetched n crc u \<Rightarrow> (\<exists>j. fetch_from unmarshal i (aeConn env j) f = (Inr (n, crc), f'))
      | AttemptFailed e \<Rightarrow> f' = f)"

lemma try_end:
  "try_candidates unmarshal addr i env j cs err f = (res, f', evs) \<Longrightarrow> cs \<noteq> [] \<or> err \<noteq> None \<Longrightarrow>
     end_ok unmarshal i env f res f'"
proof (induction cs arbitrary: j err f evs)
  case (Cons c cs)
  show ?case
  proof (cases "aeLiveAt env j")
    case True
    obtain x g where x: "fetch_from unmarshal i (aeConn env j) f = (x, g)" by (cases "fetch_from unmarshal i (aeConn env j) f")
    show ?thesis
    proof (cases x)
      case (Inl e)
      then have "g = f" using x fetch_from_error [of unmarshal i "aeConn env j" f e g] by simp
      with Cons x Inl True show ?thesis by (auto split: prod.splits)
    next
      case (Inr nc)
      with Cons.prems x True show ?thesis by (cases nc) (auto simp: end_ok_def)
    qed
  qed (use Cons.prems in \<open>auto simp: end_ok_def\<close>)
qed (auto simp: end_ok_def split: option.splits)

lemma attempt_end: "attempt unmarshal addr i env f = (res, f', evs) \<Longrightarrow> end_ok unmarshal i env f res f'"
proof (cases "aeLive env")
  case True
  assume a: "attempt unmarshal addr i env f = (res, f', evs)"
  show ?thesis
  proof (cases "aeWant env")
    case (Inr loc)
    obtain r g es where t: "try_candidates unmarshal addr i env 0 (chunk_candidates addr loc) None f = (r, g, es)"
      by (cases "try_candidates unmarshal addr i env 0 (chunk_candidates addr loc) None f")
    have "chunk_candidates addr loc \<noteq> []" using candidates_nonempty_central [of addr loc] by auto
    then have "end_ok unmarshal i env f r g" using try_end [OF t] by simp
    then show ?thesis using a True Inr t by (cases r) (auto simp: attempt_def end_ok_def)
  qed (use a True in \<open>auto simp: attempt_def end_ok_def\<close>)
qed (auto simp: attempt_def end_ok_def)

lemma attempts_over:
  "attempt unmarshal addr i (envs (max_attempts - left)) f = (r, g, es) \<Longrightarrow> (\<And>e. r \<noteq> AttemptFailed e) \<Longrightarrow>
     attempts unmarshal addr i envs left f = (r, g, es)"
  by (subst attempts.simps) (auto simp: Let_def split: attempt_end.splits)

lemma attempts_last:
  "attempt unmarshal addr i (envs (max_attempts - Suc 0)) f = (AttemptFailed e, g, es) \<Longrightarrow>
     attempts unmarshal addr i envs (Suc 0) f = (AttemptFailed e, g, es)"
  by (subst attempts.simps) (simp add: Let_def)

lemma attempts_next:
  "attempt unmarshal addr i (envs (max_attempts - Suc (Suc m))) f = (AttemptFailed e, g, es) \<Longrightarrow>
     attempts unmarshal addr i envs (Suc (Suc m)) f =
       (if \<not> aeWoken (envs (max_attempts - Suc (Suc m)))
        then (CtxGone, g, es @ [Waiting (backoff_ms (max_attempts - Suc (Suc m)))])
        else (case attempts unmarshal addr i envs (Suc m) g of
                (res, h, evs') \<Rightarrow> (res, h, es @ Waiting (backoff_ms (max_attempts - Suc (Suc m))) # evs')))"
  by (subst attempts.simps) (simp add: Let_def)

text \<open>What the steps of the engine make of an end.\<close>

definition end_refines :: "(int \<Rightarrow> byte list \<Rightarrow> bool) \<Rightarrow> nat \<Rightarrow> int \<Rightarrow> download \<Rightarrow> attempt_end \<Rightarrow> chunked \<Rightarrow> bool" where
  "end_refines good w i d res f \<longleftrightarrow>
     (case res of
        CtxGone \<Rightarrow> f = dlFile d \<and> dlCancelled d \<and> (dl_step good)\<^sup>*\<^sup>* d (set_worker w WGone d)
      | Fetched n crc u \<Rightarrow> (dl_step good)\<^sup>*\<^sup>* d (worker_saved w i f d)
      | AttemptFailed e \<Rightarrow> f = dlFile d \<and>
          (dl_step good)\<^sup>*\<^sup>* d (set_worker w WGone (d\<lparr>dlFailed := True, dlCancelled := True\<rparr>)))"

text \<open>Cancellation is seen only when there is one, and a fetch that succeeds wrote a good block.\<close>

definition env_fits ::
  "(byte list \<Rightarrow> chunk_info option) \<Rightarrow> (int \<Rightarrow> byte list \<Rightarrow> bool) \<Rightarrow> int \<Rightarrow> download \<Rightarrow> attempt_env \<Rightarrow> bool" where
  "env_fits unmarshal good i d env \<longleftrightarrow>
     (\<not> aeLive env \<or> \<not> aeWoken env \<or> (\<exists>j. \<not> aeLiveAt env j) \<longrightarrow> dlCancelled d) \<and>
     (\<forall>j n crc f. fetch_from unmarshal i (aeConn env j) (dlFile d) = (Inr (n, crc), f) \<longrightarrow>
        (\<exists>bs. good i bs \<and> wr_block (dlFile d) i bs = Inr f))"

lemma end_refines_over:
  assumes w: "w < length (dlWorkers d)" "dlWorkers d ! w = WTry i k"
    and env: "env_fits unmarshal good i d env" and a: "attempt unmarshal addr i env (dlFile d) = (r, f, es)"
    and r: "\<And>e. r \<noteq> AttemptFailed e"
  shows "end_refines good w i d r f"
proof (cases r)
  case CtxGone
  then have "dlCancelled d" "f = dlFile d" using attempt_end [OF a] env by (auto simp: end_ok_def env_fits_def)
  with CtxGone dl_step.give_up [OF _ w, of good] show ?thesis by (auto simp: end_refines_def)
next
  case (Fetched n crc u)
  then obtain j where "fetch_from unmarshal i (aeConn env j) (dlFile d) = (Inr (n, crc), f)"
    using attempt_end [OF a] by (auto simp: end_ok_def)
  then obtain bs where "good i bs" "wr_block (dlFile d) i bs = Inr f" using env unfolding env_fits_def by blast
  then have "dl_step good d (worker_saved w i f d)" by (rule dl_step.fetched [OF w])
  then show ?thesis using Fetched by (auto simp: end_refines_def)
qed (use r in simp)

lemma attempts_refine_from:
  assumes "w < length (dlWorkers d)" and "\<forall>k. env_fits unmarshal good i d (envs k)"
    and "Suc m \<le> max_attempts" and "dlWorkers d ! w = WTry i (max_attempts - Suc m)"
    and "attempts unmarshal addr i envs (Suc m) (dlFile d) = (res, f, evs)"
  shows "end_refines good w i d res f"
  using assms
proof (induction m arbitrary: d evs)
  case (0 d)
  obtain r g es where a: "attempt unmarshal addr i (envs (max_attempts - Suc 0)) (dlFile d) = (r, g, es)"
    by (cases "attempt unmarshal addr i (envs (max_attempts - Suc 0)) (dlFile d)")
  show ?case
  proof (cases "\<exists>x. r = AttemptFailed x")
    case True
    then obtain x where x: "r = AttemptFailed x" by blast
    have "dl_step good d (set_worker w WGone (d\<lparr>dlFailed := True, dlCancelled := True\<rparr>))"
      using dl_step.failed [OF 0(1) 0(4)] by (simp add: worker_failed_def max_attempts_def)
    then show ?thesis
      using 0(5) attempts_last [of unmarshal addr i envs, OF a [unfolded x]] attempt_end [OF a] x by (auto simp: end_refines_def end_ok_def)
  next
    case False
    then have "res = r" "f = g" using attempts_over [of unmarshal addr i envs, OF a] 0(5) by auto
    then show ?thesis using end_refines_over [OF 0(1) 0(4) spec [OF 0(2)] a] False by simp
  qed
next
  case (Suc m d)
  let ?k = "max_attempts - Suc (Suc m)"
  obtain r g es where a: "attempt unmarshal addr i (envs ?k) (dlFile d) = (r, g, es)"
    by (cases "attempt unmarshal addr i (envs ?k) (dlFile d)")
  show ?case
  proof (cases "\<exists>x. r = AttemptFailed x")
    case False
    then have "res = r" "f = g" using attempts_over [of unmarshal addr i envs, OF a] Suc.prems(5) by auto
    then show ?thesis using end_refines_over [OF Suc.prems(1,4) spec [OF Suc.prems(2)] a] False by simp
  next
    case True
    then obtain x where x: "r = AttemptFailed x" by blast
    have g: "g = dlFile d" using attempt_end [OF a] x by (simp add: end_ok_def)
    note next_attempt = attempts_next [of unmarshal addr i envs, OF a [unfolded x]]
    show ?thesis
    proof (cases "aeWoken (envs ?k)")
      case False
      then have "dlCancelled d" using Suc.prems(2) by (auto simp: env_fits_def)
      moreover have "res = CtxGone" "f = dlFile d" using Suc.prems(5) next_attempt False g by auto
      ultimately show ?thesis
        using dl_step.give_up [OF _ Suc.prems(1,4), of good] by (auto simp: end_refines_def)
    next
      case True
      let ?d = "set_worker w (WTry i (Suc ?k)) d"
      have k: "Suc ?k < max_attempts" "Suc ?k = max_attempts - Suc m" using Suc.prems(3) by simp_all
      have step: "dl_step good d ?d"
        using dl_step.failed [OF Suc.prems(1,4), of good] k by (simp add: worker_failed_def)
      obtain evs' where rest: "attempts unmarshal addr i envs (Suc m) (dlFile ?d) = (res, f, evs')"
        using Suc.prems(5) next_attempt True g by (auto split: prod.splits)
      have "end_refines good w i ?d res f"
        using Suc.prems k by (intro Suc.IH [OF _ _ _ _ rest]) (auto simp: env_fits_def)
      moreover have "set_worker w WGone ?d = set_worker w WGone d" "worker_saved w i f ?d = worker_saved w i f d"
        "set_worker w WGone (?d\<lparr>dlFailed := True, dlCancelled := True\<rparr>) =
           set_worker w WGone (d\<lparr>dlFailed := True, dlCancelled := True\<rparr>)"
        by (simp_all add: set_worker_def worker_saved_def)
      ultimately show ?thesis using step
        by (cases res) (auto simp: end_refines_def intro: converse_rtranclp_into_rtranclp)
    qed
  qed
qed

section \<open>Properties\<close>

text \<open>C8: what a worker does in an attempt that nobody cancels. It tries the sources in the order of the
  answer, the sender always among them; each one that fails is reported as failed, once and before the
  next is tried; the first that delivers is recorded as the provider, the chunk announced as the
  receiver's own and the transfer reported; the attempt fails only when every source failed, the
  sender too, and then the file is as it was.\<close>

theorem attempt_exact:
  assumes "aeLive env" and "aeWant env = Inr loc" and "cs = chunk_candidates addr loc"
    and live: "\<And>j. j < length cs \<Longrightarrow> aeLiveAt env j"
  shows "(\<exists>m < length cs. provider_of addr (cs ! m) = addr) \<and>
    (\<forall>m < length cs. \<forall>n crc f'.
       (\<forall>k < m. \<exists>e. outcome_at unmarshal i env f k = Inl e) \<and>
       fetch_from unmarshal i (aeConn env m) f = (Inr (n, crc), f') \<longrightarrow>
       attempt unmarshal addr i env f =
         (Fetched n crc (snd (cs ! m)), f',
          failed_events addr (take m cs) @ [Trying (provider_of addr (cs ! m)), ReportOwn, ReportDone (snd (cs ! m))])) \<and>
    ((\<forall>m < length cs. \<exists>e. outcome_at unmarshal i env f m = Inl e) \<longrightarrow>
       (\<exists>e. attempt unmarshal addr i env f = (AttemptFailed e, f, failed_events addr cs)))"
proof (intro conjI allI impI)
  have cs: "cs \<noteq> []" using candidates_nonempty_central [of addr loc] assms(3) by auto
  show "\<exists>m < length cs. provider_of addr (cs ! m) = addr"
    using candidates_nonempty_central [of addr loc] unfolding assms(3) by (metis in_set_conv_nth)
  {
    fix m n crc f'
    assume m: "m < length cs" and "(\<forall>k < m. \<exists>e. outcome_at unmarshal i env f k = Inl e) \<and>
      fetch_from unmarshal i (aeConn env m) f = (Inr (n, crc), f')"
    then show "attempt unmarshal addr i env f =
         (Fetched n crc (snd (cs ! m)), f',
          failed_events addr (take m cs) @ [Trying (provider_of addr (cs ! m)), ReportOwn, ReportDone (snd (cs ! m))])"
      using try_first_success [OF m, of env 0 unmarshal i f n crc f' addr None] assms live by (simp add: attempt_def)
  next
    assume "\<forall>m < length cs. \<exists>e. outcome_at unmarshal i env f m = Inl e"
    then show "\<exists>e. attempt unmarshal addr i env f = (AttemptFailed e, f, failed_events addr cs)"
      using try_all_fail [of cs env 0 unmarshal i f None _ addr] cs assms live by (auto simp: attempt_def)
  }
qed

definition sample_answer :: want_resp where
  "sample_answer = \<lparr>rsIndex = 0, rsAddr = ''p:1'', rsUUID = ''p'', rsCheckSum = 0, rsSources = [(''p:1'', ''p'')]\<rparr>"

definition sample_env :: attempt_env where
  "sample_env =
     \<lparr>aeLive = True, aeWant = Inr sample_answer, aeLiveAt = (\<lambda>_. True),
      aeConn = (\<lambda>j. if j = 1 then (True, True, concat (map (reply_bytes sample_encode) [ChunkReply 0 (ChecksumIEEE [7, 9]), ChunkData [7, 9]]))
                    else (False, False, [])), aeWoken = True\<rparr>"

theorem attempt_exact_witness:
  "attempt sample_unmarshal ''h:1'' 0 sample_env (sample_chunk, [0, 0]) =
     (Fetched 2 (ChecksumIEEE [7, 9]) [], (sample_chunk, [7, 9]),
      [Trying ''p:1'', ReportFailed ''p'', Trying ''h:1'', ReportOwn, ReportDone []])"
proof -
  have cs: "chunk_candidates ''h:1'' sample_answer = [(''p:1'', ''p''), ([], [])]"
    by (simp add: chunk_candidates_def sample_answer_def is_central_def)
  have json: "sample_unmarshal (sample_encode x) = Some x" "length (sample_encode x) \<le> 4096"
    if "x = \<lparr>ciError = False, ciIndex = 0, ciStatus = True, ciCheckSum = ChecksumIEEE [7, 9]\<rparr>" for x
    by (simp_all add: that sample_unmarshal_def sample_encode_def get_put_uint32)
  have "fetch_from sample_unmarshal 0 (aeConn sample_env 1) (sample_chunk, [0, 0]) =
      (Inr (2, ChecksumIEEE [7, 9]), (sample_chunk, [7, 9]))"
    using fetch_data [of sample_unmarshal sample_encode _ 0 "[7, 9]", OF json refl _ sample_saves] by (simp add: fetch_from_def sample_env_def ChunkSize_num)
  moreover have "outcome_at sample_unmarshal 0 sample_env (sample_chunk, [0, 0]) 0 = Inl NoConnection"
    by (simp add: outcome_at_def fetch_from_def sample_env_def fetch_def)
  moreover have env: "aeLive sample_env" "aeWant sample_env = Inr sample_answer" "aeLiveAt sample_env j" for j
    by (simp_all add: sample_env_def)
  ultimately have "attempt sample_unmarshal ''h:1'' 0 sample_env (sample_chunk, [0, 0]) =
      (Fetched 2 (ChecksumIEEE [7, 9]) (snd ([(''p:1'', ''p''), ([], [])] ! 1)), (sample_chunk, [7, 9]),
       failed_events ''h:1'' (take 1 [(''p:1'', ''p''), ([], [])]) @
         [Trying (provider_of ''h:1'' ([(''p:1'', ''p''), ([], [])] ! 1)), ReportOwn,
          ReportDone (snd ([(''p:1'', ''p''), ([], [])] ! 1))])"
    by (intro attempt_exact [OF env(1,2) cs [symmetric] env(3), THEN conjunct2, THEN conjunct1, rule_format, of 1]) auto
  then show ?thesis by (simp add: failed_events_def provider_of_def)
qed

text \<open>C9: the loop over attempts is the engine's. Started for a worker that has claimed a chunk, it ends as
  the steps of the engine do: with the chunk saved by one successful fetch, with the worker gone after
  a cancellation, or after three failed attempts with the failure that cancels the download.\<close>

theorem attempts_refine:
  assumes "w < length (dlWorkers d)" and "dlWorkers d ! w = WTry i 0"
    and "\<forall>k. env_fits unmarshal good i d (envs k)"
    and "fetch_chunk unmarshal addr i envs (dlFile d) = (res, f, evs)"
  shows "end_refines good w i d res f"
  using attempts_refine_from [of w d unmarshal good i envs 2 addr res f evs] assms
  by (simp add: fetch_chunk_def max_attempts_def numeral_3_eq_3 numeral_2_eq_2)

definition sample_no_answer :: attempt_env where
  "sample_no_answer =
     \<lparr>aeLive = True, aeWant = Inl WriteFailed, aeLiveAt = (\<lambda>_. True), aeConn = (\<lambda>_. (False, False, [])), aeWoken = True\<rparr>"

definition sample_trying :: download where
  "sample_trying = sample_dl\<lparr>dlWorkers := [WTry 0 0]\<rparr>"

theorem attempts_refine_witness:
  "(dl_step sample_good)\<^sup>*\<^sup>* sample_trying (set_worker 0 WGone (sample_trying\<lparr>dlFailed := True, dlCancelled := True\<rparr>))"
proof -
  have w: "0 < length (dlWorkers sample_trying)" "dlWorkers sample_trying ! 0 = WTry 0 0"
    by (simp_all add: sample_trying_def)
  have env: "\<forall>k. env_fits (\<lambda>_. None) sample_good 0 sample_trying ((\<lambda>_. sample_no_answer) k)"
    by (simp add: env_fits_def sample_no_answer_def fetch_from_def fetch_def)
  have a: "attempt (\<lambda>_. None) [] 0 sample_no_answer f = (AttemptFailed WriteFailed, f, [])" for f
    by (simp add: attempt_def sample_no_answer_def)
  have "fetch_chunk (\<lambda>_. None) [] 0 (\<lambda>_. sample_no_answer) f =
      (AttemptFailed WriteFailed, f, [Waiting 200, Waiting 400])" for f
    by (simp add: fetch_chunk_def max_attempts_def numeral_3_eq_3 attempts_next [OF a] attempts_last [OF a] backoff_ms_def)
      (simp add: sample_no_answer_def)
  from attempts_refine [OF w env this] show ?thesis by (simp add: end_refines_def)
qed

text \<open>The chunks being fetched are reported once each and by increasing index, in whatever order the map is
  visited.\<close>

lemma progress_sorted:
  assumes "distinct (map fst active)" and "mset active' = mset active"
  shows "emitLocked active' chunks saved received = emitLocked active chunks saved received \<and>
    sorted_wrt (<) (map fst (pgActive (emitLocked active chunks saved received)))"
proof -
  have d: "distinct (map fst (sort_key fst active))" using assms(1)
    by (metis mset_eq_imp_distinct_iff mset_map mset_sort)
  have "inj_on fst (set active')" using assms by (metis distinct_map mset_eq_setD)
  then have "sort_key fst active' = sort_key fst active"
    using assms(2) by (intro sort_key_inj_key_eq) simp_all
  moreover have "sorted_wrt (<) (map fst (sort_key fst active))" using d by (simp add: strict_sorted_iff)
  ultimately show ?thesis by (simp add: emitLocked_def)
qed

end
