(* ===== verification/Receiving.thy ===== *)
theory Receiving
  imports Agent Attempt
begin

text \<open>
  \<^verbatim>\<open>RunTo\<close> as a whole (\<^verbatim>\<open>internal/receiver/download.go\<close>): the metadata check, the temporary file, the
  session that begins to offer it, the workers of \<open>Download\<close>, and the end with its deferred cleanup, over the
  session and the directory. What the workers leave is a parameter that the theorem ties to the engine.
\<close>

definition Run_target :: "string \<Rightarrow> file_status \<Rightarrow> string" where
  "Run_target dir meta = path_Join (if dir = [] then ''.'' else dir) (path_Base (fsrFileName meta))"

datatype run_failure = BadMetadataGiven | AlreadyCancelled | NoTempFile | NotTruncated | RunFailed run_error

text \<open>The context at the start, the name and descriptor of the temporary file, whether it could be sized, and
  what \<^verbatim>\<open>Stat\<close> then answers.\<close>

record run_setup =
  ruLive :: bool
  ruTemp :: "string option"
  ruFd :: fd
  ruTruncated :: bool
  ruStat :: "file_stat option"

definition run_accepts :: "file_status \<Rightarrow> bool" where
  "run_accepts meta \<longleftrightarrow>
     run_metadata_ok (fsrFileName meta) (path_Base (fsrFileName meta) = fsrFileName meta) (fsrFileSize meta)
       (fsrChunkSize meta) (fsrChunkNum meta)"

definition RunTo_begin ::
  "run_setup \<Rightarrow> file_status \<Rightarrow> session \<Rightarrow> directory \<Rightarrow> (run_failure + string \<times> chunked) \<times> session \<times> directory" where
  "RunTo_begin u meta s dir =
     (if \<not> run_accepts meta then (Inl BadMetadataGiven, s, dir)
      else if \<not> ruLive u then (Inl AlreadyCancelled, s, dir)
      else
        (case ruTemp u of
           None \<Rightarrow> (Inl NoTempFile, s, dir)
         | Some tmp \<Rightarrow>
             if \<not> ruTruncated u then (Inl NotTruncated, ClearChunks s, mdel tmp (mput tmp [] dir))
             else
               (let data = truncate_to (nat (fsrFileSize meta)) []
                in (Inr (tmp, NewFileChunk (ruFd u) (ruStat u), data), BeSendSub (ruFd u) (ruStat u) s, mput tmp data dir))))"

text \<open>The last report, after the rename.\<close>

definition finished_progress :: "file_status \<Rightarrow> progress" where
  "finished_progress meta =
     \<lparr>pgActive = [], pgTotal = fsrChunkNum meta, pgDone = fsrChunkNum meta, pgBytes = fsrFileSize meta,
      pgFinished = True\<rparr>"

text \<open>\<open>work\<close> is what the workers make of the file and the session until they have all left.\<close>

definition RunTo ::
  "run_setup \<Rightarrow> run_env \<Rightarrow> bool option \<Rightarrow> string \<Rightarrow> file_status \<Rightarrow> (chunked \<Rightarrow> session \<Rightarrow> download \<times> session) \<Rightarrow>
   session \<Rightarrow> directory \<Rightarrow> run_failure option \<times> session \<times> directory \<times> progress option" where
  "RunTo u env overwrite target meta work s dir =
     (case RunTo_begin u meta s dir of
        (Inl e, s1, dir1) \<Rightarrow> (Some e, s1, dir1, None)
      | (Inr (tmp, f0), s1, dir1) \<Rightarrow>
          (case work f0 (SetPrefetchHandler True s1) of
             (d, s2) \<Rightarrow>
               (case RunTo_finish env overwrite tmp target d dir of
                  (Some e, dir2) \<Rightarrow> (Some (RunFailed e), ClearChunks (SetPrefetchHandler False s2), dir2, None)
                | (None, dir2) \<Rightarrow>
                    (None, SetPrefetchHandler False (RetainFile (ruFd u) s2), dir2, Some (finished_progress meta)))))"

section \<open>Lemmas\<close>

lemma cleared_offers_nothing: "\<not> HasChunk i (ClearChunks s)"
  by (simp add: HasChunk_def ClearChunks_def empty_chunk_def)

text \<open>The number of chunks that the sender announced is the one the session computes.\<close>

lemma announced_chunks:
  assumes "run_accepts meta" and "fsSize st = fsrFileSize meta"
  shows "well_sized (NewFileChunk f (Some st)) (nat (fsrFileSize meta))"
    and "GetChunkNum (NewFileChunk f (Some st)) = fsrChunkNum meta"
proof -
  have m: "0 \<le> fsrFileSize meta" "fsrFileSize meta \<le> 2 ^ 50"
    "fsrChunkNum meta = go_quot (fsrFileSize meta + ChunkSize - 1) ChunkSize"
    using assms(1) by (auto simp: run_accepts_def run_metadata_ok_def max_file_size_def)
  show ws: "well_sized (NewFileChunk f (Some st)) (nat (fsrFileSize meta))"
    using m assms(2) by (simp add: well_sized_def NewFileChunk_def)
  have "0 \<le> fsrFileSize meta + ChunkSize - 1" using m(1) by (simp add: ChunkSize_num)
  then show "GetChunkNum (NewFileChunk f (Some st)) = fsrChunkNum meta"
    using chunk_num_eq [OF ws] m by (simp add: go_quot_nonneg)
qed

lemma begin_error:
  assumes "RunTo_begin u meta s dir = (Inl e, s', dir')" and "\<And>t. ruTemp u = Some t \<Longrightarrow> mget dir t = None"
  shows "(s' = s \<or> (\<forall>i. \<not> HasChunk i s')) \<and> mget dir' x = mget dir x"
  using assms
  by (auto simp: RunTo_begin_def cleared_offers_nothing gomap_simps Let_def split: if_splits option.splits)

lemma begin_ok:
  assumes "RunTo_begin u meta s dir = (Inr (tmp, f0), s', dir')"
  shows "run_accepts meta \<and> ruTemp u = Some tmp \<and>
    f0 = (NewFileChunk (ruFd u) (ruStat u), truncate_to (nat (fsrFileSize meta)) [])"
  using assms by (auto simp: RunTo_begin_def Let_def split: if_splits option.splits)

text \<open>What is assumed of the workers: they run the engine until all have left, the engine is cancelled
  only by a failure or by the context, and the session has recorded the chunks the engine has.\<close>

definition fresh_file :: "run_setup \<Rightarrow> file_status \<Rightarrow> chunked" where
  "fresh_file u meta = (NewFileChunk (ruFd u) (ruStat u), truncate_to (nat (fsrFileSize meta)) [])"

definition works ::
  "(int \<Rightarrow> byte list \<Rightarrow> bool) \<Rightarrow> run_env \<Rightarrow> run_setup \<Rightarrow> file_status \<Rightarrow> (chunked \<Rightarrow> session \<Rightarrow> download \<times> session) \<Rightarrow> bool"
where
  "works good env u meta work \<longleftrightarrow>
     (\<forall>s. case work (fresh_file u meta) s of
        (d, s') \<Rightarrow>
          reachable (dl_init (fresh_file u meta) (fsrChunkNum meta)) (dl_step good) d \<and> dl_joined d \<and>
          (dlCancelled d \<longrightarrow> dlFailed d \<or> reCtx1 env) \<and>
          seChunkProvider s' = fst (fresh_file u meta) \<and> (\<forall>i \<in> set (dlHas d). mget (seChunkHash s') i \<noteq> None))"

lemma work_done:
  assumes "works good env u meta work" and acc: "run_accepts meta" and st: "ruStat u = Some st" "fsSize st = fsrFileSize meta"
    and f0: "f0 = fresh_file u meta" and w: "work f0 s1 = (d, s2)"
  shows "reachable (dl_init f0 (GetChunkNum (fst f0))) (dl_step good) d" and "dl_joined d"
    and "dlCancelled d \<Longrightarrow> dlFailed d \<or> reCtx1 env" and "chunked_ok (fst f0, src) \<longleftrightarrow> length src = nat (fsrFileSize meta)"
    and "\<not> dlCancelled d \<Longrightarrow> 0 \<le> i \<Longrightarrow> i < fsrChunkNum meta \<Longrightarrow> HasChunk i s2"
proof -
  note geo = announced_chunks [OF acc st(2), of "ruFd u"]
  note f0' = f0 [unfolded fresh_file_def]
  from assms(1) [unfolded works_def, THEN spec, of s1] w f0
  have r: "reachable (dl_init f0 (fsrChunkNum meta)) (dl_step good) d" "dl_joined d"
    "dlCancelled d \<longrightarrow> dlFailed d \<or> reCtx1 env" "seChunkProvider s2 = fst f0"
    "\<forall>i \<in> set (dlHas d). mget (seChunkHash s2) i \<noteq> None"
    by simp_all
  have num: "GetChunkNum (fst f0) = fsrChunkNum meta" using geo(2) by (simp add: f0' st(1))
  show "reachable (dl_init f0 (GetChunkNum (fst f0))) (dl_step good) d" "dl_joined d"
    "dlCancelled d \<Longrightarrow> dlFailed d \<or> reCtx1 env"
    using r num by simp_all
  have "0 \<le> fsrFileSize meta" using acc by (auto simp: run_accepts_def run_metadata_ok_def)
  then show "chunked_ok (fst f0, src) \<longleftrightarrow> length src = nat (fsrFileSize meta)"
    using geo(1) st by (auto simp: f0' chunked_ok_def well_sized_def NewFileChunk_def)
  show "HasChunk i s2" if "\<not> dlCancelled d" "0 \<le> i" "i < fsrChunkNum meta"
  proof -
    have "set (dlHas d) = {0..<fsrChunkNum meta}" using dl_complete(1) [OF dl.reach_inv [OF r(1)] r(2) that(1)] .
    then have "mget (seChunkHash s2) i \<noteq> None" using r(5) that by auto
    then show ?thesis using that num r(4) by (simp add: HasChunk_def f0' NewFileChunk_def st(1))
  qed
qed

section \<open>Properties\<close>


text \<open>A run for the witness: the file of two bytes is fetched into \<^verbatim>\<open>f\<close>, which existed.\<close>

definition sample_meta :: file_status where
  "sample_meta = \<lparr>fsrError = False, fsrFileName = ''f'', fsrFileSize = 2, fsrChunkSize = ChunkSize, fsrChunkNum = 1\<rparr>"

definition sample_setup :: run_setup where
  "sample_setup = \<lparr>ruLive = True, ruTemp = Some ''t.part'', ruFd = 3, ruTruncated = True, ruStat = fcStat sample_chunk\<rparr>"

definition sample_run_env :: run_env where
  "sample_run_env = \<lparr>reCtx1 = False, reCtx2 = False, reSync = True, reLstat = True, reRename = True\<rparr>"

definition sample_work :: "chunked \<Rightarrow> session \<Rightarrow> download \<times> session" where
  "sample_work f0 s = (sample_done, AddChunk 0 (ChecksumIEEE [7, 9]) (s\<lparr>seChunkProvider := fst f0\<rparr>))"


end
