(* ===== verification/View.thy ===== *)
theory View
  imports Node
begin

text \<open>
  What the web interface shows and how it hears of changes (\<^verbatim>\<open>internal/webui/app.go\<close>: \<^verbatim>\<open>state\<close> and the last
  receiver that \<^verbatim>\<open>stopRole\<close> remembers; \<^verbatim>\<open>http.go\<close>: \<^verbatim>\<open>events\<close>, \<^verbatim>\<open>decode\<close> and \<^verbatim>\<open>browse\<close>). Encoding a view as JSON is a
  parameter; texts and the size of the source are left out.
\<close>

section \<open>The state shown\<close>

record receiver_view =
  rvOnline :: bool
  rvDir :: string
  rvAddress :: string
  rvPort :: int
  rvDisconnected :: bool
  rvTask :: task_state
  rvCommand :: task_state

record app_view =
  vwConfig :: config
  vwOperation :: "app_operation option"
  vwCommand :: "app_operation option"
  vwDistribution :: "app_distribution option"
  vwSource :: "(string \<times> bool \<times> nat \<times> int) option"
  vwSender :: "int option"
  vwPeers :: "peer_state list"
  vwReceiver :: "receiver_view option"
  vwAddresses :: "string list"
  vwDiscovery :: bool

text \<open>What surrounds the application when it is looked at: the hub's session, the agents with the sender's address
  and their port, the tasks of the last receiver and the addresses of the interfaces.\<close>

record surroundings =
  suHub :: session
  suAgent :: "nat \<Rightarrow> agent"
  suAddress :: "nat \<Rightarrow> string"
  suPort :: "nat \<Rightarrow> int"
  suLast :: "(task_state \<times> task_state) option"
  suInterfaces :: "octets option list"

definition show_receiver :: "surroundings \<Rightarrow> app \<Rightarrow> receiver_view option" where
  "show_receiver su a =
     (case apAgent a of
        Some n \<Rightarrow>
          Some \<lparr>rvOnline = True, rvDir = agRoot (suAgent su n), rvAddress = suAddress su n, rvPort = suPort su n,
            rvDisconnected = agDisconnected (suAgent su n), rvTask = agTask (suAgent su n),
            rvCommand = agCommand (suAgent su n)\<rparr>
      | None \<Rightarrow>
          (case suLast su of
             None \<Rightarrow> None
           | Some (task, command) \<Rightarrow>
               Some \<lparr>rvOnline = False, rvDir = [], rvAddress = cfSenderAddr (apConfig a), rvPort = 0,
                 rvDisconnected = False, rvTask = task, rvCommand = command\<rparr>))"

definition app_state :: "surroundings \<Rightarrow> app \<Rightarrow> app_view" where
  "app_state su a =
     \<lparr>vwConfig = (apConfig a)\<lparr>cfWorkDir := []\<rparr>, vwOperation = apOp a, vwCommand = apCommandOp a,
      vwDistribution = apDistribution a,
      vwSource = map_option (\<lambda>s. (soName s, soArchive s, length (soEntries s), Session_Port (suHub su))) (apSource a),
      vwSender = (if apHub a = None then None else Some (Session_Port (suHub su))),
      vwPeers = (if apHub a = None then [] else state_peers (Snapshot (suHub su)) (apProbes a)),
      vwReceiver = show_receiver su a, vwAddresses = localAddresses (suInterfaces su),
      vwDiscovery = (apDiscovery a \<noteq> None)\<rparr>"

text \<open>\<^verbatim>\<open>stopRole\<close> for a receiver: its agent was taken and closed, and its tasks are remembered. Closing waits for the
  goroutines of both slots.\<close>

definition remember_receiver :: "outcome \<Rightarrow> outcome \<Rightarrow> agent \<Rightarrow> (task_state \<times> task_state)" where
  "remember_receiver out1 out2 r =
     (let r1 = close_begin r;
          r2 = (if tsStatus (agTask r1) = TRunning then launch_end out1 r1 else r1);
          r3 = (if tsStatus (agCommand r2) = TRunning then command_end out2 r2 else r2);
          r4 = close_end r3
      in (agTask r4, agCommand r4))"

section \<open>The event stream\<close>

text \<open>A turn of the loop: the view, whether it could be written, and whether the application or the request ended
  before the next tick. The first argument is what was sent last.\<close>

fun events :: "(app_view \<Rightarrow> string option) \<Rightarrow> string \<Rightarrow> (app_view \<times> bool \<times> bool) list \<Rightarrow> string list" where
  "events marshal sent [] = []"
| "events marshal sent ((v, ok, over) # ts) =
     (case marshal v of
        None \<Rightarrow> []
      | Some x \<Rightarrow>
          if x = sent then (if over then [] else events marshal sent ts)
          else if \<not> ok then []
          else x # (if over then [] else events marshal x ts))"

section \<open>Copies and cancellations\<close>

text \<open>\<^verbatim>\<open>clonePeers\<close>: a copy, entry by entry, whatever the order of the visit.\<close>

definition clonePeers :: "(string, peer_state) gomap \<Rightarrow> (string, peer_state) gomap" where
  "clonePeers peers = fold (\<lambda>(uid, p) out. mput uid p out) peers []"

lemma clonePeers_get:
  assumes "wf_map peers"
  shows "mget (clonePeers peers) uid = mget peers uid"
proof -
  have all: "wf_map ps \<Longrightarrow> mget (fold (\<lambda>(uid, p) out. mput uid p out) ps m) uid =
      (case mget ps uid of None \<Rightarrow> mget m uid | Some p \<Rightarrow> Some p)" for ps m
  proof (induction ps arbitrary: m)
    case (Cons x ps)
    obtain k p where x: "x = (k, p)" by (cases x)
    have "mget ps k = None" using Cons.prems x by (auto simp: mget_None)
    with Cons x show ?case by (auto simp: gomap_simps split: option.splits)
  qed simp
  show ?thesis
    unfolding clonePeers_def all [OF assms] by (simp split: option.splits)
qed

text \<open>What a cancelled operation sends: the cancellations of tasks, or those of commands.\<close>

datatype remote_cancel = CancelTask string string | CancelCommand string string

definition cancelRemoteKind :: "bool \<Rightarrow> (string, peer_state) gomap \<Rightarrow> remote_cancel list" where
  "cancelRemoteKind commands peers =
     (if \<not> commands then map (\<lambda>(uid, t). CancelTask uid t) (cancelRemote False peers)
      else map (\<lambda>(uid, t). CancelCommand uid t) (cancelRemote True peers))"

text \<open>\<^verbatim>\<open>sendJSON\<close>: nothing when the value cannot be encoded.\<close>

definition sendJSON :: "('v \<Rightarrow> byte list option) \<Rightarrow> 'v \<Rightarrow> byte list" where
  "sendJSON marshal v = (case marshal v of None \<Rightarrow> [] | Some p \<Rightarrow> frame TypeJSON p)"

section \<open>Bodies and browsing\<close>

definition max_body :: nat where
  "max_body = 2 * 2 ^ 20"

definition json_space :: "byte \<Rightarrow> bool" where
  "json_space b \<longleftrightarrow> b \<in> {32, 9, 10, 13}"

text \<open>\<open>parse\<close> reads one object of the known fields and gives the bytes after it; a longer body fails at the latest
  when the end is looked for.\<close>

definition decode_body :: "(byte list \<Rightarrow> ('a \<times> byte list) option) \<Rightarrow> byte list \<Rightarrow> 'a option" where
  "decode_body parse body =
     (if max_body < length body then None
      else
        (case parse body of
           None \<Rightarrow> None
         | Some (x, rest) \<Rightarrow> if list_all json_space rest then Some x else None))"

text \<open>The answer to a browse request: 400 with nothing, or the receiver's listing. \<open>call\<close> is the control call to an
  address with the key and the path.\<close>

definition browse ::
  "(byte list \<Rightarrow> ((string \<times> string \<times> string) \<times> byte list) option) \<Rightarrow>
   (string \<Rightarrow> string \<Rightarrow> string \<Rightarrow> remote_error + listing) \<Rightarrow> byte list \<Rightarrow> surroundings \<Rightarrow> app \<Rightarrow> nat \<times> listing option" where
  "browse parse call body su a =
     (case decode_body parse body of
        None \<Rightarrow> (400, None)
      | Some (peer, token, path) \<Rightarrow>
          (case browse_address a (Snapshot (suHub su)) peer of
             Inl e \<Rightarrow> (400, None)
           | Inr addr \<Rightarrow>
               (case call addr token path of
                  Inl e \<Rightarrow> (400, None)
                | Inr l \<Rightarrow> (200, Some l))))"

section \<open>Properties\<close>

lemma remember_not_running:
  "tsStatus (fst (remember_receiver out1 out2 r)) \<noteq> TRunning \<and> tsStatus (snd (remember_receiver out1 out2 r)) \<noteq> TRunning"
  by (auto simp: remember_receiver_def Let_def close_end_def launch_end_def command_end_def split: outcome.splits)

lemma snapshot_keys:
  assumes "reachable_session s"
  shows "distinct (map piUUID (Snapshot s))"
proof -
  have "wf_map (sePeers s)" using sess.reach_inv [OF assms] by (simp add: reg_inv_def maps_ok_def)
  moreover have "map piUUID (Snapshot s) = map fst (sePeers s)"
    by (auto simp: Snapshot_def peer_info_of_def)
  ultimately show ?thesis by simp
qed

lemma snapshot_self: "i \<in> set (Snapshot s) \<Longrightarrow> piSelf i \<longleftrightarrow> piUUID i = seUUID s"
  by (auto simp: Snapshot_def peer_info_of_def)

text \<open>A machine that is no longer registered is shown offline, and no task of it as running.\<close>

lemma vanished_ended:
  assumes "p \<in> set (state_peers snapshot probes)" and "keyed probes"
    and "piUUID (psInfo p) \<notin> piUUID ` {i \<in> set snapshot. \<not> piSelf i}"
  shows "\<not> piOnline (psInfo p) \<and> (\<forall>t. psTask p = Some t \<longrightarrow> tsStatus t = TEnded)"
proof -
  obtain uid q where "p = offline_peer q"
    using assms(1,3) by (auto simp: state_peers_def Let_def)
  then show ?thesis by (auto simp: offline_peer_def)
qed

lemma events_remdups:
  assumes "\<forall>(v, ok, over) \<in> set ts. ok \<and> \<not> over \<and> marshal v \<noteq> None"
  shows "sent # events marshal sent ts = remdups_adj (sent # map (\<lambda>t. the (marshal (fst t))) ts)"
  using assms
proof (induction ts arbitrary: sent)
  case (Cons t ts)
  obtain v ok over where t: "t = (v, ok, over)" by (cases t)
  then obtain x where x: "marshal v = Some x" and ok: "ok" "\<not> over" using Cons.prems by auto
  have ih: "y # events marshal y ts = remdups_adj (y # map (\<lambda>t. the (marshal (fst t))) ts)" for y
    using Cons by auto
  show ?case
  proof (cases "x = sent")
    case True
    then show ?thesis using t x ok ih [of sent] by simp
  next
    case False
    then show ?thesis using t x ok ih [of x] by simp
  qed
qed simp

text \<open>C39: a page that listens to events sees exactly the changes. While nothing fails, the events are the states of
  the ticks with repetitions left out, so that no event repeats the one before it and after every tick
  the last event is the current state.\<close>

theorem events_follow:
  assumes "\<forall>(v, ok, over) \<in> set ts. ok \<and> \<not> over \<and> (\<exists>x. marshal v = Some x \<and> x \<noteq> [])"
  shows "events marshal [] ts = remdups_adj (map (\<lambda>t. the (marshal (fst t))) ts) \<and>
    (ts \<noteq> [] \<longrightarrow> last (events marshal [] ts) = the (marshal (fst (last ts)))) \<and>
    successively (\<noteq>) (events marshal [] ts)"
proof -
  let ?xs = "map (\<lambda>t. the (marshal (fst t))) ts"
  have e: "[] # events marshal [] ts = remdups_adj ([] # ?xs)"
    using assms by (intro events_remdups) auto
  have first: "?xs = [] \<or> hd ?xs \<noteq> []" using assms by (cases ts) auto
  then have eq: "events marshal [] ts = remdups_adj ?xs"
  proof (cases ?xs)
    case (Cons y ys)
    then have "remdups_adj ([] # ?xs) = [] # remdups_adj ?xs" using first by simp
    with e show ?thesis by simp
  qed (use e in simp)
  have "last (remdups_adj ?xs) = last ?xs" by (rule last_remdups_adj)
  moreover have "ts \<noteq> [] \<Longrightarrow> last ?xs = the (marshal (fst (last ts)))" by (simp add: last_map)
  moreover have "successively (\<noteq>) (remdups_adj ?xs)" by (rule distinct_adj_remdups_adj [unfolded distinct_adj_def])
  ultimately show ?thesis unfolding eq by simp
qed

definition sample_surroundings :: surroundings where
  "sample_surroundings =
     \<lparr>suHub = NewGspSession '':0'' ''hub'', suAgent = (\<lambda>_. busy_agent), suAddress = (\<lambda>_. ''h:1''), suPort = (\<lambda>_. 0),
      suLast = None, suInterfaces = []\<rparr>"

definition sample_marshal :: "app_view \<Rightarrow> string option" where
  "sample_marshal v = Some (if vwDiscovery v then ''discovering'' else ''quiet'')"

theorem events_follow_witness:
  "events sample_marshal []
     (map (\<lambda>a. (app_state sample_surroundings a, True, False)) [sample_app, sample_app, sample_app\<lparr>apDiscovery := Some 0\<rparr>]) =
     [''quiet'', ''discovering'']"
proof -
  have quiet: "sample_marshal (app_state sample_surroundings sample_app) = Some ''quiet''"
    by (simp add: sample_marshal_def app_state_def sample_app_def)
  have busy: "sample_marshal (app_state sample_surroundings (sample_app\<lparr>apDiscovery := Some 0\<rparr>)) = Some ''discovering''"
    by (simp add: sample_marshal_def app_state_def)
  show ?thesis
    using events_follow [of "map (\<lambda>a. (app_state sample_surroundings a, True, False))
        [sample_app, sample_app, sample_app\<lparr>apDiscovery := Some 0\<rparr>]" sample_marshal, THEN conjunct1]
    by (simp add: quiet busy)
qed



end
