(* ===== verification/Program.thy ===== *)
theory Program
  imports View
begin

text \<open>
  The program around the application: \<^verbatim>\<open>cmd/main.go\<close> from the flags to the end, and the places that depend on
  the platform: the shell and the killing of a command (\<^verbatim>\<open>internal/webui/agent.go\<close>, \<^verbatim>\<open>process_*.go\<close>), the
  browser, and the free space of a directory (\<^verbatim>\<open>internal/transfer/space_*.go\<close>). What the system calls answer
  are arguments. The draft of a queue in \<^verbatim>\<open>internal/queue\<close> is here, too; nothing creates it.
\<close>

section \<open>Platforms\<close>

datatype platform = Darwin | Linux | BSD | Windows | OtherPlatform

text \<open>\<open>statfs\<close> gives available blocks and block size, \<open>disk_space\<close> the bytes available on Windows. The product
  is one of \<^verbatim>\<open>uint64\<close>.\<close>

definition freeBytes :: "platform \<Rightarrow> (64 word \<times> 64 word) option \<Rightarrow> 64 word option \<Rightarrow> 64 word \<times> bool" where
  "freeBytes os statfs disk_space =
     (case os of
        OtherPlatform \<Rightarrow> (0, False)
      | Windows \<Rightarrow> (case disk_space of None \<Rightarrow> (0, False) | Some n \<Rightarrow> (n, True))
      | _ \<Rightarrow> (case statfs of None \<Rightarrow> (0, False) | Some (blocks, sz) \<Rightarrow> (blocks * sz, True)))"

definition shell_of :: "platform \<Rightarrow> string \<Rightarrow> string \<times> string list" where
  "shell_of os cmd =
     (if os = Windows then (''cmd.exe'', [''/C'', cmd]) else (''/bin/sh'', [''-c'', cmd]))"

definition browser_of :: "platform \<Rightarrow> string \<Rightarrow> string \<times> string list" where
  "browser_of os url =
     (case os of
        Darwin \<Rightarrow> (''open'', [url])
      | Windows \<Rightarrow> (''rundll32'', [''url.dll,FileProtocolHandler'', url])
      | _ \<Rightarrow> (''xdg-open'', [url]))"

text \<open>What cancelling a command does to its process, if it has one: the whole group, or the whole tree, is killed.
  On Unix the process leads a group of its own.\<close>

datatype kill = KillGroup nat | KillTree nat

definition own_group :: "platform \<Rightarrow> bool" where
  "own_group os \<longleftrightarrow> os \<noteq> Windows"

definition configureCommand :: "platform \<Rightarrow> nat option \<Rightarrow> kill option" where
  "configureCommand os pid = map_option (if os = Windows then KillTree else KillGroup) pid"

section \<open>Commands\<close>

record process =
  pcShell :: string
  pcArgs :: "string list"
  pcDir :: string
  pcTimeout :: int
  pcWaitDelay :: int
  pcOwnGroup :: bool

definition execute_process :: "platform \<Rightarrow> string \<Rightarrow> string \<Rightarrow> int \<Rightarrow> process" where
  "execute_process os cmd dir timeout =
     \<lparr>pcShell = fst (shell_of os cmd), pcArgs = snd (shell_of os cmd), pcDir = dir,
      pcTimeout = command_timeout timeout, pcWaitDelay = 2, pcOwnGroup = own_group os\<rparr>"

text \<open>\<^verbatim>\<open>execute\<close>: the writes of the process and how it and its context end. The result is the process that was started,
  the output recorded and the outcome; without permission nothing is started.\<close>

definition execute ::
  "platform \<Rightarrow> (byte list \<Rightarrow> string) \<Rightarrow> string \<Rightarrow> string \<Rightarrow> string \<Rightarrow> int \<Rightarrow> byte list list \<Rightarrow> outcome option \<Rightarrow> bool \<Rightarrow>
   agent \<Rightarrow> process option \<times> outcome \<times> agent" where
  "execute os render note cmd dir timeout writes ctx succeeded r =
     (if \<not> agAllow r then (None, execute_outcome False ctx succeeded, r)
      else
        (Some (execute_process os cmd dir timeout), execute_outcome True ctx succeeded,
         command_output
           (command_text render note (fold (\<lambda>p w. snd (limited_Write p w)) writes \<lparr>loBuf = [], loTruncated = False\<rparr>)) r))"

section \<open>The program\<close>

datatype main_effect =
    DoListen
  | DoServe
  | DoAutoStart
  | SayAutoStartFailed
  | DoBrowser string "string list"
  | DoClose
  | DoShutdown

datatype main_error = WebAddrError | ConfigError | ListenError | ServeError | ShutdownError

text \<open>How serving ends: a signal, or the server's error, which may be that it was closed.\<close>

datatype serve_end = Signalled | ServerEnded bool

record main_env =
  meListens :: bool
  meUrl :: string
  meAutoStarted :: bool
  meEnd :: serve_end
  meShutdown :: bool

definition run_program ::
  "(string \<Rightarrow> string option) \<Rightarrow> string option \<Rightarrow> platform \<Rightarrow> bool \<Rightarrow> string \<Rightarrow> config \<Rightarrow> main_env \<Rightarrow>
   main_error option \<times> main_effect list" where
  "run_program absolute getwd os noBrowser uiAddr c env =
     (case main_run absolute getwd (meListens env) uiAddr c of
        BadWebAddr \<Rightarrow> (Some WebAddrError, [])
      | NotLoopback \<Rightarrow> (Some WebAddrError, [])
      | BadConfig \<Rightarrow> (Some ConfigError, [])
      | NoWebListener \<Rightarrow> (Some ListenError, [DoClose])
      | Served a \<Rightarrow>
          (let begun = [DoListen, DoServe, DoAutoStart] @ (if meAutoStarted env then [] else [SayAutoStartFailed]) @
                 (if noBrowser then [] else [DoBrowser (fst (browser_of os (meUrl env))) (snd (browser_of os (meUrl env)))])
           in if meEnd env = ServerEnded False then (Some ServeError, begun @ [DoClose])
              else (if meShutdown env then None else Some ShutdownError, begun @ [DoClose, DoShutdown, DoClose])))"

section \<open>The draft of a queue\<close>

text \<open>\<^verbatim>\<open>Want\<close> of the draft: the answer names no source; the second result says whether the connection stays open.\<close>

definition draft_Want :: "int \<Rightarrow> bool \<Rightarrow> want_resp option \<times> bool" where
  "draft_Want i sent =
     (if sent then (Some \<lparr>rsIndex = i, rsAddr = [], rsUUID = [], rsCheckSum = 0, rsSources = []\<rparr>, True) else (None, False))"

section \<open>Properties\<close>

text \<open>A command runs only where it is allowed, for at most 300 seconds, in a shell that is given the text as one
  argument; what is recorded is the beginning of its output, up to 256 KiB.\<close>

lemma execute_bounded:
  assumes "execute os render note cmd dir timeout writes ctx succeeded r = (started, out, r')"
  shows "(started = None \<longleftrightarrow> \<not> agAllow r) \<and>
    (\<forall>p. started = Some p \<longrightarrow> pcTimeout p \<in> {1..300} \<and> last (pcArgs p) = cmd \<and> pcDir p = dir \<and>
       tsOutput (agCommand r') =
         render (take output_limit (concat writes)) @ (if output_limit < length (concat writes) then note else [])) \<and>
    (started = None \<longrightarrow> r' = r)"
proof -
  have out: "fold (\<lambda>p w. snd (limited_Write p w)) writes \<lparr>loBuf = [], loTruncated = False\<rparr> = limited_abs (concat writes)"
    using output_bounded [of writes] by blast
  have "last (snd (shell_of os cmd)) = cmd" by (simp add: shell_of_def)
  then show ?thesis
    using assms command_timeout_range [of timeout]
    by (auto simp: execute_def execute_process_def out command_text_def limited_abs_def command_output_def split: if_splits)
qed

text \<open>C40: the program serves only this machine and never leaves without closing the application. Whatever fails and
  however it ends, it serves only on a local address; once the application exists it is closed before the
  program ends; the server is shut down only after the application was closed, so that the event streams
  have ended, and nothing is started after that; it ends without an error exactly when it served,
  was told to stop and could shut down.\<close>

theorem program_closes:
  assumes "run_program absolute getwd os noBrowser uiAddr c env = (err, effs)"
  shows "(DoServe \<in> set effs \<longrightarrow> (\<exists>host port. SplitHostPort uiAddr = Some (host, port) \<and> local_host host)) \<and>
    ((\<exists>host port. SplitHostPort uiAddr = Some (host, port) \<and> local_host host) \<and> New absolute getwd c \<noteq> None \<longrightarrow>
       effs \<noteq> [] \<and> last effs = DoClose) \<and>
    DoShutdown \<notin> set (takeWhile (\<lambda>e. e \<noteq> DoClose) effs) \<and>
    set (dropWhile (\<lambda>e. e \<noteq> DoClose) effs) \<subseteq> {DoClose, DoShutdown} \<and>
    (err = None \<longleftrightarrow> DoShutdown \<in> set effs \<and> meShutdown env)"
proof -
  let ?m = "main_run absolute getwd (meListens env) uiAddr c"
  define begun where "begun = [DoListen, DoServe, DoAutoStart] @ (if meAutoStarted env then [] else [SayAutoStartFailed]) @
      (if noBrowser then [] else [DoBrowser (fst (browser_of os (meUrl env))) (snd (browser_of os (meUrl env)))])"
  have begun: "\<forall>e \<in> set begun. e \<noteq> DoClose" "DoShutdown \<notin> set begun" "begun \<noteq> []" by (auto simp: begun_def)
  have parts: "takeWhile (\<lambda>e. e \<noteq> DoClose) (begun @ DoClose # es) = begun"
    "dropWhile (\<lambda>e. e \<noteq> DoClose) (begun @ DoClose # es) = DoClose # es" for es
    using begun(1) by (simp_all add: takeWhile_append2 dropWhile_append2)
  have not_local: "\<not> (\<exists>host port. SplitHostPort uiAddr = Some (host, port) \<and> local_host host)"
    if "?m = BadWebAddr \<or> ?m = NotLoopback"
    using that by (auto simp: main_run_def local_host_def split: option.splits if_splits)
  have local_served: "\<exists>host port. SplitHostPort uiAddr = Some (host, port) \<and> local_host host" if "?m = Served a" for a
    using that by (auto simp: main_run_def local_host_def split: option.splits prod.splits if_splits)
  have refused: "New absolute getwd c = None" if "?m = BadConfig"
    using that by (auto simp: main_run_def split: option.splits prod.splits if_splits)
  consider (away) "?m = BadWebAddr \<or> ?m = NotLoopback" | (bad) "?m = BadConfig" | (unbound) "?m = NoWebListener"
    | (served) a where "?m = Served a" by (cases ?m) auto
  then show ?thesis
  proof cases
    case away
    then have "effs = []" "err \<noteq> None" using assms by (auto simp: run_program_def)
    then show ?thesis using not_local [OF away] by simp
  next
    case bad
    then have "effs = []" "err \<noteq> None" using assms by (auto simp: run_program_def)
    then show ?thesis using refused [OF bad] by simp
  next
    case unbound
    then have "effs = [DoClose]" "err \<noteq> None" using assms by (auto simp: run_program_def)
    then show ?thesis by simp
  next
    case (served a)
    show ?thesis
    proof (cases "meEnd env = ServerEnded False")
      case True
      then have "effs = begun @ [DoClose]" "err \<noteq> None"
        using assms served by (auto simp: run_program_def begun_def Let_def)
      then show ?thesis using parts begun local_served [OF served] by simp
    next
      case False
      then have "effs = begun @ [DoClose, DoShutdown, DoClose]" "err = None \<longleftrightarrow> meShutdown env"
        using assms served by (auto simp: run_program_def begun_def Let_def split: if_splits)
      then show ?thesis using parts begun local_served [OF served] by simp
    qed
  qed
qed

definition sample_main :: main_env where
  "sample_main =
     \<lparr>meListens = True, meUrl = ''http://127.0.0.1:1'', meAutoStarted = True, meEnd = Signalled, meShutdown = True\<rparr>"

theorem program_closes_witness:
  "last (snd (run_program Some None Linux True ''localhost:0'' sample_config sample_main)) = DoClose \<and>
   fst (run_program Some None Linux True ''localhost:0'' sample_config sample_main) = None"
proof -
  have hp: "SplitHostPort ''localhost:0'' = Some (''localhost'', ''0'')" by code_simp
  then have run: "run_program Some None Linux True ''localhost:0'' sample_config sample_main =
      (None, [DoListen, DoServe, DoAutoStart, DoClose, DoShutdown, DoClose])"
    using sample_app_new by (simp add: run_program_def main_run_def sample_main_def)
  have "local_host ''localhost''" by (simp add: local_host_def)
  moreover have "New Some None sample_config \<noteq> None" using sample_app_new by simp
  ultimately show ?thesis using program_closes [OF run] hp run by auto
qed

end
